(* ===== verification/Prelude.thy ===== *)
theory Prelude
  imports Main "HOL-Library.Word" "HOL-Library.Multiset"
begin

text \<open>
  Shared vocabulary of the development: the machine integer types the C++ code uses
  (\<open>uint8_t\<close> to \<open>uint64_t\<close> as words of that width, so that arithmetic wraps as it
  does there), the masks its bit twiddling builds, and the facts on lists and multisets
  that the component theories share.
\<close>

unbundle bit_operations_syntax

type_synonym u8 = "8 word"
type_synonym u16 = "16 word"
type_synonym u32 = "32 word"
type_synonym u64 = "64 word"

named_theorems word_masks "masks of the source as instances of the library's mask"
named_theorems mset_lists "rearrangements of lists that keep the multiset of elements"

section \<open>Masks\<close>

lemma push_bit_16_minus_1 [word_masks]:
  "push_bit (4 * i) 16 - 1 = (mask (4 * i + 4) :: 'a::len word)"
  by (simp add: mask_eq_exp_minus_1 push_bit_eq_mult power_add)

lemma push_bit_256_minus_1 [word_masks]:
  "push_bit (4 * i) 256 - 1 = (mask (4 * i + 8) :: 'a::len word)"
  by (simp add: mask_eq_exp_minus_1 push_bit_eq_mult power_add)

lemma numeral_15_mask: "(15 :: 'a::len word) = mask 4"
  by (simp add: mask_eq_exp_minus_1)

lemma unat_push_bit_1 [word_masks]:
  assumes "n < LENGTH('a)"
  shows "unat (push_bit n 1 :: 'a::len word) = 2 ^ n"
proof -
  have "unat (push_bit n 1 :: 'a word) = take_bit LENGTH('a) (push_bit n (unat (1 :: 'a word)))"
    by (rule unsigned_push_bit_eq)
  also have "\<dots> = 2 ^ n" using assms
    by (simp add: push_bit_eq_mult take_bit_nat_eq_self del: push_bit_of_1)
  finally show ?thesis .
qed

lemma unat_exp: "n < LENGTH('a) \<Longrightarrow> unat (2 ^ n :: 'a::len word) = 2 ^ n"
  using unat_push_bit_1 [of n, where 'a = 'a] by (simp only: push_bit_of_1)

section \<open>Rearranged lists\<close>

lemma mset_take_drop [simp]: "mset (take i xs) + mset (drop i xs) = mset xs"
  by (metis append_take_drop_id mset_append)

lemma mset_take_drop_take: "i \<le> j \<Longrightarrow> mset (take i xs) + mset (drop i (take j xs)) = mset (take j xs)"
  using mset_take_drop [of i "take j xs"] by (simp add: min_def)

lemma mset_nth_drop: "i < length xs \<Longrightarrow> mset (drop i xs) = add_mset (xs ! i) (mset (drop (Suc i) xs))"
  by (simp flip: Cons_nth_drop_Suc)

lemma mset_insert_last [mset_lists]:
  assumes "xs \<noteq> []" "i < length xs"
  shows "mset (take i xs @ last xs # drop i (butlast xs)) = mset xs"
proof -
  from assms have "take i xs = take i (butlast xs)" by (simp add: take_butlast)
  then have "mset (take i xs @ last xs # drop i (butlast xs)) = add_mset (last xs) (mset (butlast xs))"
    by simp
  also have "\<dots> = mset (butlast xs @ [last xs])" by simp
  finally show ?thesis using assms by (simp only: append_butlast_last_id not_False_eq_True)
qed

lemma mset_move_down [mset_lists]:
  assumes "i \<le> j" "j < length xs"
  shows "mset (take i xs @ xs ! j # drop i (take j xs) @ drop (Suc j) xs) = mset xs"
proof -
  have "mset (take i xs @ xs ! j # drop i (take j xs) @ drop (Suc j) xs)
      = (mset (take i xs) + mset (drop i (take j xs))) + mset (drop j xs)"
    using assms by (simp add: mset_nth_drop)
  then show ?thesis using assms by (simp add: mset_take_drop_take)
qed

lemma mset_move_up [mset_lists]:
  assumes "i < n" "n \<le> length xs"
  shows "mset (take i xs @ drop (Suc i) (take n xs) @ xs ! i # drop n xs) = mset xs"
proof -
  have "mset (take i xs @ drop (Suc i) (take n xs) @ xs ! i # drop n xs)
      = (mset (take i xs) + mset (drop i (take n xs))) + mset (drop n xs)"
    using assms mset_nth_drop [of i "take n xs"] by simp
  then show ?thesis using assms by (simp add: mset_take_drop_take)
qed

lemma mset_rotate_tail [mset_lists]:
  assumes "i \<le> j"
  shows "mset (take i xs @ drop j xs @ drop i (take j xs)) = mset xs"
proof -
  have "mset (take i xs @ drop j xs @ drop i (take j xs))
      = (mset (take i xs) + mset (drop i (take j xs))) + mset (drop j xs)" by simp
  then show ?thesis using assms by (simp add: mset_take_drop_take)
qed

lemma mset_map_transposition:
  assumes "mset xs = mset [0..<n]" "a < n" "b < n"
  shows "mset (map (\<lambda>v. if v = a then b else if v = b then a else v) xs) = mset [0..<n]"
proof -
  let ?f = "\<lambda>v::nat. if v = a then b else if v = b then a else v"
  have "distinct (map ?f [0..<n])" by (auto simp: distinct_map inj_on_def)
  moreover have "set (map ?f [0..<n]) = set [0..<n]" using assms(2,3) by force
  ultimately have "mset (map ?f [0..<n]) = mset [0..<n]"
    using set_eq_iff_mset_eq_distinct [of "map ?f [0..<n]" "[0..<n]"] by simp
  then show ?thesis using assms(1) by simp
qed

end
