(* ===== verification/Nibbles.thy ===== *)
theory Nibbles
  imports Prelude
begin

text \<open>
  A 64-bit word as sixteen 4-bit digits. \<open>kpermuter\<close> packs a size and fifteen slot numbers
  that way; every operation of it is proved digit by digit with \<open>nib_algebra\<close>.
\<close>

definition nib :: "u64 \<Rightarrow> nat \<Rightarrow> nat" where
  "nib x j = take_bit 4 (drop_bit (4 * j) (unat x))"

lemma nib_less [simp]: "nib x j < 16"
  using take_bit_nat_less_exp [of 4 "drop_bit (4 * j) (unat x)"] by (simp add: nib_def)

lemma bit_nib: "bit (nib x j) m \<longleftrightarrow> m < 4 \<and> bit x (4 * j + m)"
  by (auto simp: nib_def bit_take_bit_iff bit_drop_bit_eq bit_unsigned_iff bit_imp_le_length)

lemma nib_eq_iff: "nib x i = nib y j \<longleftrightarrow> (\<forall>m<4. bit x (4 * i + m) = bit y (4 * j + m))"
  by (auto simp: bit_eq_iff bit_nib)

lemma nib_eq_nat: "nib x j = n \<longleftrightarrow> (\<forall>m. bit n m \<longleftrightarrow> m < 4 \<and> bit x (4 * j + m))"
  by (auto simp: bit_eq_iff bit_nib)

lemma nib_0_iff: "nib x j = 0 \<longleftrightarrow> (\<forall>m<4. \<not> bit x (4 * j + m))"
  by (auto simp: bit_eq_iff bit_nib)

lemma nib_high [simp]: "16 \<le> j \<Longrightarrow> nib x j = 0"
  by (auto simp: nib_0_iff bit_word.rep_eq) 

lemma nib_0 [simp]: "nib 0 j = 0"
  by (simp add: nib_def)

lemma word_eq_nibI:
  assumes "\<And>j. j < 16 \<Longrightarrow> nib x j = nib y j"
  shows "x = y"
proof (rule bit_word_eqI)
  fix n assume "n < LENGTH(64)"
  then have j: "n div 4 < 16" by simp
  have n: "4 * (n div 4) + n mod 4 = n" by simp
  from assms [OF j] show "bit x n = bit y n"
    by (metis n nib_eq_iff mod_less_divisor zero_less_numeral)
qed

lemma nib_or: "nib (x OR y) j = nib x j OR nib y j"
  by (auto simp: bit_eq_iff bit_nib bit_or_iff)

lemma nib_or1 [simp]: "nib y j = 0 \<Longrightarrow> nib (x OR y) j = nib x j"
  and nib_or2 [simp]: "nib x j = 0 \<Longrightarrow> nib (x OR y) j = nib y j"
  by (simp_all add: nib_or)

lemma nib_and_mask: "nib (x AND mask (4 * k)) j = (if j < k then nib x j else 0)"
proof (cases "j < k")
  case True
  then have "4 * j + m < 4 * k" if "m < 4" for m using that by arith
  with True show ?thesis by (auto simp: nib_eq_iff bit_and_iff bit_mask_iff dest: bit_imp_le_length)
qed (auto simp: nib_0_iff bit_and_iff bit_mask_iff)

lemma nib_and_not_mask: "nib (x AND NOT (mask (4 * k))) j = (if j < k then 0 else nib x j)"
proof (cases "j < k")
  case True
  then have "4 * j + m < 4 * k" if "m < 4" for m using that by arith
  with True show ?thesis by (auto simp: nib_0_iff bit_and_iff bit_mask_iff bit_not_iff dest: bit_imp_le_length)
qed (auto simp: nib_eq_iff bit_and_iff bit_mask_iff bit_not_iff dest: bit_imp_le_length)

lemma nib_push_bit: "nib (push_bit (4 * k) x) j = (if k \<le> j \<and> j < 16 then nib x (j - k) else 0)"
proof (cases "k \<le> j \<and> j < 16")
  case True
  then have "4 * k \<le> 4 * j + m" "4 * j + m - 4 * k = 4 * (j - k) + m" for m by arith+
  moreover have "4 * j + m < 64" if "m < 4" for m using that True by arith
  ultimately show ?thesis using True by (auto simp: nib_eq_iff bit_push_bit_iff)
next
  case False
  show ?thesis
  proof (cases "j < 16")
    case True
    with False have "4 * j + m < 4 * k" if "m < 4" for m using that by arith
    then show ?thesis using False by (auto simp: nib_0_iff bit_push_bit_iff)
  qed (use False in simp)
qed

lemma nib_drop_bit: "nib (drop_bit (4 * k) x) j = nib x (j + k)"
  by (simp add: nib_eq_iff bit_drop_bit_eq algebra_simps)

lemma nib_arith: "nib x j = unat x div 16 ^ j mod 16"
  by (simp add: nib_def take_bit_eq_mod drop_bit_eq_div power_mult)

lemma nib_of_nat: "n < 16 \<Longrightarrow> nib (of_nat n) j = (if j = 0 then n else 0)"
proof -
  assume n: "n < 16"
  then have u: "unat (of_nat n :: u64) = n" by (simp add: unat_of_nat)
  show ?thesis
  proof (cases j)
    case 0
    with n u show ?thesis by (simp add: nib_arith)
  next
    case (Suc k)
    have "(16::nat) \<le> 16 ^ j" using Suc by simp
    with n have "n div 16 ^ j = 0" by (simp add: div_less)
    with u Suc show ?thesis by (simp only: nib_arith) simp
  qed
qed

lemma nib_add_1:
  assumes "nib x 0 < 15"
  shows "nib (x + 1) j = (if j = 0 then nib x 0 + 1 else nib x j)"
proof -
  from assms have m: "unat x mod 16 < 15" by (simp add: nib_arith)
  have "unat x < 2 ^ 64" using unsigned_less [of x] by (simp del: unsigned_less)
  moreover have "unat x \<noteq> 2 ^ 64 - 1" using m by auto
  ultimately have "unat x + unat (1::u64) < 2 ^ LENGTH(64)" by simp
  then have u: "unat (x + 1) = Suc (unat x)" by (simp only: unat_add_lem) simp
  have m1: "Suc (unat x) mod 16 = Suc (unat x mod 16)" using m by (simp add: mod_Suc)
  show ?thesis
  proof (cases j)
    case 0
    with m1 u show ?thesis by (simp add: nib_arith)
  next
    case (Suc k)
    have "Suc (unat x) div 16 = unat x div 16" using m1 by (simp add: div_Suc)
    then have "Suc (unat x) div 16 ^ j = unat x div 16 ^ j"
      by (metis Suc div_mult2_eq power_Suc)
    with Suc u show ?thesis by (simp only: nib_arith) simp
  qed
qed

lemma nib_sub_1:
  assumes "0 < nib x 0"
  shows "nib (x - 1) j = (if j = 0 then nib x 0 - 1 else nib x j)"
proof -
  have "nib (x - 1) 0 < 15"
  proof -
    from assms have m: "0 < unat x mod 16" by (simp add: nib_arith)
    then have "x \<noteq> 0" by auto
    then have "unat (x - 1) = unat x - 1" by (simp add: unat_minus_one)
    moreover have "(unat x - 1) mod 16 < 15" using m
      by (cases "unat x") (auto simp: mod_Suc split: if_splits)
    ultimately show ?thesis by (simp add: nib_arith)
  qed
  from nib_add_1 [OF this, of j] nib_add_1 [OF this, of 0] show ?thesis by simp
qed

lemma nib_and: "nib (x AND y) j = nib x j AND nib y j"
  and nib_xor: "nib (x XOR y) j = nib x j XOR nib y j"
  by (auto simp: bit_eq_iff bit_nib bit_and_iff bit_xor_iff)

lemma nib_mask: "nib (mask (4 * k)) j = (if j < k \<and> j < 16 then 15 else 0)"
proof -
  have "(15::nat) = mask 4" by (simp add: mask_eq_exp_minus_1)
  moreover have "4 * j + m < 4 * k \<longleftrightarrow> j < k" and "4 * j + m < 64 \<longleftrightarrow> j < 16" if "m < 4" for m
    using that by arith+
  ultimately show ?thesis
    by (simp only: ) (auto simp: bit_eq_iff bit_nib bit_mask_iff)
qed

lemma nib_mask_4: "nib (mask (4 * k + 4)) j = (if j \<le> k \<and> j < 16 then 15 else 0)"
  and nib_mask_8: "nib (mask (4 * k + 8)) j = (if j \<le> Suc k \<and> j < 16 then 15 else 0)"
  using nib_mask [of "Suc k" j] nib_mask [of "Suc (Suc k)" j] by (simp_all add: add.commute less_Suc_eq_le)

lemma nib_not: "nib (NOT x) j = (if j < 16 then 15 XOR nib x j else 0)"
proof -
  have "(15::nat) = mask 4" by (simp add: mask_eq_exp_minus_1)
  moreover have "4 * j + m < 64 \<longleftrightarrow> j < 16" if "m < 4" for m
    using that by arith
  ultimately show ?thesis
    by (simp only: ) (auto simp: bit_eq_iff bit_nib bit_mask_iff bit_xor_iff bit_not_iff)
qed

lemma nat_and_15 [simp]: "n AND 15 = n" "15 AND n = n" if "n < 16" for n :: nat
proof -
  have "n AND mask 4 = n" using that by (simp flip: take_bit_eq_mask add: take_bit_eq_mod)
  then show "n AND 15 = n" by (simp add: mask_eq_exp_minus_1)
  then show "15 AND n = n" by (simp add: and.commute)
qed

lemma nat_xor_and_15 [simp]: "(nib x i XOR nib y j) AND 15 = nib x i XOR nib y j"
proof -
  have "(a XOR b) AND 15 = (a AND 15) XOR (b AND 15)" for a b :: nat
    by (auto simp: bit_eq_iff bit_and_iff bit_xor_iff)
  then show ?thesis by simp
qed

lemma xor_cancel [simp]: "a XOR (a XOR b) = b" "a XOR (b XOR a) = b" for a b :: nat
  by (auto simp: bit_eq_iff bit_xor_iff)

lemma nib_push_bit_4: "nib (push_bit (4 * k + 4) x) j = (if Suc k \<le> j \<and> j < 16 then nib x (j - Suc k) else 0)"
  using nib_push_bit [of "Suc k" x j] by (simp add: add.commute)

lemma nib_push_bit_one: "nib (push_bit 4 x) j = (if 1 \<le> j \<and> j < 16 then nib x (j - 1) else 0)"
  using nib_push_bit [of 1 x j] by simp

lemma nib_drop_bit_one: "nib (drop_bit 4 x) j = nib x (j + 1)"
  using nib_drop_bit [of 1 x j] by simp

lemma nib_of_nat_nib [simp]: "nib (of_nat (nib x i)) j = (if j = 0 then nib x i else 0)"
  by (simp add: nib_of_nat)

lemma nib_240: "nib 240 j = (if j = 1 then 15 else 0)"
  using nib_push_bit [of 1 15 j] nib_of_nat [of 15 "j - 1"] by auto

lemma nib_minus_16: "nib (- 16) j = (if 0 < j \<and> j < 16 then 15 else 0)"
  using nib_not [of "mask 4" j] nib_mask [of 1 j] by (simp add: mask_eq_exp_minus_1 split: if_splits)

lemma nib_minus_1: "nib (- 1) j = (if j < 16 then 15 else 0)"
  using nib_not [of 0 j] by simp

lemmas nib_algebra = word_masks nib_and nib_or nib_xor nib_not nib_mask nib_mask_4 nib_mask_8
  nib_push_bit_4 nib_push_bit_one nib_drop_bit_one nib_push_bit nib_drop_bit nib_240 nib_minus_16 nib_minus_1

end
