(* ===== verification/Kpermuter.thy ===== *)
theory Kpermuter
  imports Nibbles
begin

text \<open>
  \<open>kpermuter<width>\<close> of \<open>kpermuter.hh\<close>, in its 64-bit instance (widths 8 to 15, the leaf
  widths of the tree: \<open>KEY_LW\<close> is 14, or 15 when every durability feature is disabled).
  A permuter packs into one word the number of keys of a leaf (low four bits) and a
  permutation of the leaf's slots: the first \<open>size\<close> entries are the slots in key order,
  the rest is the free list. Each operation is the source's expression on the word;
  \<open>slots\<close> reads the word as a list, and the lemmas \<open>slots_...\<close> refine the bit twiddling
  to list operations. The locale \<open>slot_permuter\<close> is the contract the leaf relies on.
\<close>

section \<open>The operations\<close>

definition initial_value :: u64 where
  "initial_value = 0x0123456789ABCDE0"

definition full_value :: u64 where
  "full_value = 0xEDCBA98765432100"

definition max_width :: nat where
  "max_width = 15"

definition make_empty :: "nat \<Rightarrow> u64" where
  "make_empty width = drop_bit (4 * (max_width - width)) initial_value AND NOT 15"

definition make_sorted :: "nat \<Rightarrow> nat \<Rightarrow> u64" where
  "make_sorted width n =
     (let msk = (if n = width then 0 else push_bit (4 * n) 16) - 1
      in push_bit (4 * n) (make_empty width) OR (full_value AND msk) OR of_nat n)"

definition kp_size :: "u64 \<Rightarrow> nat" where
  "kp_size x = unat (x AND 15)"

definition kp_at :: "u64 \<Rightarrow> nat \<Rightarrow> nat" where
  "kp_at x i = unat (drop_bit (4 * i + 4) x AND 15)"

definition kp_back :: "nat \<Rightarrow> u64 \<Rightarrow> nat" where
  "kp_back width x = kp_at x (width - 1)"

definition value_from :: "u64 \<Rightarrow> nat \<Rightarrow> u64" where
  "value_from x i = drop_bit (4 * (i + 1)) x"

definition set_size :: "u64 \<Rightarrow> nat \<Rightarrow> u64" where
  "set_size x n = (x AND NOT 15) OR of_nat n"

definition insert_from_back :: "nat \<Rightarrow> nat \<Rightarrow> u64 \<Rightarrow> nat \<times> u64" where
  "insert_from_back width i x =
     (let value = kp_back width x
      in (value,
          ((x + 1) AND (push_bit (4 * i) 16 - 1))
          OR push_bit (4 * i + 4) (of_nat value)
          OR (push_bit 4 x AND NOT (push_bit (4 * i) 256 - 1))))"

definition insert_selected :: "nat \<Rightarrow> nat \<Rightarrow> u64 \<Rightarrow> u64" where
  "insert_selected di si x =
     (let value = kp_at x si;
          msk = push_bit (4 * si) 256 - 1
      in ((x + 1) AND (push_bit (4 * di) 16 - 1))
         OR push_bit (4 * di + 4) (of_nat value)
         OR ((push_bit 4 x AND msk) AND NOT (push_bit (4 * di) 256 - 1))
         OR (x AND NOT msk))"

definition kp_remove :: "nat \<Rightarrow> u64 \<Rightarrow> u64" where
  "kp_remove i x =
     (if kp_size x = i + 1 then x - 1
      else let rot_amount = 4 * (kp_size x - i - 1);
               rot_mask = push_bit (4 * (i + 1)) (push_bit rot_amount 16 - 1)
           in ((x - 1) AND NOT rot_mask)
              OR (drop_bit 4 (x AND rot_mask) AND rot_mask)
              OR (push_bit rot_amount (x AND rot_mask) AND rot_mask))"

definition remove_to_back :: "nat \<Rightarrow> nat \<Rightarrow> u64 \<Rightarrow> u64" where
  "remove_to_back width i x0 =
     (let msk = NOT (push_bit (4 * i) 16 - 1);
          x = x0 AND (push_bit (4 * width) 16 - 1)
      in ((x - 1) AND NOT msk)
         OR (drop_bit 4 x AND msk)
         OR push_bit (4 * (width - i - 1)) (x AND msk))"

definition kp_rotate :: "nat \<Rightarrow> nat \<Rightarrow> nat \<Rightarrow> u64 \<Rightarrow> u64" where
  "kp_rotate width i j x0 =
     (let msk = (if i = width then 0 else push_bit (4 * i) 16) - 1;
          x = x0 AND (push_bit (4 * width) 16 - 1)
      in (x AND msk)
         OR (drop_bit (4 * (j - i)) x AND NOT msk)
         OR push_bit (4 * (width - j)) (x AND NOT msk))"

definition exchange :: "nat \<Rightarrow> nat \<Rightarrow> u64 \<Rightarrow> u64" where
  "exchange i j x =
     (let diff = (drop_bit (4 * i) x XOR drop_bit (4 * j) x) AND 240
      in x XOR (push_bit (4 * i) diff OR push_bit (4 * j) diff))"

fun exchange_values_loop :: "nat \<Rightarrow> nat \<Rightarrow> nat \<Rightarrow> nat \<Rightarrow> u64 \<Rightarrow> u64 \<Rightarrow> u64" where
  "exchange_values_loop width 0 a b diff p = diff"
| "exchange_values_loop width (Suc k) a b diff p =
     (let v = unat (drop_bit (4 * width) p AND 15);
          diff' = diff XOR (if v = a \<or> v = b then of_nat a XOR of_nat b else 0)
      in exchange_values_loop width k a b (push_bit 4 diff') (push_bit 4 p))"

definition exchange_values :: "nat \<Rightarrow> nat \<Rightarrow> nat \<Rightarrow> u64 \<Rightarrow> u64" where
  "exchange_values width a b x = x XOR exchange_values_loop width width a b 0 x"

definition slot_char :: "nat \<Rightarrow> char" where
  "slot_char d = (if d < 10 then char_of (48 + d) else char_of (97 + d - 10))"

fun unparse_loop :: "nat \<Rightarrow> nat \<Rightarrow> nat \<Rightarrow> u64 \<Rightarrow> u64 \<Rightarrow> string \<times> u64" where
  "unparse_loop n i 0 p seen = ((if i = n then '':'' else []), seen)"
| "unparse_loop n i (Suc k) p seen =
     (let d = unat (p AND 15);
          (s, seen') = unparse_loop n (Suc i) k (drop_bit 4 p) (seen OR push_bit d 1)
      in ((if i = n then '':'' else []) @ slot_char d # s, seen'))"

definition unparse :: "nat \<Rightarrow> u64 \<Rightarrow> string" where
  "unparse width x =
     (let (s, seen) = unparse_loop (unat (x AND 15)) 0 width (drop_bit 4 x) 0
      in s @ (if seen \<noteq> push_bit width 1 - 1 then ''?!'' else []))"

section \<open>Reading the word as a list of slots\<close>

definition slots :: "nat \<Rightarrow> u64 \<Rightarrow> nat list" where
  "slots width x = map (kp_at x) [0..<width]"

definition kp_wf :: "nat \<Rightarrow> u64 \<Rightarrow> bool" where
  "kp_wf width x \<longleftrightarrow> kp_size x \<le> width \<and> mset (slots width x) = mset [0..<width]"

definition active :: "nat \<Rightarrow> u64 \<Rightarrow> nat list" where
  "active width x = take (kp_size x) (slots width x)"

definition free_slots :: "nat \<Rightarrow> u64 \<Rightarrow> nat list" where
  "free_slots width x = drop (kp_size x) (slots width x)"

section \<open>Digit by digit\<close>

lemma kp_size_nib: "kp_size x = nib x 0"
  by (simp add: kp_size_def nib_def numeral_15_mask flip: take_bit_eq_mask) (simp add: unsigned_take_bit_eq)

lemma kp_at_nib: "kp_at x i = nib x (i + 1)"
  by (rule bit_eqI) (auto simp: bit_nib kp_at_def numeral_15_mask bit_unsigned_iff bit_and_iff bit_mask_iff
      bit_drop_bit_eq algebra_simps dest: bit_imp_le_length)

lemma nib_initial_value: "nib initial_value j = (if 1 \<le> j \<and> j \<le> 15 then 15 - j else 0)"
proof (cases "j < 16")
  case True
  then have "j \<in> {0,1,2,3,4,5,6,7,8,9,10,11,12,13,14,15}" by (simp, arith)
  then show ?thesis by (auto simp: nib_arith initial_value_def)
qed auto

lemma nib_full_value: "nib full_value j = (if 1 \<le> j \<and> j \<le> 15 then j - 1 else 0)"
proof (cases "j < 16")
  case True
  then have "j \<in> {0,1,2,3,4,5,6,7,8,9,10,11,12,13,14,15}" by (simp, arith)
  then show ?thesis by (auto simp: nib_arith full_value_def)
qed auto

lemma nib_make_empty:
  assumes "width \<le> 15"
  shows "nib (make_empty width) j = (if 1 \<le> j \<and> j \<le> width then width - j else 0)"
proof -
  have "nib (make_empty width) j = (if j = 0 then 0 else nib (drop_bit (4 * (15 - width)) initial_value) j)"
    by (simp add: make_empty_def max_width_def nib_and nib_minus_16)
  with assms show ?thesis by (auto simp: nib_drop_bit nib_initial_value)
qed

lemma nib_make_sorted:
  assumes "n \<le> width" "width \<le> 15" "j \<le> width"
  shows "nib (make_sorted width n) j =
     (if j = 0 then n else if j \<le> n then j - 1 else width - (j - n))"
proof (cases "n = width")
  case True
  with assms show ?thesis
    by (auto simp: make_sorted_def nib_algebra nib_make_empty nib_full_value nib_of_nat Let_def)
next
  case False
  have m: "nib (full_value AND mask (4 * n + 4)) j = (if j \<le> n then nib full_value j else 0)"
    using assms by (auto simp: nib_and nib_mask_4)
  from False assms show ?thesis
    by (auto simp: make_sorted_def nib_or m push_bit_16_minus_1 nib_push_bit nib_make_empty nib_full_value nib_of_nat Let_def)
qed

lemma nib_insert_from_back:
  assumes "nib x 0 < 15" "i < 15" "j < 16"
  shows "nib (snd (insert_from_back width i x)) j =
     (if j = 0 then nib x 0 + 1 else if j \<le> i then nib x j
      else if j = Suc i then kp_back width x else nib x (j - 1))"
  using assms
  by (auto simp: insert_from_back_def nib_algebra nib_add_1 kp_at_nib kp_back_def Let_def)

lemma nib_insert_selected:
  assumes "nib x 0 < 15" "di \<le> si" "si < 15" "j < 16"
  shows "nib (insert_selected di si x) j =
     (if j = 0 then nib x 0 + 1 else if j \<le> di then nib x j
      else if j = Suc di then nib x (Suc si) else if j \<le> Suc si then nib x (j - 1) else nib x j)"
  using assms
  by (auto simp: insert_selected_def nib_algebra nib_add_1 kp_at_nib Let_def)

lemma nib_kp_remove:
  assumes "i < nib x 0" "j < 16"
  shows "nib (kp_remove i x) j =
     (if j = 0 then nib x 0 - 1 else if j \<le> i then nib x j
      else if j < nib x 0 then nib x (j + 1) else if j = nib x 0 then nib x (i + 1) else nib x j)"
proof (cases "nib x 0 = i + 1")
  case True
  with assms show ?thesis by (auto simp: kp_remove_def kp_size_nib nib_sub_1)
next
  case False
  have n: "nib x 0 < 16" by simp
  define rm :: u64 where "rm = push_bit (4 * (i + 1)) (mask (4 * (nib x 0 - Suc i) + 4))"
  have rm: "nib rm k = (if i + 1 \<le> k \<and> k \<le> nib x 0 then 15 else 0)" for k
    using assms n le_less_trans [OF _ n, of k]
    by (auto simp: rm_def nib_push_bit nib_mask_4 simp del: mult_Suc_right)
  have e: "kp_remove i x = ((x - 1) AND NOT rm) OR (drop_bit 4 (x AND rm) AND rm)
      OR (push_bit (4 * (nib x 0 - i - 1)) (x AND rm) AND rm)"
    unfolding kp_remove_def kp_size_nib rm_def Let_def using False by (simp only: push_bit_16_minus_1) simp
  have "nib x 0 - Suc 0 < 16" using n by linarith
  then show ?thesis
    unfolding e using False assms n
    by (auto simp: nib_and nib_or nib_not nib_push_bit nib_drop_bit_one rm nib_sub_1)
qed

lemma nib_remove_to_back:
  assumes "0 < nib x 0" "i < width" "width \<le> 15" "j \<le> width"
  shows "nib (remove_to_back width i x) j =
     (if j = 0 then nib x 0 - 1 else if j \<le> i then nib x j
      else if j < width then nib x (j + 1) else nib x (i + 1))"
proof -
  define y where "y = x AND mask (4 * width + 4)"
  have y: "nib y k = (if k \<le> width then nib x k else 0)" for k
    using assms by (auto simp: y_def nib_and nib_mask_4)
  moreover have "nib x 0 - Suc 0 < 16" using nib_less [of x 0] by linarith
  ultimately show ?thesis using assms
    by (auto simp: remove_to_back_def push_bit_16_minus_1 nib_algebra nib_sub_1 Let_def simp flip: y_def)
qed

lemma nib_kp_rotate:
  assumes "i \<le> k" "k \<le> width" "width \<le> 15" "j \<le> width"
  shows "nib (kp_rotate width i k x) j =
     (if j \<le> i then nib x j
      else if j \<le> width - (k - i) then nib x (j + (k - i)) else nib x (j - (width - k)))"
proof -
  define y where "y = x AND mask (4 * width + 4)"
  have y: "nib y k = (if k \<le> width then nib x k else 0)" for k
    using assms by (auto simp: y_def nib_and nib_mask_4)
  with assms show ?thesis
    by (auto simp: kp_rotate_def push_bit_16_minus_1 nib_algebra Let_def simp flip: y_def)
qed

lemma nib_exchange:
  assumes "i < 15" "k < 15" "j < 16"
  shows "nib (exchange i k x) j =
     (if j = i + 1 then nib x (k + 1) else if j = k + 1 then nib x (i + 1) else nib x j)"
  using assms
  by (auto simp: exchange_def nib_algebra Let_def)

lemma nib_exchange_values_loop:
  assumes "k \<le> width" "width \<le> 15" "nib diff 0 = 0" "a < 16" "b < 16" "j < 16"
  shows "nib (exchange_values_loop width k a b diff (push_bit (4 * (width - k)) x)) j =
     (if j = 0 then 0 else if j \<le> k then (if nib x j = a \<or> nib x j = b then a XOR b else 0)
      else nib diff (j - k))"
  using assms
proof (induction k arbitrary: diff j)
  case 0
  then show ?case by simp
next
  case (Suc k)
  let ?v = "nib x (Suc k)"
  define c :: u64 where "c = (if ?v = a \<or> ?v = b then of_nat a XOR of_nat b else 0)"
  have c: "nib c m = (if m = 0 \<and> (?v = a \<or> ?v = b) then a XOR b else 0)" for m
    using Suc.prems by (simp add: c_def nib_xor nib_of_nat)
  have p: "push_bit 4 (push_bit (4 * (width - Suc k)) x) = push_bit (4 * (width - k)) x"
    using Suc.prems by (simp add: algebra_simps Suc_diff_Suc)
  have v: "unat (drop_bit (4 * width) (push_bit (4 * (width - Suc k)) x) AND 15) = ?v"
    unfolding kp_size_def [symmetric] kp_size_nib using Suc.prems by (simp add: nib_algebra)
  have "exchange_values_loop width (Suc k) a b diff (push_bit (4 * (width - Suc k)) x)
      = exchange_values_loop width k a b (push_bit 4 (diff XOR c)) (push_bit (4 * (width - k)) x)"
    by (simp only: exchange_values_loop.simps v p Let_def c_def)
  then show ?case
    using Suc.prems Suc.IH [of "push_bit 4 (diff XOR c)" j]
    by (auto simp: nib_algebra c le_Suc_eq)
qed

lemma nib_exchange_values:
  assumes "width \<le> 15" "a < 16" "b < 16" "1 \<le> j" "j \<le> width"
  shows "nib (exchange_values width a b x) j =
     (if nib x j = a then b else if nib x j = b then a else nib x j)"
  using assms nib_exchange_values_loop [of width width 0 a b j x]
  by (auto simp: exchange_values_def nib_xor)


lemma length_slots [simp]: "length (slots width x) = width"
  by (simp add: slots_def)

lemma slots_nth [simp]: "i < width \<Longrightarrow> slots width x ! i = nib x (Suc i)"
  by (simp add: slots_def kp_at_nib)

lemma kp_back_slots: "0 < width \<Longrightarrow> kp_back width x = last (slots width x)"
  by (simp add: kp_back_def last_conv_nth slots_def)

lemma slots_make_empty: "width \<le> 15 \<Longrightarrow> slots width (make_empty width) = rev [0..<width]"
  by (rule nth_equalityI) (auto simp: nib_make_empty rev_nth)

lemma slots_make_sorted:
  "n \<le> width \<Longrightarrow> width \<le> 15 \<Longrightarrow> slots width (make_sorted width n) = [0..<n] @ rev [n..<width]"
  by (rule nth_equalityI) (auto simp: nib_make_sorted nth_append rev_nth)

lemma slots_insert_from_back:
  assumes "kp_size x < width" "i \<le> kp_size x" "width \<le> 15"
  shows "slots width (snd (insert_from_back width i x)) =
     take i (slots width x) @ last (slots width x) # drop i (butlast (slots width x))"
proof (rule nth_equalityI)
  fix j assume "j < length (slots width (snd (insert_from_back width i x)))"
  then have "j < width" by simp
  with assms show "slots width (snd (insert_from_back width i x)) ! j =
    (take i (slots width x) @ last (slots width x) # drop i (butlast (slots width x))) ! j"
    by (auto simp: kp_size_nib nib_insert_from_back kp_back_slots nth_append nth_Cons' nth_butlast)
qed (use assms in simp)

lemma slots_insert_selected:
  assumes "kp_size x < width" "di \<le> kp_size x" "kp_size x \<le> si" "si < width" "width \<le> 15"
  shows "slots width (insert_selected di si x) =
     take di (slots width x) @ slots width x ! si # drop di (take si (slots width x)) @ drop (Suc si) (slots width x)"
proof (rule nth_equalityI)
  fix j assume "j < length (slots width (insert_selected di si x))"
  then have "j < width" by simp
  with assms show "slots width (insert_selected di si x) ! j =
    (take di (slots width x) @ slots width x ! si # drop di (take si (slots width x)) @ drop (Suc si) (slots width x)) ! j"
    by (auto simp: kp_size_nib nib_insert_selected nth_append nth_Cons' min_def)
qed (use assms in simp)

lemma slots_kp_remove:
  assumes "i < kp_size x" "kp_size x \<le> width" "width \<le> 15"
  shows "slots width (kp_remove i x) =
     take i (slots width x) @ drop (Suc i) (take (kp_size x) (slots width x))
       @ slots width x ! i # drop (kp_size x) (slots width x)"
proof (rule nth_equalityI)
  fix j assume "j < length (slots width (kp_remove i x))"
  then have "j < width" by simp
  with assms show "slots width (kp_remove i x) ! j =
    (take i (slots width x) @ drop (Suc i) (take (kp_size x) (slots width x))
       @ slots width x ! i # drop (kp_size x) (slots width x)) ! j"
    by (auto simp: kp_size_nib nib_kp_remove nth_append nth_Cons' min_def)
qed (use assms in simp)

lemma slots_remove_to_back:
  assumes "i < width" "0 < kp_size x" "width \<le> 15"
  shows "slots width (remove_to_back width i x) =
     take i (slots width x) @ drop (Suc i) (slots width x) @ [slots width x ! i]"
proof (rule nth_equalityI)
  fix j assume "j < length (slots width (remove_to_back width i x))"
  then have "j < width" by simp
  with assms show "slots width (remove_to_back width i x) ! j =
    (take i (slots width x) @ drop (Suc i) (slots width x) @ [slots width x ! i]) ! j"
    by (auto simp: kp_size_nib nib_remove_to_back nth_append nth_Cons' min_def)
qed (use assms in simp)

lemma slots_kp_rotate:
  assumes "i \<le> j" "j \<le> width" "width \<le> 15"
  shows "slots width (kp_rotate width i j x) =
     take i (slots width x) @ drop j (slots width x) @ drop i (take j (slots width x))"
proof (rule nth_equalityI)
  fix k assume "k < length (slots width (kp_rotate width i j x))"
  then have "k < width" by simp
  with assms show "slots width (kp_rotate width i j x) ! k =
    (take i (slots width x) @ drop j (slots width x) @ drop i (take j (slots width x))) ! k"
    by (auto simp: nib_kp_rotate nth_append min_def Suc_diff_le add.commute)
qed (use assms in simp)

lemma slots_exchange:
  assumes "i < width" "j < width" "width \<le> 15"
  shows "slots width (exchange i j x) = (slots width x)[i := slots width x ! j, j := slots width x ! i]"
  using assms by (intro nth_equalityI) (auto simp: nib_exchange nth_list_update)

lemma slots_exchange_values:
  assumes "a < 16" "b < 16" "width \<le> 15"
  shows "slots width (exchange_values width a b x) = map (\<lambda>v. if v = a then b else if v = b then a else v) (slots width x)"
  using assms by (intro nth_equalityI) (auto simp: nib_exchange_values)


lemma kp_size_ops [simp]:
  shows "width \<le> 15 \<Longrightarrow> kp_size (make_empty width) = 0"
    and "n \<le> width \<Longrightarrow> width \<le> 15 \<Longrightarrow> kp_size (make_sorted width n) = n"
    and "kp_size x < 15 \<Longrightarrow> i < 15 \<Longrightarrow> kp_size (snd (insert_from_back width i x)) = Suc (kp_size x)"
    and "kp_size x < 15 \<Longrightarrow> di \<le> si \<Longrightarrow> si < 15 \<Longrightarrow> kp_size (insert_selected di si x) = Suc (kp_size x)"
    and "i < kp_size x \<Longrightarrow> kp_size (kp_remove i x) = kp_size x - 1"
    and "0 < kp_size x \<Longrightarrow> i < width \<Longrightarrow> width \<le> 15 \<Longrightarrow> kp_size (remove_to_back width i x) = kp_size x - 1"
    and "i \<le> j \<Longrightarrow> j \<le> width \<Longrightarrow> width \<le> 15 \<Longrightarrow> kp_size (kp_rotate width i j x) = kp_size x"
    and "i < 15 \<Longrightarrow> j < 15 \<Longrightarrow> kp_size (exchange i j x) = kp_size x"
    and "a < 16 \<Longrightarrow> b < 16 \<Longrightarrow> width \<le> 15 \<Longrightarrow> kp_size (exchange_values width a b x) = kp_size x"
    and "n < 16 \<Longrightarrow> kp_size (set_size x n) = n"
  by (simp_all add: kp_size_nib nib_make_empty nib_make_sorted nib_insert_from_back nib_insert_selected
      nib_kp_remove nib_remove_to_back nib_kp_rotate nib_exchange exchange_values_def nib_xor set_size_def
      nib_exchange_values_loop [where k = width and width = width and x = x and diff = 0 for width x, simplified]
      nib_or nib_and nib_minus_16 nib_of_nat)

lemma slots_set_size: "n < 16 \<Longrightarrow> slots width (set_size x n) = slots width x"
  by (rule nth_equalityI) (auto simp: set_size_def nib_or nib_and nib_minus_16 nib_of_nat)

section \<open>The invariant\<close>

lemma kp_wf_make:
  assumes "width \<le> 15"
  shows "kp_wf width (make_empty width)"
    and "n \<le> width \<Longrightarrow> kp_wf width (make_sorted width n)"
proof -
  have "mset [0..<n] + mset [n..<width] = mset [0..<width]" if "n \<le> width"
    using that by (metis le0 le_add_diff_inverse mset_append upt_add_eq_append)
  then show "n \<le> width \<Longrightarrow> kp_wf width (make_sorted width n)"
    using assms by (simp add: kp_wf_def slots_make_sorted)
qed (use assms in \<open>simp add: kp_wf_def slots_make_empty\<close>)

lemma kp_wf_insert_from_back:
  assumes "kp_wf width x" "kp_size x < width" "i \<le> kp_size x" "width \<le> 15"
  shows "kp_wf width (snd (insert_from_back width i x))"
proof -
  have "slots width x \<noteq> []" using assms by (metis length_0_conv length_slots not_less0)
  then show ?thesis using assms mset_insert_last [of "slots width x" i]
    by (auto simp: kp_wf_def slots_insert_from_back)
qed

lemma kp_wf_insert_selected:
  assumes "kp_wf width x" "di \<le> kp_size x" "kp_size x \<le> si" "si < width" "width \<le> 15"
  shows "kp_wf width (insert_selected di si x)"
  using assms mset_move_down [of di si "slots width x"]
  by (auto simp: kp_wf_def slots_insert_selected)

lemma kp_wf_kp_remove:
  assumes "kp_wf width x" "i < kp_size x" "width \<le> 15"
  shows "kp_wf width (kp_remove i x)"
  using assms mset_move_up [of i "kp_size x" "slots width x"]
  by (auto simp: kp_wf_def slots_kp_remove)

lemma kp_wf_remove_to_back:
  assumes "kp_wf width x" "i < kp_size x" "width \<le> 15"
  shows "kp_wf width (remove_to_back width i x)"
  using assms mset_move_up [of i width "slots width x"]
  by (auto simp: kp_wf_def slots_remove_to_back)

lemma kp_wf_kp_rotate:
  assumes "kp_wf width x" "i \<le> j" "j \<le> width" "width \<le> 15"
  shows "kp_wf width (kp_rotate width i j x)"
  using assms mset_rotate_tail [of i j "slots width x"]
  by (auto simp: kp_wf_def slots_kp_rotate)

lemma kp_wf_exchange:
  assumes "kp_wf width x" "i < width" "j < width" "width \<le> 15"
  shows "kp_wf width (exchange i j x)"
  using assms mset_swap [of j "slots width x" i]
  by (auto simp: kp_wf_def slots_exchange)

lemma kp_wf_exchange_values:
  assumes "kp_wf width x" "a < width" "b < width" "width \<le> 15"
  shows "kp_wf width (exchange_values width a b x)"
  using assms mset_map_transposition [of "slots width x" width a b]
  by (auto simp: kp_wf_def slots_exchange_values simp del: mset_map)

lemma kp_wf_set_size:
  assumes "kp_wf width x" "n \<le> width" "width \<le> 15"
  shows "kp_wf width (set_size x n)"
  using assms by (simp add: kp_wf_def slots_set_size)

lemmas kp_wf_ops = kp_wf_make kp_wf_insert_from_back kp_wf_insert_selected kp_wf_kp_remove
  kp_wf_remove_to_back kp_wf_kp_rotate kp_wf_exchange kp_wf_exchange_values kp_wf_set_size

lemma distinct_slots: "kp_wf width x \<Longrightarrow> distinct (slots width x)"
  by (metis distinct_upt kp_wf_def mset_eq_imp_distinct_iff)

lemma set_slots: "kp_wf width x \<Longrightarrow> set (slots width x) = {0..<width}"
  by (metis kp_wf_def mset_eq_setD set_upt)

section \<open>The contract of a slot permuter\<close>

text \<open>
  What the leaf needs of a permuter: a well-formed value lists every slot once, split at
  \<open>size\<close> into active and free slots; an insertion takes the last free slot and puts it at
  a chosen key position; a removal hands the slot back to the front of the free list.
\<close>

locale slot_permuter =
  fixes width :: nat
    and wf :: "'p \<Rightarrow> bool"
    and psize :: "'p \<Rightarrow> nat"
    and pslots :: "'p \<Rightarrow> nat list"
    and ins :: "nat \<Rightarrow> 'p \<Rightarrow> nat \<times> 'p"
    and rem :: "nat \<Rightarrow> 'p \<Rightarrow> 'p"
  assumes wf_slots: "wf p \<Longrightarrow> psize p \<le> width \<and> distinct (pslots p) \<and> set (pslots p) = {0..<width}"
    and wf_ins: "wf p \<Longrightarrow> psize p < width \<Longrightarrow> i \<le> psize p \<Longrightarrow> wf (snd (ins i p))"
    and wf_rem: "wf p \<Longrightarrow> i < psize p \<Longrightarrow> wf (rem i p)"
    and ins_value: "wf p \<Longrightarrow> psize p < width \<Longrightarrow> i \<le> psize p \<Longrightarrow> fst (ins i p) = last (pslots p)"
    and ins_slots: "wf p \<Longrightarrow> psize p < width \<Longrightarrow> i \<le> psize p \<Longrightarrow>
      pslots (snd (ins i p)) = take i (pslots p) @ last (pslots p) # drop i (butlast (pslots p))
      \<and> psize (snd (ins i p)) = Suc (psize p)"
    and rem_slots: "wf p \<Longrightarrow> i < psize p \<Longrightarrow>
      pslots (rem i p) = take i (pslots p) @ drop (Suc i) (take (psize p) (pslots p))
        @ pslots p ! i # drop (psize p) (pslots p)
      \<and> psize (rem i p) = psize p - 1"
begin

lemma slots_length: "wf p \<Longrightarrow> length (pslots p) = width"
  using wf_slots [of p] distinct_card [of "pslots p"] by simp

lemma ins_active:
  assumes "wf p" "psize p < width" "i \<le> psize p"
  shows "take (psize (snd (ins i p))) (pslots (snd (ins i p)))
       = take i (take (psize p) (pslots p)) @ fst (ins i p) # drop i (take (psize p) (pslots p))"
    and "fst (ins i p) \<notin> set (take (psize p) (pslots p))"
    and "drop (psize (snd (ins i p))) (pslots (snd (ins i p))) = butlast (drop (psize p) (pslots p))"
proof -
  have l: "length (pslots p) = width" using assms slots_length by simp
  then have ne: "pslots p \<noteq> []" using assms by auto
  have t: "take (psize p) (butlast (pslots p)) = take (psize p) (pslots p)"
    using assms l by (simp add: take_butlast)
  have dt: "drop i (take (psize p) (pslots p)) = take (psize p - i) (drop i (butlast (pslots p)))"
    by (simp only: t [symmetric] drop_take)
  show "take (psize (snd (ins i p))) (pslots (snd (ins i p)))
       = take i (take (psize p) (pslots p)) @ fst (ins i p) # drop i (take (psize p) (pslots p))"
    unfolding dt using assms l by (simp add: ins_slots ins_value min_def Suc_diff_le)
  have "distinct (butlast (pslots p) @ [last (pslots p)])" using assms wf_slots ne by simp
  then have "last (pslots p) \<notin> set (butlast (pslots p))" by simp
  moreover have "set (take (psize p) (pslots p)) \<subseteq> set (butlast (pslots p))"
    by (metis t set_take_subset)
  ultimately show "fst (ins i p) \<notin> set (take (psize p) (pslots p))"
    using assms by (auto simp: ins_value)
  show "drop (psize (snd (ins i p))) (pslots (snd (ins i p))) = butlast (drop (psize p) (pslots p))"
    using assms l by (simp add: ins_slots min_def Suc_diff_le butlast_drop)
qed

lemma rem_active:
  assumes "wf p" "i < psize p"
  shows "take (psize (rem i p)) (pslots (rem i p))
       = take i (take (psize p) (pslots p)) @ drop (Suc i) (take (psize p) (pslots p))"
    and "drop (psize (rem i p)) (pslots (rem i p)) = pslots p ! i # drop (psize p) (pslots p)"
proof -
  have l: "length (pslots p) = width" "psize p \<le> width" using assms slots_length wf_slots by simp_all
  show "take (psize (rem i p)) (pslots (rem i p))
       = take i (take (psize p) (pslots p)) @ drop (Suc i) (take (psize p) (pslots p))"
    and "drop (psize (rem i p)) (pslots (rem i p)) = pslots p ! i # drop (psize p) (pslots p)"
    using assms l by (auto simp: rem_slots min_def intro: arg_cong [where f = "\<lambda>n. take n (pslots p)"])
qed

end

lemma kp_contract:
  assumes "0 < width" "width \<le> 15"
  shows "slot_permuter width (kp_wf width) kp_size (slots width) (insert_from_back width) kp_remove"
proof
  fix p i
  show "kp_wf width p \<Longrightarrow> kp_size p \<le> width \<and> distinct (slots width p) \<and> set (slots width p) = {0..<width}"
    by (simp add: distinct_slots set_slots) (simp add: kp_wf_def)
  show "kp_wf width p \<Longrightarrow> kp_size p < width \<Longrightarrow> i \<le> kp_size p \<Longrightarrow>
      fst (insert_from_back width i p) = last (slots width p)"
    using assms by (simp add: insert_from_back_def kp_back_slots Let_def)
  show "kp_wf width p \<Longrightarrow> i < kp_size p \<Longrightarrow>
      slots width (kp_remove i p) = take i (slots width p) @ drop (Suc i) (take (kp_size p) (slots width p))
        @ slots width p ! i # drop (kp_size p) (slots width p) \<and> kp_size (kp_remove i p) = kp_size p - 1"
    using assms by (simp add: slots_kp_remove kp_wf_def)
qed (use assms in \<open>simp_all add: kp_wf_ops slots_insert_from_back\<close>)

interpretation kp14: slot_permuter 14 "kp_wf 14" kp_size "slots 14" "insert_from_back 14" kp_remove
  by (rule kp_contract) simp_all

interpretation kp15: slot_permuter 15 "kp_wf 15" kp_size "slots 15" "insert_from_back 15" kp_remove
  by (rule kp_contract) simp_all

section \<open>Properties\<close>

lemma kp_at_slots: "j < width \<Longrightarrow> kp_at x j = slots width x ! j"
  by (simp add: slots_def)

lemma active_nth: "j < kp_size x \<Longrightarrow> j < width \<Longrightarrow> active width x ! j = kp_at x j"
  by (simp add: active_def kp_at_slots)

lemma kp_last_fresh:
  assumes "kp_wf width p" "kp_size p < width" "width \<le> 15" "j < kp_size p"
  shows "kp_at p j \<noteq> kp_back width p"
proof -
  have "slots width p ! j \<noteq> slots width p ! (width - 1)"
    using assms distinct_slots [of width p] by (subst nth_eq_iff_index_eq) auto
  then show ?thesis using assms by (simp add: kp_back_def kp_at_nib)
qed

text \<open>C8. \<open>insert_from_back\<close> meets its documented contract on every well-formed permuter with
  a free slot: the result is well formed, one larger, holds the newly allocated slot at
  position \<open>i\<close>, keeps the slots below \<open>i\<close>, shifts the slots from \<open>i\<close> up by one, and the
  allocated slot was in use by none of them.\<close>

theorem insert_from_back_contract:
  assumes wf: "kp_wf width p" and sz: "kp_size p < width" and w: "width \<le> 15"
    and i: "i \<le> kp_size p" and q: "insert_from_back width i p = (x, q)"
  shows "kp_wf width q \<and> kp_size q = kp_size p + 1 \<and> x < width
     \<and> kp_at q i = x
     \<and> (\<forall>j<i. kp_at q j = kp_at p j \<and> kp_at q j \<noteq> x)
     \<and> (\<forall>j. i < j \<and> j < kp_size q \<longrightarrow> kp_at q j = kp_at p (j - 1) \<and> kp_at q j \<noteq> x)"
proof -
  have x: "x = kp_back width p" and q': "q = snd (insert_from_back width i p)"
    using q by (auto simp: insert_from_back_def Let_def)
  have at: "kp_at q j = (if j < i then kp_at p j else if j = i then x else kp_at p (j - 1))" if "j < width" for j
    using sz w i that by (auto simp: q' x kp_at_nib nib_insert_from_back kp_size_nib)
  have "kp_at p (width - 1) \<in> set (slots width p)" using sz by (auto simp: slots_def)
  then have "x < width" using wf by (simp add: x kp_back_def set_slots)
  moreover have "kp_wf width q" "kp_size q = kp_size p + 1"
    using wf sz i w by (simp_all add: q' kp_wf_insert_from_back)
  moreover have fresh: "kp_at p j \<noteq> x" if "j < kp_size p" for j
    using kp_last_fresh [OF wf sz w that] by (simp add: x)
  moreover have "\<forall>j. i < j \<and> j < Suc (kp_size p) \<longrightarrow> kp_at p (j - Suc 0) \<noteq> x"
    by (intro allI impI fresh) linarith
  ultimately show ?thesis using sz i by (simp add: at)
qed

theorem insert_from_back_contract_witness:
  "kp_wf 14 (make_sorted 14 3) \<and>
   (\<exists>x q. insert_from_back 14 1 (make_sorted 14 3) = (x, q) \<and> kp_size q = 4 \<and> kp_at q 1 = x)"
proof -
  have "kp_wf 14 (make_sorted 14 3)" and "kp_size (make_sorted 14 3) = 3" by (simp_all add: kp_wf_make)
  moreover obtain x q where q: "insert_from_back 14 1 (make_sorted 14 3) = (x, q)" by fastforce
  ultimately show ?thesis
    using insert_from_back_contract [OF _ _ _ _ q] q by simp
qed

text \<open>
  \<open>remove\<close> meets its documented contract: the permuter shrinks by one, the slots
  below \<open>i\<close> stay, those above move down by one, the freed slot becomes the first free one,
  and every other free slot keeps its place.\<close>

theorem kp_remove_contract:
  assumes wf: "kp_wf width p" and i: "i < kp_size p" and w: "width \<le> 15"
  shows "kp_wf width (kp_remove i p) \<and> kp_size (kp_remove i p) = kp_size p - 1
     \<and> (\<forall>j<i. kp_at (kp_remove i p) j = kp_at p j)
     \<and> (\<forall>j. i \<le> j \<and> j < kp_size p - 1 \<longrightarrow> kp_at (kp_remove i p) j = kp_at p (j + 1))
     \<and> kp_at (kp_remove i p) (kp_size p - 1) = kp_at p i
     \<and> (\<forall>j. kp_size p \<le> j \<and> j < width \<longrightarrow> kp_at (kp_remove i p) j = kp_at p j)"
proof -
  have "kp_size p \<le> width" using wf by (simp add: kp_wf_def)
  then show ?thesis using i w
    by (auto simp: kp_wf_kp_remove [OF wf i w]) (auto simp: kp_at_nib nib_kp_remove kp_size_nib)
qed

theorem kp_remove_contract_witness:
  "kp_wf 14 (make_sorted 14 5) \<and> kp_size (kp_remove 2 (make_sorted 14 5)) = 4
   \<and> kp_at (kp_remove 2 (make_sorted 14 5)) 4 = kp_at (make_sorted 14 5) 2"
  using kp_remove_contract [of 14 "make_sorted 14 5" 2] by (simp add: kp_wf_make)



text \<open>
  \<open>rotate(i, j)\<close> rotates the slots from position \<open>i\<close> to the END of the permuter, free
  slots included: position \<open>k\<close> of the result is position \<open>i + (k - i + j - i) mod (width - i)\<close>
  of the argument; the size and the slots below \<open>i\<close> stay, and the result is well formed.\<close>

theorem kp_rotate_contract:
  assumes wf: "kp_wf width p" and ij: "i \<le> j" "j \<le> kp_size p" and w: "width \<le> 15"
  shows "kp_wf width (kp_rotate width i j p) \<and> kp_size (kp_rotate width i j p) = kp_size p
     \<and> (\<forall>k<i. kp_at (kp_rotate width i j p) k = kp_at p k)
     \<and> (\<forall>k. i \<le> k \<and> k < width \<longrightarrow>
          kp_at (kp_rotate width i j p) k = kp_at p (i + (k - i + (j - i)) mod (width - i)))"
proof -
  have jw: "j \<le> width" using ij wf by (simp add: kp_wf_def)
  have "kp_at (kp_rotate width i j p) k = kp_at p (i + (k - i + (j - i)) mod (width - i))"
    if k: "i \<le> k" "k < width" for k
  proof (cases "k - i + (j - i) < width - i")
    case True
    then show ?thesis using ij k jw w by (simp add: kp_at_nib nib_kp_rotate)
  next
    case False
    then have "(k - i + (j - i)) mod (width - i) = k - i + (j - i) - (width - i)"
      using k jw by (simp add: mod_if)
    moreover have "i + (k - i + (j - i) - (width - i)) = k - (width - j)" using False k ij jw by linarith
    moreover have "width - j \<le> k" using False k ij jw by linarith
    ultimately show ?thesis using False ij k jw w
      by (simp add: kp_at_nib nib_kp_rotate Suc_diff_le)
  qed
  then show ?thesis
    using ij jw w by (auto simp: kp_wf_kp_rotate [OF wf] kp_at_nib nib_kp_rotate)
qed

theorem kp_rotate_contract_witness:
  "kp_wf 14 (make_sorted 14 3) \<and> kp_at (kp_rotate 14 0 1 (make_sorted 14 3)) 2 = kp_at (make_sorted 14 3) 3"
  using kp_rotate_contract [of 14 "make_sorted 14 3" 0 1] by (simp add: kp_wf_make)

text \<open>The comment of \<open>rotate\<close> states the position modulo \<open>size() - i\<close>; on a permuter that is
  not full this is not what the code computes.\<close>

lemma kp_rotate_comment_wrong:
  "\<exists>p i j k. kp_wf 14 p \<and> i \<le> j \<and> j \<le> kp_size p \<and> i \<le> k \<and> k < kp_size p
     \<and> kp_at (kp_rotate 14 i j p) k \<noteq> kp_at p (i + (k - i + (j - i)) mod (kp_size p - i))"
proof -
  let ?p = "make_sorted 14 3"
  have "kp_wf 14 ?p" "kp_size ?p = 3" by (simp_all add: kp_wf_make)
  moreover have "kp_at (kp_rotate 14 0 1 ?p) 2 \<noteq> kp_at ?p (0 + (2 - 0 + (1 - 0)) mod (3 - 0))"
    by (simp add: kp_at_nib nib_kp_rotate nib_make_sorted)
  ultimately show ?thesis by (intro exI [of _ ?p] exI [of _ 0] exI [of _ 1] exI [of _ 2]) simp
qed

lemma unat_and_15: "unat (p AND 15) = nib p 0"
  using kp_size_nib [of p] by (simp add: kp_size_def)

lemma fst_unparse_loop_free:
  "n < i \<Longrightarrow> fst (unparse_loop n i k p seen) = map (\<lambda>j. slot_char (nib p j)) [0..<k]"
proof (induction k arbitrary: i p seen)
  case (Suc k)
  have "map (\<lambda>j. slot_char (nib p j)) [0..<Suc k]
      = slot_char (nib p 0) # map (\<lambda>j. slot_char (nib (drop_bit 4 p) j)) [0..<k]"
    by (simp add: map_upt_Suc nib_drop_bit_one del: upt_Suc)
  then show ?case using Suc
    by (simp add: split_beta unat_and_15 Let_def del: upt_Suc)
qed simp

lemma fst_unparse_loop:
  "i \<le> n \<Longrightarrow> n \<le> i + k \<Longrightarrow>
   fst (unparse_loop n i k p seen) =
     map (\<lambda>j. slot_char (nib p j)) [0..<n - i] @ CHR '':'' # map (\<lambda>j. slot_char (nib p j)) [n - i..<k]"
proof (induction k arbitrary: i p seen)
  case (Suc k)
  show ?case
  proof (cases "i = n")
    case True
    then show ?thesis using fst_unparse_loop_free [of n i "Suc k" p seen] fst_unparse_loop_free [of n "Suc i" k]
      by (simp add: split_beta unat_and_15 Let_def map_upt_Suc nib_drop_bit_one del: upt_Suc)
  next
    case False
    with Suc.prems obtain m where m: "n - i = Suc m" "n - Suc i = m" by (metis Suc_diff_Suc le_neq_implies_less)
    have "map (\<lambda>j. slot_char (nib p j)) [Suc m..<Suc k] = map (\<lambda>j. slot_char (nib (drop_bit 4 p) j)) [m..<k]"
      by (simp add: nib_drop_bit_one comp_def flip: map_Suc_upt del: upt_Suc)
    then show ?thesis using False Suc m
      by (simp add: split_beta unat_and_15 Let_def map_upt_Suc nib_drop_bit_one del: upt_Suc)
  qed
qed simp

lemma bit_snd_unparse_loop:
  "bit (snd (unparse_loop n i k p seen)) m \<longleftrightarrow> bit seen m \<or> m < 64 \<and> m \<in> nib p ` {0..<k}"
proof (induction k arbitrary: i p seen)
  case (Suc k)
  have "nib p ` {0..<Suc k} = insert (nib p 0) (nib (drop_bit 4 p) ` {0..<k})"
    by (simp add: atLeast0_lessThan_Suc_eq_insert_0 nib_drop_bit_one image_image flip: image_Suc_atLeastLessThan)
  then show ?case using Suc.IH
    by (auto simp: split_beta unat_and_15 Let_def bit_or_iff bit_exp_iff)
qed simp

text \<open>
  \<open>unparse\<close> prints a well-formed permuter exactly: the active slots in order, a colon,
  the free slots in order, one digit each, and never the marker \<open>?!\<close> that flags a word that
  is not a permutation.\<close>

theorem unparse_well_formed:
  assumes wf: "kp_wf width x" and w: "width \<le> 15"
  shows "unparse width x = map slot_char (active width x) @ CHR '':'' # map slot_char (free_slots width x)"
proof -
  let ?p = "drop_bit 4 x" and ?n = "nib x 0"
  have n: "?n \<le> width" using wf by (simp add: kp_wf_def kp_size_nib)
  have s: "slots width x = map (nib ?p) [0..<width]"
    by (rule nth_equalityI) (auto simp: nib_drop_bit_one)
  have "nib ?p ` {0..<width} = {0..<width}" using set_slots [OF wf] by (simp add: s)
  then have "snd (unparse_loop ?n 0 width ?p 0) = mask width"
    using w by (auto simp: bit_eq_iff bit_snd_unparse_loop bit_mask_iff)
  then have "unparse width x = fst (unparse_loop ?n 0 width ?p 0)"
    by (simp add: unparse_def split_beta unat_and_15 mask_eq_exp_minus_1 push_bit_eq_mult)
  also have "\<dots> = map slot_char (take ?n (slots width x)) @ CHR '':'' # map slot_char (drop ?n (slots width x))"
    using n by (simp add: fst_unparse_loop s take_map drop_map take_upt drop_upt comp_def)
  finally show ?thesis by (simp add: active_def free_slots_def kp_size_nib)
qed

theorem unparse_well_formed_witness:
  "kp_wf 14 (make_sorted 14 3) \<and> unparse 14 (make_sorted 14 3) = ''012:dcba9876543''"
proof -
  have "active 14 (make_sorted 14 3) = [0, 1, 2]" and
    "free_slots 14 (make_sorted 14 3) = [13, 12, 11, 10, 9, 8, 7, 6, 5, 4, 3]"
    by (simp_all add: active_def free_slots_def slots_make_sorted upt_conv_Cons)
  then show ?thesis
    using unparse_well_formed [of 14 "make_sorted 14 3"] by (simp add: kp_wf_make slot_char_def char_of_def bit_0)
qed

section \<open>Every permuter the operations build\<close>

inductive kp_built :: "nat \<Rightarrow> u64 \<Rightarrow> bool" for width where
  "kp_built width (make_empty width)"
| "n \<le> width \<Longrightarrow> kp_built width (make_sorted width n)"
| "kp_built width x \<Longrightarrow> kp_size x < width \<Longrightarrow> i \<le> kp_size x \<Longrightarrow> kp_built width (snd (insert_from_back width i x))"
| "kp_built width x \<Longrightarrow> di \<le> kp_size x \<Longrightarrow> kp_size x \<le> si \<Longrightarrow> si < width \<Longrightarrow> kp_built width (insert_selected di si x)"
| "kp_built width x \<Longrightarrow> i < kp_size x \<Longrightarrow> kp_built width (kp_remove i x)"
| "kp_built width x \<Longrightarrow> i < kp_size x \<Longrightarrow> kp_built width (remove_to_back width i x)"
| "kp_built width x \<Longrightarrow> i \<le> j \<Longrightarrow> j \<le> width \<Longrightarrow> kp_built width (kp_rotate width i j x)"
| "kp_built width x \<Longrightarrow> i < width \<Longrightarrow> j < width \<Longrightarrow> kp_built width (exchange i j x)"
| "kp_built width x \<Longrightarrow> a < width \<Longrightarrow> b < width \<Longrightarrow> kp_built width (exchange_values width a b x)"
| "kp_built width x \<Longrightarrow> n \<le> width \<Longrightarrow> kp_built width (set_size x n)"



end
