(* ===== verification/Nodeversion.thy ===== *)
theory Nodeversion
  imports Prelude
begin

text \<open>
  \<open>nodeversion<nodeversion_parameters<uint32_t> >\<close> of \<open>nodeversion.hh\<close>, the version word at
  the head of every node: a lock bit, the dirty bits \<open>inserting\<close> and \<open>splitting\<close>, an insert
  counter (bits 3 to 8) whose carry runs into the split counter (bits 9 to 27), and the
  bits \<open>deleted\<close>, \<open>root\<close> and \<open>isleaf\<close>.
\<close>

section \<open>Parameters\<close>

definition lock_bit :: u32 where "lock_bit = push_bit 0 1"
definition inserting_shift :: nat where "inserting_shift = 1"
definition inserting_bit :: u32 where "inserting_bit = push_bit 1 1"
definition splitting_bit :: u32 where "splitting_bit = push_bit 2 1"
definition dirty_mask :: u32 where "dirty_mask = inserting_bit OR splitting_bit"
definition vinsert_lowbit :: u32 where "vinsert_lowbit = push_bit 3 1"
definition vsplit_lowbit :: u32 where "vsplit_lowbit = push_bit 9 1"
definition unused1_bit :: u32 where "unused1_bit = push_bit 28 1"
definition deleted_bit :: u32 where "deleted_bit = push_bit 29 1"
definition root_bit :: u32 where "root_bit = push_bit 30 1"
definition isleaf_bit :: u32 where "isleaf_bit = push_bit 31 1"
definition split_unlock_mask :: u32 where
  "split_unlock_mask = NOT (root_bit OR unused1_bit OR (vsplit_lowbit - 1))"
definition unlock_mask :: u32 where
  "unlock_mask = NOT (unused1_bit OR (vinsert_lowbit - 1))"
definition version_counter_mask :: u32 where
  "version_counter_mask = NOT 0x3FFFFFFF"

section \<open>Operations\<close>

definition nodeversion :: "bool \<Rightarrow> u32" where
  "nodeversion isleaf = (if isleaf then isleaf_bit else 0)"

definition isleaf :: "u32 \<Rightarrow> bool" where "isleaf v \<longleftrightarrow> v AND isleaf_bit \<noteq> 0"
definition locked :: "u32 \<Rightarrow> bool" where "locked v \<longleftrightarrow> v AND lock_bit \<noteq> 0"
definition inserting :: "u32 \<Rightarrow> bool" where "inserting v \<longleftrightarrow> v AND inserting_bit \<noteq> 0"
definition splitting :: "u32 \<Rightarrow> bool" where "splitting v \<longleftrightarrow> v AND splitting_bit \<noteq> 0"
definition deleted :: "u32 \<Rightarrow> bool" where "deleted v \<longleftrightarrow> v AND deleted_bit \<noteq> 0"
definition is_root :: "u32 \<Rightarrow> bool" where "is_root v \<longleftrightarrow> v AND root_bit \<noteq> 0"
definition dirty :: "u32 \<Rightarrow> bool" where "dirty v \<longleftrightarrow> v AND dirty_mask \<noteq> 0"

definition has_changed :: "u32 \<Rightarrow> u32 \<Rightarrow> bool" where
  "has_changed v x \<longleftrightarrow> lock_bit < (x XOR v)"

definition has_split :: "u32 \<Rightarrow> u32 \<Rightarrow> bool" where
  "has_split v x \<longleftrightarrow> vsplit_lowbit \<le> (x XOR v)"

definition unlock :: "u32 \<Rightarrow> u32" where
  "unlock x =
     (if x AND splitting_bit \<noteq> 0 then (x + vsplit_lowbit) AND split_unlock_mask
      else (x + push_bit 2 (x AND inserting_bit)) AND unlock_mask)"

definition mark_insert :: "u32 \<Rightarrow> u32" where "mark_insert v = v OR inserting_bit"
definition mark_split :: "u32 \<Rightarrow> u32" where "mark_split v = v OR splitting_bit"
definition mark_change :: "bool \<Rightarrow> u32 \<Rightarrow> u32" where
  "mark_change is_split v = v OR push_bit inserting_shift (of_bool is_split + 1)"
definition mark_deleted :: "u32 \<Rightarrow> u32" where
  "mark_deleted v = v OR (deleted_bit OR splitting_bit)"
definition mark_deleted_tree :: "u32 \<Rightarrow> u32" where "mark_deleted_tree v = v OR deleted_bit"
definition mark_root :: "u32 \<Rightarrow> u32" where "mark_root v = v OR root_bit"
definition mark_nonroot :: "u32 \<Rightarrow> u32" where "mark_nonroot v = v AND NOT root_bit"
definition clear_unlock :: "u32 \<Rightarrow> u32" where "clear_unlock v = v AND NOT lock_bit"
definition clear_insert :: "u32 \<Rightarrow> u32" where "clear_insert v = v AND NOT inserting_bit"
definition clear_version_counter_bits :: "u32 \<Rightarrow> u32" where
  "clear_version_counter_bits v = v AND version_counter_mask"
definition unlocked_version_value :: "u32 \<Rightarrow> u32" where
  "unlocked_version_value v = v AND unlock_mask"

section \<open>Bits\<close>

named_theorems nv_bits "bits of the version word's masks"

lemma word_nonzero_iff_bit: "w \<noteq> 0 \<longleftrightarrow> (\<exists>m. bit w m)" for w :: "'a::len word"
  using bit_eq_iff [of w 0] by (auto dest: bit_imp_le_length)

lemma and_exp_nonzero: "v AND push_bit n 1 \<noteq> (0 :: u32) \<longleftrightarrow> bit v n"
  by (auto simp: word_nonzero_iff_bit bit_and_iff bit_exp_iff push_bit_of_1 dest: bit_imp_le_length)

lemma nv_tests [nv_bits]:
  "isleaf v \<longleftrightarrow> bit v 31" "locked v \<longleftrightarrow> bit v 0" "inserting v \<longleftrightarrow> bit v 1" "splitting v \<longleftrightarrow> bit v 2"
  "deleted v \<longleftrightarrow> bit v 29" "is_root v \<longleftrightarrow> bit v 30"
  by (simp_all only: isleaf_def locked_def inserting_def splitting_def deleted_def is_root_def isleaf_bit_def
      lock_bit_def inserting_bit_def splitting_bit_def deleted_bit_def root_bit_def and_exp_nonzero)

lemma bit_push_bit_1 [nv_bits]: "bit (push_bit k 1 :: u32) n \<longleftrightarrow> n = k \<and> k < 32"
  by (simp only: push_bit_of_1 bit_exp_iff) auto

lemma bit_consts [nv_bits]:
  "bit lock_bit n \<longleftrightarrow> n = 0" "bit inserting_bit n \<longleftrightarrow> n = 1" "bit splitting_bit n \<longleftrightarrow> n = 2"
  "bit deleted_bit n \<longleftrightarrow> n = 29" "bit root_bit n \<longleftrightarrow> n = 30"
  "bit isleaf_bit n \<longleftrightarrow> n = 31" "bit unused1_bit n \<longleftrightarrow> n = 28"
  "bit vinsert_lowbit n \<longleftrightarrow> n = 3" "bit vsplit_lowbit n \<longleftrightarrow> n = 9"
  by (simp_all only: lock_bit_def inserting_bit_def splitting_bit_def deleted_bit_def root_bit_def
      isleaf_bit_def unused1_bit_def vinsert_lowbit_def vsplit_lowbit_def bit_push_bit_1) simp_all

lemma bit_dirty_mask [nv_bits]: "bit dirty_mask n \<longleftrightarrow> n = 1 \<or> n = 2"
  by (simp add: dirty_mask_def bit_or_iff bit_consts)

lemma low_masks: "vinsert_lowbit - 1 = mask 3" "vsplit_lowbit - 1 = mask 9" "(0x3FFFFFFF :: u32) = mask 30"
  by (simp_all add: vinsert_lowbit_def vsplit_lowbit_def mask_eq_exp_minus_1)

lemma bit_masks [nv_bits]:
  "bit unlock_mask n \<longleftrightarrow> 3 \<le> n \<and> n < 32 \<and> n \<noteq> 28"
  "bit split_unlock_mask n \<longleftrightarrow> 9 \<le> n \<and> n < 32 \<and> n \<noteq> 28 \<and> n \<noteq> 30"
  "bit version_counter_mask n \<longleftrightarrow> n = 30 \<or> n = 31"
  unfolding unlock_mask_def split_unlock_mask_def version_counter_mask_def low_masks
  by (auto simp only: bit_not_iff bit_or_iff bit_and_iff bit_consts bit_mask_iff de_Morgan_disj len_num1 possible_bit_word) auto

lemma dirty_iff [nv_bits]: "dirty v \<longleftrightarrow> bit v 1 \<or> bit v 2"
  by (auto simp: dirty_def word_nonzero_iff_bit bit_and_iff bit_dirty_mask)

lemma word_less_exp_iff: "(w :: u32) < push_bit n 1 \<longleftrightarrow> (\<forall>m\<ge>n. \<not> bit w m)" if "n < 32"
proof -
  have "unat (push_bit n 1 :: u32) = 2 ^ n" using that by (intro unat_push_bit_1) simp
  then have "w < push_bit n 1 \<longleftrightarrow> take_bit n (unat w) = unat w"
    by (simp only: word_less_nat_alt take_bit_nat_eq_self_iff)
  also have "\<dots> \<longleftrightarrow> (\<forall>m\<ge>n. \<not> bit w m)"
  proof
    assume "take_bit n (unat w) = unat w"
    then have "bit (take_bit n (unat w)) m = bit (unat w) m" for m by (simp only:)
    then show "\<forall>m\<ge>n. \<not> bit w m" by (simp add: bit_take_bit_iff bit_unsigned_iff not_less) (meson leD)
  next
    assume "\<forall>m\<ge>n. \<not> bit w m"
    then show "take_bit n (unat w) = unat w"
      by (intro bit_eqI) (simp only: bit_take_bit_iff bit_unsigned_iff, meson not_less)
  qed
  finally show ?thesis .
qed

lemma has_changed_iff: "has_changed v x \<longleftrightarrow> (\<exists>m\<ge>1. bit v m \<noteq> bit x m)"
proof -
  have "lock_bit < w \<longleftrightarrow> \<not> w < push_bit 1 1" for w :: u32
    unfolding lock_bit_def by (simp add: word_less_nat_alt) linarith
  then have "has_changed v x \<longleftrightarrow> \<not> (x XOR v) < push_bit 1 1" by (simp only: has_changed_def)
  also have "\<dots> \<longleftrightarrow> (\<exists>m\<ge>1. bit v m \<noteq> bit x m)"
    by (subst word_less_exp_iff) (simp, auto simp: bit_xor_iff)
  finally show ?thesis .
qed

lemma has_split_iff: "has_split v x \<longleftrightarrow> (\<exists>m\<ge>9. bit v m \<noteq> bit x m)"
proof -
  have "has_split v x \<longleftrightarrow> \<not> (x XOR v) < push_bit 9 1"
    by (simp only: has_split_def vsplit_lowbit_def not_less)
  also have "\<dots> \<longleftrightarrow> (\<exists>m\<ge>9. bit v m \<noteq> bit x m)"
    by (subst word_less_exp_iff) (simp, auto simp: bit_xor_iff)
  finally show ?thesis .
qed

lemma bit_mark_change [nv_bits]:
  "bit (mark_change b v) n \<longleftrightarrow> bit v n \<or> n = (if b then 2 else 1)"
proof -
  have "push_bit inserting_shift (of_bool b + 1) = (push_bit (if b then 2 else 1) 1 :: u32)"
    by (simp add: inserting_shift_def push_bit_eq_mult)
  then show ?thesis unfolding mark_change_def by (simp only: bit_or_iff bit_push_bit_1) auto
qed

lemmas nv_ops = mark_insert_def mark_split_def mark_deleted_def mark_deleted_tree_def mark_root_def
  mark_nonroot_def clear_unlock_def clear_insert_def clear_version_counter_bits_def
  unlocked_version_value_def bit_and_iff bit_or_iff bit_not_iff

section \<open>The change counter\<close>

text \<open>
  Bits 3 to 27 read as one 25-bit number: an insert adds one to it (the carry of the
  six insert bits runs into the split counter), a split moves it to the next multiple
  of 64.  \<open>next_insert\<close> and \<open>next_split\<close> are these moves on an unbounded number.
\<close>

definition vcount :: "u32 \<Rightarrow> nat" where
  "vcount v = take_bit 25 (drop_bit 3 (unat v))"

definition next_split :: "nat \<Rightarrow> nat" where
  "next_split c = (c div 64 + 1) * 64"

lemma vcount_arith: "vcount v = unat v div 8 mod 2 ^ 25"
  by (simp add: vcount_def take_bit_eq_mod drop_bit_eq_div)

lemma bit_vcount: "bit (vcount v) n \<longleftrightarrow> n < 25 \<and> bit v (3 + n)"
  by (auto simp: vcount_def bit_take_bit_iff bit_drop_bit_eq bit_unsigned_iff)

lemma vcount_eq_iff: "vcount v = vcount w \<longleftrightarrow> (\<forall>m. 3 \<le> m \<and> m < 28 \<longrightarrow> bit v m = bit w m)"
proof
  assume eq: "vcount v = vcount w"
  show "\<forall>m. 3 \<le> m \<and> m < 28 \<longrightarrow> bit v m = bit w m"
  proof (intro allI impI)
    fix m :: nat assume "3 \<le> m \<and> m < 28"
    then obtain n where "m = 3 + n" "n < 25" 
      using that [of "m - 3"] by linarith
    then show "bit v m = bit w m" using bit_vcount [of v n] bit_vcount [of w n] eq by simp
  qed
next
  assume "\<forall>m. 3 \<le> m \<and> m < 28 \<longrightarrow> bit v m = bit w m"
  then show "vcount v = vcount w" by (intro bit_eqI) (auto simp: bit_vcount)
qed

lemma vcount_mask:
  "vcount (w AND unlock_mask) = vcount w"
  "vcount (w AND split_unlock_mask) = vcount w div 64 * 64"
proof -
  show "vcount (w AND unlock_mask) = vcount w" by (simp add: vcount_eq_iff bit_and_iff bit_masks)
  have "vcount (w AND split_unlock_mask) = push_bit 6 (drop_bit 6 (vcount w))"
    by (intro bit_eqI) (auto simp: bit_vcount bit_push_bit_iff bit_drop_bit_eq bit_and_iff bit_masks)
  then show "vcount (w AND split_unlock_mask) = vcount w div 64 * 64"
    by (simp add: push_bit_eq_mult drop_bit_eq_div)
qed

lemma vcount_add: "vcount (x + push_bit (3 + n) 1) = (vcount x + 2 ^ n) mod 2 ^ 25" if "n < 29" for x :: u32
proof -
  let ?k = "2 ^ n :: nat"
  have k: "unat (push_bit (3 + n) 1 :: u32) = 8 * ?k"
    using unat_push_bit_1 [of "3 + n", where 'a = 32] that by (simp add: power_add del: push_bit_of_1)
  have "unat (x + push_bit (3 + n) 1) = (unat x + 8 * ?k) mod 2 ^ 32"
    by (simp only: unat_word_ariths k len_num1) simp
  then have "vcount (x + push_bit (3 + n) 1) = take_bit 25 (drop_bit 3 (take_bit 32 (unat x + 8 * ?k)))"
    by (simp only: vcount_def take_bit_eq_mod)
  also have "\<dots> = take_bit 25 (drop_bit 3 (unat x + 8 * ?k))"
    by (simp add: drop_bit_take_bit)
  also have "\<dots> = (unat x div 8 + ?k) mod 2 ^ 25"
    by (simp add: take_bit_eq_mod drop_bit_eq_div add.commute)
  also have "\<dots> = (vcount x + ?k) mod 2 ^ 25"
    by (simp only: vcount_arith mod_add_left_eq)
  finally show ?thesis .
qed

lemma rem_bound: "x = b * q + r \<Longrightarrow> r < h \<Longrightarrow> p \<le> h \<Longrightarrow> b = 2 * h \<Longrightarrow> x + p < b * q + b" for x :: nat
  by linarith

lemma high_bits_add:
  assumes "\<not> bit x 28" "k \<le> 28" "29 \<le> m"
  shows "bit (x + push_bit k 1) m = bit (x :: u32) m"
proof -
  have k: "unat (push_bit k 1 :: u32) = 2 ^ k" using assms by (intro unat_push_bit_1) simp
  have le: "(2 :: nat) ^ k \<le> 2 ^ 28" using assms by (intro power_increasing) simp_all
  have "take_bit 29 (unat x) = take_bit 28 (unat x)"
    using assms(1) by (intro bit_eqI) (auto simp: bit_take_bit_iff bit_unsigned_iff less_Suc_eq numeral_eq_Suc)
  then have low: "unat x mod 2 ^ 29 < 2 ^ 28" by (simp add: take_bit_eq_mod)
  have hi: "unat x div 2 ^ 29 < 8" using unsigned_less [of x, where 'a = nat] 
    by (intro less_mult_imp_div_less) simp
  have split: "unat x = 2 ^ 29 * (unat x div 2 ^ 29) + unat x mod 2 ^ 29" by simp
  have sum: "unat x + 2 ^ k < 2 ^ 29 * (unat x div 2 ^ 29) + 2 ^ 29"
    using split low le by (rule rem_bound) simp
  have "2 ^ 29 * (unat x div 2 ^ 29) + 2 ^ 29 \<le> (2 :: nat) ^ 32" using hi by simp
  with sum have "unat x + 2 ^ k < 2 ^ 32" by (rule less_le_trans)
  then have u: "unat (x + push_bit k 1) = unat x + 2 ^ k"
    by (simp only: unat_word_ariths k len_num1) simp
  have "(unat x + 2 ^ k) div 2 ^ 29 = unat x div 2 ^ 29"
    using sum split by (intro div_nat_eqI) (simp_all add: mult.commute)
  then have "drop_bit 29 (unat (x + push_bit k 1)) = drop_bit 29 (unat x)"
    by (simp only: u drop_bit_eq_div)
  then have "bit (unat (x + push_bit k 1)) (29 + (m - 29)) = bit (unat x) (29 + (m - 29))"
    by (metis bit_drop_bit_eq comp_apply)
  then show ?thesis using assms(3) by (simp add: bit_unsigned_iff del: push_bit_of_1)
qed

lemma unlock_split: "bit x 2 \<Longrightarrow> unlock x = (x + push_bit 9 1) AND split_unlock_mask"
  unfolding unlock_def by (simp only: splitting_bit_def vsplit_lowbit_def and_exp_nonzero if_True)

lemma unlock_insert: "\<not> bit x 2 \<Longrightarrow> bit x 1 \<Longrightarrow> unlock x = (x + push_bit 3 1) AND unlock_mask"
proof -
  assume "\<not> bit x 2" "bit x 1"
  moreover from \<open>bit x 1\<close> have "push_bit 2 (x AND inserting_bit) = push_bit 3 1"
    by (intro bit_eqI) (auto simp: bit_push_bit_iff bit_and_iff bit_consts bit_1_iff simp del: push_bit_of_1)
  ultimately show ?thesis unfolding unlock_def by (simp only: splitting_bit_def and_exp_nonzero if_False)
qed

lemma unlock_plain: "\<not> bit x 2 \<Longrightarrow> \<not> bit x 1 \<Longrightarrow> unlock x = x AND unlock_mask"
proof -
  assume "\<not> bit x 2" "\<not> bit x 1"
  moreover from \<open>\<not> bit x 1\<close> have "push_bit 2 (x AND inserting_bit) = 0"
    by (intro bit_eqI) (auto simp: bit_push_bit_iff bit_and_iff bit_consts)
  ultimately show ?thesis unfolding unlock_def by (simp only: splitting_bit_def and_exp_nonzero if_False add_0_right)
qed

lemma mod_div_64: "a mod 2 ^ 25 div 64 * 64 = (a div 64 * 64) mod 2 ^ 25" for a :: nat
proof -
  have "push_bit 6 (drop_bit 6 (take_bit 25 a)) = take_bit 25 (push_bit 6 (drop_bit 6 a))"
    by (intro bit_eqI) (auto simp: bit_push_bit_iff bit_drop_bit_eq bit_take_bit_iff)
  then show ?thesis by (simp add: push_bit_eq_mult drop_bit_eq_div take_bit_eq_mod)
qed

lemma vcount_unlock:
  "vcount (unlock x) =
     (if splitting x then next_split (vcount x) else if inserting x then vcount x + 1 else vcount x) mod 2 ^ 25"
proof -
  have lt: "vcount x < 2 ^ 25" by (simp add: vcount_arith)
  consider "bit x 2" | "\<not> bit x 2" "bit x 1" | "\<not> bit x 2" "\<not> bit x 1" by blast
  then show ?thesis
  proof cases
    case 1
    have "(vcount x + 2 ^ 6) mod 2 ^ 25 div 64 * 64 = next_split (vcount x) mod 2 ^ 25"
      using div_add_self2 [of 64 "vcount x"] by (simp only: mod_div_64 next_split_def) simp
    then show ?thesis using 1 vcount_add [of 6 x]
      by (simp add: unlock_split vcount_mask nv_tests del: push_bit_of_1 mult_mod_left)
  next
    case 2
    then show ?thesis using vcount_add [of 0 x]
      by (simp add: unlock_insert vcount_mask nv_tests del: push_bit_of_1)
  next
    case 3
    then show ?thesis using lt by (simp add: unlock_plain vcount_mask nv_tests)
  qed
qed

lemma unlock_flags:
  assumes "\<not> bit x 28"
  shows "bit (unlock x) 31 = bit x 31" "bit (unlock x) 29 = bit x 29"
    "bit (unlock x) 30 = (bit x 30 \<and> \<not> bit x 2)"
    "\<not> bit (unlock x) 0" "\<not> bit (unlock x) 1" "\<not> bit (unlock x) 2" "\<not> bit (unlock x) 28"
proof -
  consider "bit x 2" | "\<not> bit x 2" "bit x 1" | "\<not> bit x 2" "\<not> bit x 1" by blast
  then have "bit (unlock x) 31 = bit x 31 \<and> bit (unlock x) 29 = bit x 29 \<and>
    bit (unlock x) 30 = (bit x 30 \<and> \<not> bit x 2) \<and>
    \<not> bit (unlock x) 0 \<and> \<not> bit (unlock x) 1 \<and> \<not> bit (unlock x) 2 \<and> \<not> bit (unlock x) 28"
    by cases (simp_all add: unlock_split unlock_insert unlock_plain bit_and_iff bit_masks
        high_bits_add [OF assms] assms del: push_bit_of_1)
  then show "bit (unlock x) 31 = bit x 31" "bit (unlock x) 29 = bit x 29"
    "bit (unlock x) 30 = (bit x 30 \<and> \<not> bit x 2)"
    "\<not> bit (unlock x) 0" "\<not> bit (unlock x) 1" "\<not> bit (unlock x) 2" "\<not> bit (unlock x) 28"
    by blast+
qed

section \<open>Insert cycles\<close>

definition quiescent :: "u32 \<Rightarrow> bool" where
  "quiescent v \<longleftrightarrow> \<not> bit v 0 \<and> \<not> bit v 1 \<and> \<not> bit v 2 \<and> \<not> bit v 28"

definition insert_cycle :: "u32 \<Rightarrow> u32" where
  "insert_cycle v = unlock (mark_insert (v OR lock_bit))"

lemma bits_below_32: "m < 32 \<Longrightarrow> m \<in> {0, 1, 2, 28, 29, 30, 31} \<or> 3 \<le> m \<and> m < 28" for m :: nat
  by auto

lemma word_eq_by_fields:
  assumes "vcount v = vcount w" "\<forall>m \<in> {0, 1, 2, 28, 29, 30, 31}. bit v m = bit w m"
  shows "v = w"
proof (rule bit_word_eqI)
  fix n assume "n < LENGTH(32)"
  then show "bit v n = bit w n" using bits_below_32 [of n] assms by (auto simp: vcount_eq_iff)
qed

lemma insert_cycle_quiescent:
  assumes "quiescent v"
  shows "quiescent (insert_cycle v)" "vcount (insert_cycle v) = (vcount v + 1) mod 2 ^ 25"
    "29 \<le> m \<Longrightarrow> bit (insert_cycle v) m = bit v m"
proof -
  let ?x = "mark_insert (v OR lock_bit)"
  have b: "\<not> bit ?x 28" "\<not> bit ?x 2" "bit ?x 1" "29 \<le> m \<Longrightarrow> bit ?x m = bit v m"
    using assms by (auto simp: quiescent_def nv_ops nv_bits)
  have "vcount ?x = vcount v" by (auto simp: vcount_eq_iff nv_ops nv_bits)
  then show "quiescent (insert_cycle v)" "vcount (insert_cycle v) = (vcount v + 1) mod 2 ^ 25"
    using b unlock_flags [of ?x] vcount_unlock [of ?x]
    by (auto simp: insert_cycle_def quiescent_def nv_tests)
  assume "29 \<le> m"
  then consider "m = 29" | "m = 30" | "m = 31" | "32 \<le> m" by linarith
  then show "bit (insert_cycle v) m = bit v m"
    using unlock_flags [OF b(1)] b(2,4) \<open>29 \<le> m\<close>
    by cases (auto simp: insert_cycle_def dest: bit_imp_le_length)
qed

lemma insert_cycles_quiescent:
  assumes "quiescent v"
  shows "quiescent ((insert_cycle ^^ n) v) \<and> vcount ((insert_cycle ^^ n) v) = (vcount v + n) mod 2 ^ 25
    \<and> (\<forall>m\<ge>29. bit ((insert_cycle ^^ n) v) m = bit v m)"
proof (induction n)
  case 0
  then show ?case using assms by (simp add: vcount_arith)
next
  case (Suc n)
  then show ?case
    using insert_cycle_quiescent [of "(insert_cycle ^^ n) v"] by (simp add: mod_Suc_eq)
qed

lemma not_changed_iff_eq:
  "quiescent v \<Longrightarrow> quiescent w \<Longrightarrow> has_changed v w \<longleftrightarrow> v \<noteq> w"
proof -
  assume q: "quiescent v" "quiescent w"
  have "\<not> has_changed v w \<Longrightarrow> v = w"
  proof (rule bit_word_eqI)
    fix n assume "\<not> has_changed v w" "n < LENGTH(32)"
    then show "bit v n = bit w n"
      using q by (cases "n = 0") (simp_all add: has_changed_iff quiescent_def)
  qed
  then show ?thesis by (auto simp: has_changed_iff)
qed

lemma mod_shift_eq: "(c + n) mod k = c \<longleftrightarrow> k dvd n" if "c < k" for c n k :: nat
proof -
  have "(c + n) mod k = c \<longleftrightarrow> (c + n) mod k = (c + 0) mod k" using that by simp
  also have "\<dots> \<longleftrightarrow> n mod k = 0" by (metis mod_0 mod_add_right_eq nat_mod_eq_iff add_left_cancel mod_add_cong mod_less that mod_mod_trivial add_diff_cancel_left' mod_eq_dvd_iff_nat le_add1 dvd_imp_mod_0 add.right_neutral mod_0_imp_dvd)
  finally show ?thesis by (simp add: dvd_eq_mod_eq_0)
qed

text \<open>
  C7.  The version check of a lock-free reader against wrap-around: after \<open>n\<close> complete
  insert cycles (lock, \<open>mark_insert\<close>, \<open>unlock\<close>) of a quiescent node, \<open>has_changed\<close>
  against the word read before them reports the change unless \<open>n\<close> is a multiple of
  \<open>2 ^ 25\<close>: the insert and split counters together act as one 25-bit counter.
\<close>

theorem has_changed_insert_cycles:
  assumes "quiescent v"
  shows "has_changed ((insert_cycle ^^ n) v) v \<longleftrightarrow> \<not> 2 ^ 25 dvd n"
proof -
  let ?w = "(insert_cycle ^^ n) v"
  note w = insert_cycles_quiescent [OF assms, of n]
  have lt: "vcount v < 2 ^ 25" by (simp add: vcount_arith)
  have "?w = v \<longleftrightarrow> vcount ?w = vcount v"
    using w assms by (auto simp: quiescent_def intro!: word_eq_by_fields)
  also have "\<dots> \<longleftrightarrow> 2 ^ 25 dvd n" using w mod_shift_eq [OF lt, of n] by simp
  finally show ?thesis using not_changed_iff_eq w assms by blast
qed

lemma quiescent_new: "quiescent (nodeversion b)"
  by (simp add: quiescent_def nodeversion_def nv_bits)

theorem has_changed_insert_cycles_witness:
  "has_changed ((insert_cycle ^^ 3) (nodeversion True)) (nodeversion True)"
  using has_changed_insert_cycles [OF quiescent_new, of 3 True] by (simp add: nat_dvd_not_less)

section \<open>Threads on one node\<close>

text \<open>
  The node as threads see it.  \<open>word\<close> is the shared version word; each thread is idle,
  inside \<open>lock\<close> (about to compare-and-swap against \<open>expected\<close>, or about to reload it),
  the holder of the lock, inside \<open>stable\<close> with the value it last read, or past \<open>stable\<close>.
  \<open>contents\<close> and \<open>bounds\<close> stand for what the node stores under the protocol: contents
  are written only while the word is marked dirty, the key range of the node only while
  it is marked splitting.  \<open>changes\<close> counts completed changes without wrap-around; it
  and the values of contents and bounds at the moment a reader read the word are history
  variables that no step's guard looks at.
\<close>

record snapshot =
  s_changes :: nat
  s_contents :: nat
  s_bounds :: nat

datatype phase =
    Idle
  | Locking u32
  | Reloading
  | Holding
  | Reading u32 snapshot
  | Stable u32 snapshot

datatype mark = MarkInsert | MarkSplit | MarkChange bool | MarkDeleted | MarkDeletedTree | MarkRoot | MarkNonroot

fun apply_mark :: "mark \<Rightarrow> u32 \<Rightarrow> u32" where
  "apply_mark MarkInsert v = mark_insert v"
| "apply_mark MarkSplit v = mark_split v"
| "apply_mark (MarkChange b) v = mark_change b v"
| "apply_mark MarkDeleted v = mark_deleted v"
| "apply_mark MarkDeletedTree v = mark_deleted_tree v"
| "apply_mark MarkRoot v = mark_root v"
| "apply_mark MarkNonroot v = mark_nonroot v"

record node_state =
  word :: u32
  phase_of :: "nat \<Rightarrow> phase"
  changes :: nat
  contents :: nat
  bounds :: nat

definition take_snapshot :: "node_state \<Rightarrow> snapshot" where
  "take_snapshot s = \<lparr>s_changes = changes s, s_contents = contents s, s_bounds = bounds s\<rparr>"

definition goto :: "nat \<Rightarrow> phase \<Rightarrow> node_state \<Rightarrow> node_state" where
  "goto t p s = s\<lparr>phase_of := (phase_of s)(t := p)\<rparr>"

definition count_unlock :: "u32 \<Rightarrow> nat \<Rightarrow> nat" where
  "count_unlock x c = (if splitting x then next_split c else if inserting x then c + 1 else c)"

inductive node_step :: "node_state \<Rightarrow> node_state \<Rightarrow> bool" where
  lock_call: "phase_of s t = Idle \<Longrightarrow> node_step s (goto t (Locking e) s)"
| lock_cas: "phase_of s t = Locking e \<Longrightarrow> \<not> locked e \<Longrightarrow> word s = e
    \<Longrightarrow> node_step s (goto t Holding (s\<lparr>word := e OR lock_bit\<rparr>))"
| lock_spin: "phase_of s t = Locking e \<Longrightarrow> locked e \<or> word s \<noteq> e \<Longrightarrow> node_step s (goto t Reloading s)"
| lock_reload: "phase_of s t = Reloading \<Longrightarrow> node_step s (goto t (Locking (word s)) s)"
| mark: "phase_of s t = Holding \<Longrightarrow> node_step s (s\<lparr>word := apply_mark m (word s)\<rparr>)"
| write_contents: "phase_of s t = Holding \<Longrightarrow> dirty (word s) \<Longrightarrow> node_step s (s\<lparr>contents := d\<rparr>)"
| write_bounds: "phase_of s t = Holding \<Longrightarrow> splitting (word s) \<Longrightarrow> node_step s (s\<lparr>bounds := d\<rparr>)"
| unlock_call: "phase_of s t = Holding
    \<Longrightarrow> node_step s (goto t Idle (s\<lparr>word := unlock (word s), changes := count_unlock (word s) (changes s)\<rparr>))"
| stable_call: "phase_of s t = Idle \<Longrightarrow> node_step s (goto t (Reading (word s) (take_snapshot s)) s)"
| stable_spin: "phase_of s t = Reading x g \<Longrightarrow> dirty x \<Longrightarrow> node_step s (goto t (Reading (word s) (take_snapshot s)) s)"
| stable_return: "phase_of s t = Reading x g \<Longrightarrow> \<not> dirty x \<Longrightarrow> node_step s (goto t (Stable x g) s)"
| reader_done: "phase_of s t = Stable x g \<Longrightarrow> node_step s (goto t Idle s)"

definition node_init :: "node_state \<Rightarrow> bool" where
  "node_init s \<longleftrightarrow> quiescent (word s) \<and> changes s = vcount (word s) \<and> phase_of s = (\<lambda>t. Idle)"

definition node_reach :: "node_state \<Rightarrow> bool" where
  "node_reach s \<longleftrightarrow> (\<exists>s0. node_init s0 \<and> node_step\<^sup>*\<^sup>* s0 s)"

definition holders :: "node_state \<Rightarrow> nat set" where
  "holders s = {t. phase_of s t = Holding}"

definition lock_inv :: "node_state \<Rightarrow> bool" where
  "lock_inv s \<longleftrightarrow> (if locked (word s) then \<exists>t. holders s = {t} else holders s = {})
    \<and> (dirty (word s) \<longrightarrow> locked (word s))
    \<and> \<not> bit (word s) 28 \<and> vcount (word s) = changes s mod 2 ^ 25"

definition snap_ok :: "node_state \<Rightarrow> u32 \<Rightarrow> snapshot \<Rightarrow> bool" where
  "snap_ok s x g \<longleftrightarrow> vcount x = s_changes g mod 2 ^ 25 \<and> s_changes g \<le> changes s
    \<and> (changes s = s_changes g \<longrightarrow> \<not> dirty x \<longrightarrow> \<not> dirty (word s) \<longrightarrow> contents s = s_contents g)
    \<and> (changes s div 64 = s_changes g div 64 \<longrightarrow> \<not> splitting x \<longrightarrow> \<not> splitting (word s) \<longrightarrow> bounds s = s_bounds g)"

definition reader_inv :: "node_state \<Rightarrow> bool" where
  "reader_inv s \<longleftrightarrow> (\<forall>t x g. phase_of s t = Reading x g \<or> phase_of s t = Stable x g \<longrightarrow> snap_ok s x g)
    \<and> (\<forall>t x g. phase_of s t = Stable x g \<longrightarrow> \<not> dirty x)"

subsection \<open>Invariants\<close>

lemma apply_mark_facts [simp]:
  "locked (apply_mark m v) = locked v" "bit (apply_mark m v) 28 = bit v 28"
  "vcount (apply_mark m v) = vcount v"
  by (cases m; auto simp: nv_ops nv_bits vcount_eq_iff)+

lemma apply_mark_dirty:
  "\<not> dirty (apply_mark m v) \<Longrightarrow> \<not> dirty v" "\<not> splitting (apply_mark m v) \<Longrightarrow> \<not> splitting v"
  by (cases m; auto simp: nv_ops nv_bits)+

lemma lock_word_facts:
  "bit (v OR lock_bit) n \<longleftrightarrow> bit v n \<or> n = 0" "vcount (v OR lock_bit) = vcount v" "locked (v OR lock_bit)"
  "dirty (v OR lock_bit) = dirty v" "splitting (v OR lock_bit) = splitting v"
  by (auto simp: bit_or_iff nv_bits vcount_eq_iff)

lemma next_split_facts: "c < next_split c" "c div 64 < next_split c div 64"
  by (simp_all add: next_split_def)

lemma count_unlock_mono:
  "c \<le> count_unlock x c" "dirty x \<Longrightarrow> c < count_unlock x c" "splitting x \<Longrightarrow> c div 64 < count_unlock x c div 64"
  using next_split_facts [of c] by (auto simp: count_unlock_def nv_bits)

lemma vcount_count_unlock:
  assumes "vcount x = c mod 2 ^ 25"
  shows "vcount (unlock x) = count_unlock x c mod 2 ^ 25"
proof -
  have "next_split (c mod 2 ^ 25) mod 2 ^ 25 = next_split c mod 2 ^ 25"
    by (simp only: next_split_def add_mult_distrib mod_div_64 mod_add_left_eq)
  moreover have "(c mod 2 ^ 25 + 1) mod 2 ^ 25 = (c + 1) mod 2 ^ 25" by (rule mod_add_left_eq)
  ultimately show ?thesis
    unfolding vcount_unlock count_unlock_def assms by (simp only: mod_mod_trivial split: if_split) simp
qed

lemma unlock_clean: "\<not> bit x 28 \<Longrightarrow> \<not> locked (unlock x) \<and> \<not> dirty (unlock x) \<and> \<not> splitting (unlock x) \<and> \<not> bit (unlock x) 28"
  using unlock_flags [of x] by (simp add: nv_bits)

lemma holders_goto [simp]:
  "phase_of s t \<noteq> Holding \<Longrightarrow> p \<noteq> Holding \<Longrightarrow> holders (goto t p s) = holders s"
  "holders (goto t Holding s) = insert t (holders s)"
  "p \<noteq> Holding \<Longrightarrow> phase_of s t = Holding \<Longrightarrow> holders (goto t p s) = holders s - {t}"
  by (auto simp: holders_def goto_def)

lemma goto_fields [simp]:
  "word (goto t p s) = word s" "changes (goto t p s) = changes s"
  "contents (goto t p s) = contents s" "bounds (goto t p s) = bounds s"
  by (simp_all add: goto_def)

lemma holders_update [simp]:
  "holders (s\<lparr>word := w\<rparr>) = holders s" "holders (s\<lparr>changes := c\<rparr>) = holders s"
  "holders (s\<lparr>contents := d\<rparr>) = holders s" "holders (s\<lparr>bounds := d\<rparr>) = holders s"
  by (simp_all add: holders_def)

lemma holder_in: "phase_of s t = Holding \<longleftrightarrow> t \<in> holders s"
  by (simp add: holders_def)

lemma lock_inv_step:
  assumes "lock_inv s" "node_step s s'"
  shows "lock_inv s'"
  using assms(2,1)
proof (cases rule: node_step.cases)
  case (lock_cas t e)
  then show ?thesis using assms(1)
    by (simp add: lock_inv_def lock_word_facts)
next
  case (mark t m)
  then show ?thesis using assms(1) by (auto simp: lock_inv_def holder_in split: if_splits)
next
  case (unlock_call t)
  then have "holders s - {t} = {}" "\<not> bit (word s) 28"
    using assms(1) by (auto simp: lock_inv_def holder_in split: if_splits)
  then show ?thesis
    using unlock_call assms(1) unlock_clean [of "word s"] vcount_count_unlock [of "word s" "changes s"]
    by (simp add: lock_inv_def)
qed (simp_all add: lock_inv_def)

lemma snap_ok_frame:
  assumes "snap_ok s x g" "vcount (word s') = vcount (word s)" "changes s' = changes s"
    "\<not> dirty (word s') \<Longrightarrow> \<not> dirty (word s) \<and> contents s' = contents s"
    "\<not> splitting (word s') \<Longrightarrow> \<not> splitting (word s) \<and> bounds s' = bounds s"
  shows "snap_ok s' x g"
  using assms by (auto simp: snap_ok_def)

lemma snap_ok_unlock:
  assumes "snap_ok s x g" "lock_inv s" "word s' = unlock (word s)" "changes s' = count_unlock (word s) (changes s)"
    "contents s' = contents s" "bounds s' = bounds s"
  shows "snap_ok s' x g"
proof -
  note m = count_unlock_mono [where c = "changes s" and x = "word s"]
  have le: "s_changes g \<le> changes s" using assms(1) by (simp add: snap_ok_def)
  have "dirty (word s) \<Longrightarrow> changes s' \<noteq> s_changes g" using m le assms(4) by auto
  moreover have "splitting (word s) \<Longrightarrow> changes s' div 64 \<noteq> s_changes g div 64"
    using m(3) div_le_mono [OF le, of 64] assms(4) by auto
  moreover have "\<not> dirty (word s) \<Longrightarrow> changes s' = changes s" 
    using assms(4) by (auto simp: count_unlock_def nv_bits)
  moreover have "changes s' = s_changes g \<Longrightarrow> changes s = s_changes g" using m(1) le assms(4) by auto
  moreover have "changes s' div 64 = s_changes g div 64 \<Longrightarrow> changes s div 64 = s_changes g div 64"
    using div_le_mono [OF m(1), of 64] div_le_mono [OF le, of 64] assms(4) by auto
  ultimately show ?thesis using assms m(1) by (auto simp: snap_ok_def)
qed

lemma snap_ok_take: "lock_inv s \<Longrightarrow> snap_ok s (word s) (take_snapshot s)"
  by (simp add: snap_ok_def lock_inv_def take_snapshot_def)

lemma reader_inv_step:
  assumes "reader_inv s" "lock_inv s" "node_step s s'"
  shows "reader_inv s'"
proof -
  have old: "snap_ok s x g \<Longrightarrow> snap_ok s' x g" for x g
    using assms(3)
  proof (cases rule: node_step.cases)
    case (unlock_call t)
    then show "snap_ok s x g \<Longrightarrow> snap_ok s' x g"
      using snap_ok_unlock [of s x g s'] assms(2) by (simp add: goto_def)
  next
    case (mark t m)
    then show "snap_ok s x g \<Longrightarrow> snap_ok s' x g"
      by (elim snap_ok_frame) (auto dest: apply_mark_dirty)
  qed (erule snap_ok_frame; simp add: lock_word_facts nv_bits)+
  show ?thesis
    using assms(3,1,2) old snap_ok_take [OF assms(2)]
    by (cases rule: node_step.cases) (auto simp: reader_inv_def goto_def split: if_splits)
qed

lemma node_reach_inv: "node_reach s \<Longrightarrow> lock_inv s \<and> reader_inv s"
proof -
  assume "node_reach s"
  then obtain s0 where "node_init s0" "node_step\<^sup>*\<^sup>* s0 s" by (auto simp: node_reach_def)
  from this(2,1) show ?thesis
  proof (induction rule: rtranclp_induct)
    case base
    then show ?case
      by (auto simp: node_init_def lock_inv_def reader_inv_def holders_def quiescent_def nv_bits vcount_arith)
  next
    case (step s s')
    then show ?case using lock_inv_step reader_inv_step by blast
  qed
qed

lemma not_changed_facts:
  assumes "\<not> has_changed v x"
  shows "vcount v = vcount x" "dirty v = dirty x" "splitting v = splitting x"
  using assms by (auto simp: has_changed_iff vcount_eq_iff nv_bits)

lemma not_split_facts:
  assumes "\<not> has_split v x"
  shows "vcount v div 64 = vcount x div 64"
proof -
  have "drop_bit 6 (vcount v) = drop_bit 6 (vcount x)"
    using assms by (intro bit_eqI) (auto simp: has_split_iff bit_drop_bit_eq bit_vcount)
  then show ?thesis by (simp add: drop_bit_eq_div)
qed

lemma counter_window:
  fixes a c :: nat
  assumes "c \<le> a" "a < c + 2 ^ 25"
  shows "a mod 2 ^ 25 = c mod 2 ^ 25 \<Longrightarrow> a = c"
    and "a mod 2 ^ 25 div 64 = c mod 2 ^ 25 div 64 \<Longrightarrow> a - a mod 64 < c - c mod 64 + 2 ^ 25 \<Longrightarrow> a div 64 = c div 64"
proof -
  assume "a mod 2 ^ 25 = c mod 2 ^ 25"
  then have "2 ^ 25 dvd a - c" using assms(1) by (simp only: mod_eq_dvd_iff_nat)
  moreover have "a - c < 2 ^ 25" using assms by linarith
  ultimately have "a - c = 0" by (meson nat_dvd_not_less not_gr_zero)
  then show "a = c" using assms(1) by simp
next
  assume "a mod 2 ^ 25 div 64 = c mod 2 ^ 25 div 64" and lt: "a - a mod 64 < c - c mod 64 + 2 ^ 25"
  then have "(a div 64 * 64) mod 2 ^ 25 = (c div 64 * 64) mod 2 ^ 25"
    by (simp only: flip: mod_div_64)
  moreover have le: "c div 64 * 64 \<le> a div 64 * 64" using assms(1) by (simp add: div_le_mono)
  ultimately have "2 ^ 25 dvd a div 64 * 64 - c div 64 * 64" by (simp only: mod_eq_dvd_iff_nat)
  moreover have "a div 64 * 64 - c div 64 * 64 < 2 ^ 25"
    using lt le unfolding minus_mod_eq_div_mult by linarith
  ultimately have "a div 64 * 64 - c div 64 * 64 = 0" by (meson nat_dvd_not_less not_gr_zero)
  then show "a div 64 = c div 64" using le by simp
qed



definition demo_node :: node_state where
  "demo_node = \<lparr>word = nodeversion True, phase_of = \<lambda>t. Idle, changes = 0, contents = 5, bounds = 7\<rparr>"

lemma demo_node_init: "node_init demo_node"
  by (simp add: node_init_def demo_node_def quiescent_new) (simp add: vcount_arith nodeversion_def isleaf_bit_def)

lemma node_reach_step: "node_reach s \<Longrightarrow> node_step s s' \<Longrightarrow> node_reach s'"
  unfolding node_reach_def by (meson rtranclp.rtrancl_into_rtrancl)

lemma demo_node_reach: "node_reach demo_node"
  using demo_node_init unfolding node_reach_def by blast

definition demo_read :: node_state where
  "demo_read = goto 1 (Stable (nodeversion True) (take_snapshot demo_node)) demo_node"

lemma demo_read_reach: "node_reach demo_read"
proof -
  let ?r = "goto 1 (Reading (nodeversion True) (take_snapshot demo_node)) demo_node"
  have "node_step demo_node ?r"
    using stable_call [of demo_node 1] by (simp add: demo_node_def)
  then have "node_reach ?r" by (rule node_reach_step [OF demo_node_reach])
  moreover have "\<not> dirty (nodeversion True)" using quiescent_new [of True] by (simp add: quiescent_def nv_bits)
  then have "node_step ?r demo_read"
    using stable_return [of ?r 1 "nodeversion True" "take_snapshot demo_node"]
    by (simp add: goto_def demo_read_def)
  ultimately show ?thesis by (rule node_reach_step)
qed


definition demo_held :: node_state where
  "demo_held = goto 1 Holding (demo_node\<lparr>word := nodeversion True OR lock_bit\<rparr>)"

lemma demo_held_reach: "node_reach demo_held"
proof -
  let ?r = "goto 1 (Locking (nodeversion True)) demo_node"
  have "node_step demo_node ?r" by (rule lock_call) (simp add: demo_node_def)
  then have "node_reach ?r" by (rule node_reach_step [OF demo_node_reach])
  moreover have "\<not> locked (nodeversion True)" using quiescent_new [of True] by (simp add: quiescent_def nv_bits)
  then have "node_step ?r demo_held"
    using lock_cas [of ?r 1 "nodeversion True"] by (simp add: goto_def demo_held_def demo_node_def)
  ultimately show ?thesis by (rule node_reach_step)
qed


end
