(* ===== verification/Incll_Lv.thy ===== *)
theory Incll_Lv
  imports Prelude
begin

text \<open>
  The in-cache-line log word \<open>incll_lv_\<close> of a leaf (\<open>masstree_struct.hh\<close>): one 64-bit word
  that shares a cache line with seven leaf values and can hold the old content of one of
  them.  Bits 0 to 2 hold the index of the logged value within the line (7 stands for no
  value), bits 3 to 55 the value (an aligned pointer), bits 56 to 62 the low seven bits of
  the epoch, bit 63 a flag.
\<close>

section \<open>The log word\<close>

definition idx_mask :: u64 where "idx_mask = 7"
definition non_idx_mask :: u64 where "non_idx_mask = NOT idx_mask"
definition not_logged_bit :: u64 where "not_logged_bit = push_bit 63 1"
definition not_logged_reset :: u64 where "not_logged_reset = NOT not_logged_bit"
definition lv_mask :: u64 where "lv_mask = 0x00FFFFFFFFFFFFF8"
definition non_lv_mask :: u64 where "non_lv_mask = NOT lv_mask"
definition lv_idx_mask :: u64 where "lv_idx_mask = 0x00FFFFFFFFFFFFFF"
definition non_lv_idx_mask :: u64 where "non_lv_idx_mask = NOT lv_idx_mask"
definition le_mask :: u64 where "le_mask = 0x7F00000000000000"
definition ge_mask :: u64 where "ge_mask = 0x000000000000007F"
definition non_le_mask :: u64 where "non_le_mask = NOT le_mask"
definition epoch_shift :: nat where "epoch_shift = 56"
definition cl_invalid_idx :: u64 where "cl_invalid_idx = 7"
definition lv_idx_ge_mask :: u64 where "lv_idx_ge_mask = 0x7FFFFFFFFFFFFFFF"
definition non_lv_idx_ge_mask :: u64 where "non_lv_idx_ge_mask = NOT lv_idx_ge_mask"

definition key_mid :: nat where "key_mid = 7"

definition get_cl_idx :: "u64 \<Rightarrow> nat" where
  "get_cl_idx d = unat (d AND idx_mask)"

definition set_cl_idx :: "nat \<Rightarrow> u64 \<Rightarrow> u64" where
  "set_cl_idx p d = (d AND non_idx_mask) OR of_nat p"

definition invalidate_cl :: "u64 \<Rightarrow> u64" where
  "invalidate_cl d = d OR cl_invalid_idx"

definition cl_loggedepoch :: "u64 \<Rightarrow> u64" where
  "cl_loggedepoch d = drop_bit epoch_shift (d AND le_mask)"

definition set_cl_loggedepoch :: "u64 \<Rightarrow> u64 \<Rightarrow> u64" where
  "set_cl_loggedepoch e d = (d AND non_le_mask) OR push_bit epoch_shift (e AND ge_mask)"

definition incll_lv_init :: "u64 \<Rightarrow> u64" where
  "incll_lv_init ge = invalidate_cl (set_cl_loggedepoch ge 0)"

definition is_not_logged :: "u64 \<Rightarrow> bool" where
  "is_not_logged d \<longleftrightarrow> d AND not_logged_bit \<noteq> 0"

definition set_not_logged :: "u64 \<Rightarrow> u64" where
  "set_not_logged d = d OR not_logged_bit"

definition reset_not_logged :: "u64 \<Rightarrow> u64" where
  "reset_not_logged d = d AND not_logged_reset"

definition set_lv :: "u64 \<Rightarrow> u64 \<Rightarrow> u64" where
  "set_lv lv d = (d AND non_lv_mask) OR lv"

definition get_lv :: "u64 \<Rightarrow> u64" where
  "get_lv d = d AND lv_mask"

definition set_lv_idx :: "u64 \<Rightarrow> nat \<Rightarrow> u64 \<Rightarrow> u64" where
  "set_lv_idx lv p d = (d AND non_lv_idx_mask) OR lv OR of_nat p"

definition set_lv_idx_ge :: "u64 \<Rightarrow> u64 \<Rightarrow> nat \<Rightarrow> u64 \<Rightarrow> u64" where
  "set_lv_idx_ge ge lv p d =
     (d AND non_lv_idx_ge_mask) OR lv OR of_nat p OR push_bit epoch_shift (ge AND ge_mask)"

definition recover_lv :: "u64 \<Rightarrow> u64 list \<Rightarrow> u64 list" where
  "recover_lv d lv = lv[unat (d AND idx_mask) := d AND lv_mask]"

definition recover_lv2 :: "u64 \<Rightarrow> u64 list \<Rightarrow> u64 list" where
  "recover_lv2 d lv = lv[unat (d AND idx_mask) + key_mid := d AND lv_mask]"

definition is_le_diff :: "u64 \<Rightarrow> u64 \<Rightarrow> bool" where
  "is_le_diff ge d \<longleftrightarrow> drop_bit epoch_shift (d AND le_mask) \<noteq> (ge AND ge_mask)"

definition is_cl_valid :: "u64 \<Rightarrow> bool" where
  "is_cl_valid d \<longleftrightarrow> (d AND cl_invalid_idx) \<noteq> cl_invalid_idx"

section \<open>Bits\<close>

named_theorems cl_bits "bits of the log word's masks"

definition lv_ok :: "u64 \<Rightarrow> bool" where
  "lv_ok v \<longleftrightarrow> v AND non_lv_mask = 0"

lemma cl_masks_eq:
  "idx_mask = mask 3" "cl_invalid_idx = mask 3" "ge_mask = mask 7"
  "lv_mask = push_bit 3 (mask 53)" "lv_idx_mask = mask 56"
  "le_mask = push_bit 56 (mask 7)" "lv_idx_ge_mask = mask 63"
  by (simp_all add: idx_mask_def cl_invalid_idx_def ge_mask_def lv_mask_def lv_idx_mask_def le_mask_def
      lv_idx_ge_mask_def mask_eq_exp_minus_1)

lemma bit_cl_masks [cl_bits]:
  "bit idx_mask n \<longleftrightarrow> n < 3" "bit cl_invalid_idx n \<longleftrightarrow> n < 3" "bit ge_mask n \<longleftrightarrow> n < 7"
  "bit lv_mask n \<longleftrightarrow> 3 \<le> n \<and> n < 56" "bit lv_idx_mask n \<longleftrightarrow> n < 56"
  "bit le_mask n \<longleftrightarrow> 56 \<le> n \<and> n < 63" "bit lv_idx_ge_mask n \<longleftrightarrow> n < 63"
  unfolding cl_masks_eq
  by (auto simp only: bit_mask_iff bit_push_bit_iff possible_bit_word) auto

lemma bit_cl_non_masks [cl_bits]:
  "bit non_idx_mask n \<longleftrightarrow> 3 \<le> n \<and> n < 64" "bit non_lv_mask n \<longleftrightarrow> (n < 3 \<or> 56 \<le> n) \<and> n < 64"
  "bit non_lv_idx_mask n \<longleftrightarrow> 56 \<le> n \<and> n < 64" "bit non_le_mask n \<longleftrightarrow> (n < 56 \<or> 63 \<le> n) \<and> n < 64"
  "bit non_lv_idx_ge_mask n \<longleftrightarrow> n = 63"
  unfolding non_idx_mask_def non_lv_mask_def non_lv_idx_mask_def non_le_mask_def non_lv_idx_ge_mask_def
  by (auto simp: bit_not_iff bit_cl_masks)

lemma bit_not_logged_bit [cl_bits]: "bit not_logged_bit n \<longleftrightarrow> n = 63"
  by (simp only: not_logged_bit_def push_bit_of_1 bit_exp_iff possible_bit_word) auto

lemma lv_ok_iff: "lv_ok v \<longleftrightarrow> (\<forall>n. bit v n \<longrightarrow> 3 \<le> n \<and> n < 56)"
proof -
  have "lv_ok v \<longleftrightarrow> (\<forall>n. \<not> bit (v AND non_lv_mask) n)"
    unfolding lv_ok_def by (metis bit_0_eq bot_apply bot_bool_def bit_eqI)
  also have "\<dots> \<longleftrightarrow> (\<forall>n. bit v n \<longrightarrow> 3 \<le> n \<and> n < 56)"
    using bit_imp_le_length [of v] by (simp add: bit_and_iff bit_cl_non_masks not_less) (meson not_le)
  finally show ?thesis .
qed

lemma bit_small_index: "p < 8 \<Longrightarrow> bit (of_nat p :: u64) n \<Longrightarrow> n < 3"
proof -
  assume "p < 8" "bit (of_nat p :: u64) n"
  then have "take_bit 3 p = p" "bit p n" by (simp_all add: take_bit_nat_eq_self bit_of_nat_iff)
  then show "n < 3" by (metis bit_take_bit_iff)
qed

lemma bit_set_lv_idx_ge [cl_bits]:
  "bit (set_lv_idx_ge ge lv p d) n \<longleftrightarrow>
     bit d n \<and> n = 63 \<or> bit lv n \<or> bit (of_nat p :: u64) n \<or> 56 \<le> n \<and> n < 63 \<and> bit ge (n - 56)"
  by (auto simp: set_lv_idx_ge_def bit_or_iff bit_and_iff bit_push_bit_iff cl_bits epoch_shift_def)

lemma bit_set_cl_loggedepoch [cl_bits]:
  "bit (set_cl_loggedepoch e d) n \<longleftrightarrow>
     bit d n \<and> (n < 56 \<or> n = 63) \<or> 56 \<le> n \<and> n < 63 \<and> bit e (n - 56)"
  by (auto simp: set_cl_loggedepoch_def bit_or_iff bit_and_iff bit_push_bit_iff cl_bits epoch_shift_def
      dest: bit_imp_le_length)

lemma bit_cl_loggedepoch [cl_bits]: "bit (cl_loggedepoch d) n \<longleftrightarrow> n < 7 \<and> bit d (56 + n)"
  by (auto simp: cl_loggedepoch_def bit_and_iff bit_drop_bit_eq cl_bits epoch_shift_def)

section \<open>Reading back what was logged\<close>

lemma and_idx_mask_index:
  "p < 8 \<Longrightarrow> \<forall>n<3. bit d n = bit (of_nat p :: u64) n \<Longrightarrow> d AND idx_mask = of_nat p"
  by (rule bit_word_eqI) (auto simp: bit_and_iff cl_bits dest: bit_small_index)

lemma unat_small_index: "p < 8 \<Longrightarrow> unat (of_nat p :: u64) = p"
  by (simp add: unsigned_of_nat take_bit_nat_eq_self)

lemma unat_numeral_7: "unat (7 :: u64) = 7"
  by simp

lemma log_word_fields:
  assumes "lv_ok v" "p < 7"
  shows "get_lv (set_lv_idx_ge ge v p d) = v" "get_cl_idx (set_lv_idx_ge ge v p d) = p"
    "is_cl_valid (set_lv_idx_ge ge v p d)" "cl_loggedepoch (set_lv_idx_ge ge v p d) = ge AND ge_mask"
proof -
  let ?d = "set_lv_idx_ge ge v p d"
  have low: "bit ?d n = bit (of_nat p :: u64) n" if "n < 3" for n
    using that assms(1) by (auto simp: cl_bits lv_ok_iff)
  then have idx: "?d AND idx_mask = of_nat p" using assms(2) by (intro and_idx_mask_index) auto
  then show "get_cl_idx ?d = p" using assms(2) by (simp add: get_cl_idx_def unat_small_index)
  have "get_cl_idx ?d \<noteq> 7" using \<open>get_cl_idx ?d = p\<close> assms(2) by simp
  then show "is_cl_valid ?d"
    unfolding is_cl_valid_def get_cl_idx_def idx_mask_def cl_invalid_idx_def by (metis unat_numeral_7)
  show "get_lv ?d = v"
    by (rule bit_word_eqI) (use assms in \<open>auto simp: get_lv_def bit_and_iff cl_bits lv_ok_iff dest: bit_small_index [rotated]\<close>)
  show "cl_loggedepoch ?d = ge AND ge_mask"
    by (rule bit_word_eqI) (use assms in \<open>auto simp: bit_and_iff cl_bits lv_ok_iff dest: bit_small_index [rotated]\<close>)
qed

lemma cl_field_eqs:
  "(\<And>n. 3 \<le> n \<Longrightarrow> n < 56 \<Longrightarrow> bit d n = bit d' n) \<Longrightarrow> get_lv d = get_lv d'"
  "(\<And>n. n < 3 \<Longrightarrow> bit d n = bit d' n) \<Longrightarrow> d AND idx_mask = d' AND idx_mask"
  by (auto simp: get_lv_def bit_eq_iff bit_and_iff cl_bits)

lemma stamp_fields [simp]:
  "get_lv (set_cl_loggedepoch e d) = get_lv d" "get_cl_idx (set_cl_loggedepoch e d) = get_cl_idx d"
  "is_cl_valid (set_cl_loggedepoch e d) = is_cl_valid d"
  "cl_loggedepoch (set_cl_loggedepoch e d) = e AND ge_mask"
proof -
  show "get_lv (set_cl_loggedepoch e d) = get_lv d" by (rule cl_field_eqs) (auto simp: cl_bits)
  have idx: "set_cl_loggedepoch e d AND idx_mask = d AND idx_mask" by (rule cl_field_eqs) (auto simp: cl_bits)
  then show "get_cl_idx (set_cl_loggedepoch e d) = get_cl_idx d" by (simp add: get_cl_idx_def)
  show "is_cl_valid (set_cl_loggedepoch e d) = is_cl_valid d"
    using idx by (simp add: is_cl_valid_def cl_masks_eq)
  show "cl_loggedepoch (set_cl_loggedepoch e d) = e AND ge_mask"
    by (rule bit_word_eqI) (auto simp: bit_and_iff cl_bits)
qed

lemma invalidate_fields [simp]:
  "\<not> is_cl_valid (invalidate_cl d)" "get_lv (invalidate_cl d) = get_lv d"
  "cl_loggedepoch (invalidate_cl d) = cl_loggedepoch d"
proof -
  have "invalidate_cl d AND cl_invalid_idx = cl_invalid_idx"
    by (rule bit_word_eqI) (auto simp: invalidate_cl_def bit_and_iff bit_or_iff)
  then show "\<not> is_cl_valid (invalidate_cl d)" by (simp add: is_cl_valid_def)
  show "get_lv (invalidate_cl d) = get_lv d" 
    by (rule cl_field_eqs) (auto simp: invalidate_cl_def bit_or_iff cl_bits)
  show "cl_loggedepoch (invalidate_cl d) = cl_loggedepoch d"
    by (rule bit_word_eqI) (auto simp: invalidate_cl_def bit_or_iff cl_bits)
qed

lemma recover_eqs: "recover_lv d lv = lv[get_cl_idx d := get_lv d]"
  "recover_lv2 d lv = lv[get_cl_idx d + key_mid := get_lv d]"
  by (simp_all add: recover_lv_def recover_lv2_def get_cl_idx_def get_lv_def)

lemma valid_index: "is_cl_valid d \<Longrightarrow> get_cl_idx d < 7"
proof -
  assume v: "is_cl_valid d"
  have "d AND idx_mask = take_bit 3 d" by (simp add: cl_masks_eq take_bit_eq_mask)
  then have "get_cl_idx d = take_bit 3 (unat d)"
    by (simp add: get_cl_idx_def unsigned_take_bit_eq)
  then have "get_cl_idx d < 8" using take_bit_nat_less_exp [of 3 "unat d"] by simp
  moreover have "get_cl_idx d \<noteq> 7"
  proof
    assume "get_cl_idx d = 7"
    then have "d AND idx_mask = 7" unfolding get_cl_idx_def by (metis unat_numeral_7 word_unat_eq_iff)
    then show False using v by (simp add: is_cl_valid_def idx_mask_def cl_invalid_idx_def)
  qed
  ultimately show ?thesis by simp
qed

lemma epoch_mask_small: "e < 128 \<Longrightarrow> e AND ge_mask = e" for e :: u64
proof -
  assume "e < 128"
  then have "unat e < 2 ^ 7" by (simp add: word_less_nat_alt)
  then have "take_bit 7 (unat e) = unat e" by (rule take_bit_nat_eq_self)
  then have "unat (take_bit 7 e) = unat e" by (simp add: unsigned_take_bit_eq)
  then have "take_bit 7 e = e" by (simp only: word_unat_eq_iff)
  then show ?thesis by (simp add: cl_masks_eq flip: take_bit_eq_mask)
qed

lemma epoch_mask_bound: "e AND ge_mask < 128" for e :: u64
proof -
  have "unat (take_bit 7 e) = take_bit 7 (unat e)" by (simp add: unsigned_take_bit_eq)
  then have "unat (take_bit 7 e) < 128" using take_bit_nat_less_exp [of 7 "unat e"] by simp
  then show ?thesis by (simp add: cl_masks_eq word_less_nat_alt flip: take_bit_eq_mask)
qed

lemma cl_loggedepoch_bound: "cl_loggedepoch d < 128"
proof -
  have "cl_loggedepoch d = cl_loggedepoch d AND ge_mask"
    by (rule bit_word_eqI) (auto simp: bit_and_iff cl_bits)
  then show ?thesis using epoch_mask_bound [of "cl_loggedepoch d"] by simp
qed

text \<open>
  C10.  Round trip of the in-cache-line log word: after \<open>set_lv_idx_ge\<close> has packed an
  aligned 56-bit value, its index below 7 and the epoch into the word, \<open>recover_lv\<close> and
  \<open>recover_lv2\<close> write that value back to the slot it came from, whatever the slot and the
  word held before, the word counts as valid, and stamping all epochs afterwards (\<open>update_epochs\<close>)
  does not disturb it.
\<close>

theorem incll_word_roundtrip:
  assumes "lv_ok (lv ! p)" "lv_ok (lv ! (7 + p))" "p < 7" "7 + p < length lv"
  shows "recover_lv (set_cl_loggedepoch e (set_lv_idx_ge ge (lv ! p) p d)) (lv[p := x]) = lv
    \<and> recover_lv2 (set_cl_loggedepoch e (set_lv_idx_ge ge (lv ! (7 + p)) p d)) (lv[7 + p := x]) = lv
    \<and> is_cl_valid (set_cl_loggedepoch e (set_lv_idx_ge ge (lv ! p) p d))"
  using assms by (simp_all add: recover_eqs log_word_fields key_mid_def add.commute)

theorem incll_word_roundtrip_witness:
  "recover_lv (set_cl_loggedepoch 5 (set_lv_idx_ge 5 ([8, 16, 24, 32, 40, 48, 56, 64, 72, 80, 88] ! 2) 2 0))
     ([8, 16, 24, 32, 40, 48, 56, 64, 72, 80, 88][2 := 0])
   = [8, 16, 24, 32, 40, 48, 56, 64, 72, 80, 88]"
  using incll_word_roundtrip [of "[8, 16, 24, 32, 40, 48, 56, 64, 72, 80, 88]" 2 5 5 0 0]
  by (simp add: lv_ok_def non_lv_mask_def lv_mask_def)

end
