(* ===== verification/String_Slice.thy ===== *)
theory String_Slice
  imports Prelude
begin

text \<open>
  Strings as byte sequences and their 8-byte slices: \<open>string_slice<uint64_t>\<close> of
  \<open>string_slice.hh\<close> on a little-endian machine with unaligned access, the byte-order
  conversions of \<open>compiler.hh\<close> it uses, and the string comparison of \<open>string.cc\<close>.
  A character buffer is a list of bytes; a pointer into it is a buffer and an offset.
\<close>

type_synonym bytes = "u8 list"

section \<open>Memory words\<close>

fun le_nat :: "bytes \<Rightarrow> nat" where
  "le_nat [] = 0"
| "le_nat (b # bs) = unat b + 256 * le_nat bs"

definition le_load :: "bytes \<Rightarrow> u64" where
  "le_load bs = of_nat (le_nat bs)"

definition le_store :: "u64 \<Rightarrow> bytes" where
  "le_store w = map (\<lambda>i. of_nat (unat w div 256 ^ i)) [0..<8]"

definition net_to_host_order :: "u64 \<Rightarrow> u64" where
  "net_to_host_order w = le_load (rev (le_store w))"

definition host_to_net_order :: "u64 \<Rightarrow> u64" where
  "host_to_net_order w = le_load (rev (le_store w))"

definition buf_write :: "bytes \<Rightarrow> nat \<Rightarrow> bytes \<Rightarrow> bytes" where
  "buf_write mem pos s = take pos mem @ s @ drop (pos + length s) mem"

section \<open>Slices\<close>

definition slice_size :: nat where "slice_size = 8"

definition load_at :: "bytes \<Rightarrow> nat \<Rightarrow> u64" where
  "load_at s off = le_load (take 8 (drop off s))"

definition slice_make :: "bytes \<Rightarrow> nat \<Rightarrow> int \<Rightarrow> u64" where
  "slice_make s off len =
     (if len \<le> 0 then 0
      else if len \<ge> int slice_size then load_at s off
      else le_load (let n = min (nat len) slice_size in take n (drop off s) @ replicate (slice_size - n) 0))"

definition make_comparable :: "bytes \<Rightarrow> nat \<Rightarrow> int \<Rightarrow> u64" where
  "make_comparable s off len = net_to_host_order (slice_make s off len)"

definition make_sloppy :: "bytes \<Rightarrow> nat \<Rightarrow> int \<Rightarrow> u64" where
  "make_sloppy s off len =
     (if len \<le> 0 then 0
      else if len \<ge> int slice_size then load_at s off
      else drop_bit (8 * (slice_size - nat len)) (load_at s (off - (slice_size - nat len))))"

definition make_comparable_sloppy :: "bytes \<Rightarrow> nat \<Rightarrow> int \<Rightarrow> u64" where
  "make_comparable_sloppy s off len = net_to_host_order (make_sloppy s off len)"

fun trim_zeros :: "bytes \<Rightarrow> nat \<Rightarrow> nat" where
  "trim_zeros u 0 = 0"
| "trim_zeros u (Suc l) = (if u ! l = 0 then trim_zeros u l else Suc l)"

definition unparse_comparable :: "nat \<Rightarrow> u64 \<Rightarrow> bytes" where
  "unparse_comparable buflen v =
     (let u = le_store (host_to_net_order v); l = min (trim_zeros u slice_size) buflen in take l u)"

definition unparse_comparable_len :: "nat \<Rightarrow> u64 \<Rightarrow> nat \<Rightarrow> bytes" where
  "unparse_comparable_len buflen v len =
     (let u = le_store (host_to_net_order v); l = min (min len slice_size) buflen in take l u)"

definition equals_sloppy :: "bytes \<Rightarrow> nat \<Rightarrow> bytes \<Rightarrow> nat \<Rightarrow> int \<Rightarrow> bool" where
  "equals_sloppy a ao b bo len =
     (if len \<le> int slice_size then
        let delta = load_at a ao XOR load_at b bo
        in if len \<le> 0 then True else push_bit (8 * (slice_size - nat len)) delta = 0
      else take (nat len) (drop ao a) = take (nat len) (drop bo b))"

fun memcmp :: "bytes \<Rightarrow> bytes \<Rightarrow> int" where
  "memcmp (a # as) (b # bs) = (if a < b then -1 else if b < a then 1 else memcmp as bs)"
| "memcmp _ _ = 0"

definition str_compare :: "bytes \<Rightarrow> bytes \<Rightarrow> int" where
  "str_compare a b =
     (let len = min (length a) (length b); cmp = memcmp (take len a) (take len b)
      in if cmp \<noteq> 0 then cmp else int (length a) - int (length b))"

text \<open>Lexicographic order of byte strings, the order keys are stored in.\<close>

fun lex_less :: "bytes \<Rightarrow> bytes \<Rightarrow> bool" where
  "lex_less [] ys = (ys \<noteq> [])"
| "lex_less (x # xs) [] = False"
| "lex_less (x # xs) (y # ys) = (x < y \<or> x = y \<and> lex_less xs ys)"

definition pad8 :: "bytes \<Rightarrow> bytes" where
  "pad8 s = take 8 s @ replicate (8 - length s) 0"

section \<open>Writing into a buffer\<close>

lemma length_buf_write [simp]: "pos + length s \<le> length mem \<Longrightarrow> length (buf_write mem pos s) = length mem"
  by (simp add: buf_write_def)

lemma buf_write_Nil [simp]: "buf_write mem pos [] = mem"
  by (simp add: buf_write_def)

lemma buf_write_same: "pos + length s \<le> length mem \<Longrightarrow> take (length s) (drop pos (buf_write mem pos s)) = s"
  by (simp add: buf_write_def)

lemma buf_write_other:
  assumes "pos + length s \<le> length mem" "q + n \<le> pos \<or> pos + length s \<le> q"
  shows "take n (drop q (buf_write mem pos s)) = take n (drop q mem)"
  using assms(2)
proof
  assume "q + n \<le> pos"
  then show ?thesis using assms by (simp add: buf_write_def take_drop)
next
  assume "pos + length s \<le> q"
  then show ?thesis using assms by (simp add: buf_write_def drop_append)
qed

section \<open>Little-endian numbers\<close>

lemma le_nat_bound: "le_nat bs < 256 ^ length bs"
proof (induction bs)
  case (Cons b bs)
  have "unat b < 256" using unsigned_less [of b, where 'a = nat] by simp
  then show ?case using Cons by simp
qed simp

lemma le_nat_append: "le_nat (xs @ ys) = le_nat xs + 256 ^ length xs * le_nat ys"
  by (induction xs) (simp_all add: algebra_simps)

lemma le_nat_zeros [simp]: "le_nat (replicate n 0) = 0"
  by (induction n) auto

lemma le_nat_div: "le_nat bs div 256 ^ i = le_nat (drop i bs)"
proof (induction bs arbitrary: i)
  case (Cons b bs)
  show ?case
  proof (cases i)
    case (Suc j)
    have "unat b < 256" using unsigned_less [of b, where 'a = nat] by simp
    then have "(unat b + 256 * le_nat bs) div 256 = le_nat bs" by simp
    then show ?thesis using Suc Cons [of j] by (simp add: div_mult2_eq)
  qed simp
qed simp

lemma le_nat_mod: "of_nat (le_nat bs) = (if bs = [] then 0 else hd bs :: u8)"
proof (cases bs)
  case (Cons b bs')
  have "of_nat (256 * le_nat bs') = (0 :: u8)"
    by (simp add: word_of_nat_eq_0_iff del: of_nat_mult)
  then show ?thesis using Cons by simp
qed simp

lemma unat_le_load: "length bs \<le> 8 \<Longrightarrow> unat (le_load bs) = le_nat bs"
proof -
  assume "length bs \<le> 8"
  then have "(256 :: nat) ^ length bs \<le> 256 ^ 8" by (intro power_increasing) simp_all
  then have "le_nat bs < 2 ^ 64" using le_nat_bound [of bs] by simp
  then show ?thesis by (simp add: le_load_def unsigned_of_nat take_bit_nat_eq_self)
qed

lemma length_le_store [simp]: "length (le_store w) = 8"
  by (simp add: le_store_def)

lemma le_store_load: "length bs = 8 \<Longrightarrow> le_store (le_load bs) = bs"
proof (rule nth_equalityI)
  fix i assume "length bs = 8" "i < length (le_store (le_load bs))"
  then show "le_store (le_load bs) ! i = bs ! i"
    by (simp add: le_store_def unat_le_load le_nat_div le_nat_mod hd_drop_conv_nth)
qed simp

lemma le_load_inj: "length xs = 8 \<Longrightarrow> length ys = 8 \<Longrightarrow> le_load xs = le_load ys \<longleftrightarrow> xs = ys"
  by (metis le_store_load)

lemma le_load_store [simp]: "le_load (le_store w) = w"
proof -
  have step: "le_nat (map (\<lambda>i. of_nat (n div 256 ^ i) :: u8) [0..<k]) = n mod 256 ^ k" for n k
  proof (induction k)
    case (Suc k)
    have "le_nat [of_nat (n div 256 ^ k) :: u8] = n div 256 ^ k mod 256"
      by (simp add: unsigned_of_nat take_bit_eq_mod)
    moreover have "n mod 256 ^ Suc k = 256 ^ k * (n div 256 ^ k mod 256) + n mod 256 ^ k"
      unfolding power_Suc2 by (rule mod_mult2_eq)
    ultimately show ?case using Suc by (simp add: le_nat_append del: le_nat.simps)
  qed simp
  have "unat w < 2 ^ 64" using unsigned_less [of w, where 'a = nat] by simp
  then have "unat w mod 256 ^ 8 = unat w" by simp
  then have "le_nat (le_store w) = unat w" using step [of "unat w" 8] by (simp add: le_store_def)
  then show ?thesis by (simp add: le_load_def)
qed

lemma swap_load: "length bs = 8 \<Longrightarrow> net_to_host_order (le_load bs) = le_load (rev bs)"
  by (simp add: net_to_host_order_def le_store_load)

lemma host_net_roundtrip [simp]: "host_to_net_order (net_to_host_order w) = w"
  by (simp add: host_to_net_order_def net_to_host_order_def le_store_load)

lemma be_order:
  "length xs = length ys \<Longrightarrow> le_nat (rev xs) < le_nat (rev ys) \<longleftrightarrow> lex_less xs ys"
proof (induction xs ys rule: list_induct2)
  case (Cons x xs y ys)
  let ?B = "256 ^ length xs :: nat"
  have b: "le_nat (rev xs) < ?B" "le_nat (rev ys) < ?B"
    using le_nat_bound [of "rev xs"] le_nat_bound [of "rev ys"] Cons.hyps by simp_all
  have "le_nat (rev xs) + ?B * unat x < le_nat (rev ys) + ?B * unat y
      \<longleftrightarrow> unat x < unat y \<or> unat x = unat y \<and> le_nat (rev xs) < le_nat (rev ys)"
  proof (cases "unat x" "unat y" rule: linorder_cases)
    case less
    then have "?B * unat x + ?B \<le> ?B * unat y" by (metis Suc_leI mult_Suc_right add.commute mult_le_mono2)
    then show ?thesis using b less by linarith
  next
    case greater
    then have "?B * unat y + ?B \<le> ?B * unat x" by (metis Suc_leI mult_Suc_right add.commute mult_le_mono2)
    then show ?thesis using b greater by linarith
  qed simp
  then show ?case using Cons by (simp add: le_nat_append word_less_nat_alt word_unat_eq_iff)
qed simp

lemma be_load_order:
  "length xs = 8 \<Longrightarrow> length ys = 8 \<Longrightarrow> le_load (rev xs) < le_load (rev ys) \<longleftrightarrow> lex_less xs ys"
  by (simp add: word_less_nat_alt unat_le_load be_order)

section \<open>Slices of strings\<close>

lemma length_pad8 [simp]: "length (pad8 s) = 8"
  by (simp add: pad8_def)

lemma slice_make_eq:
  assumes "0 \<le> len" "off + nat len \<le> length s"
  shows "slice_make s off len = le_load (pad8 (take (nat len) (drop off s)))"
proof (cases "len \<ge> 8")
  case True
  then have "take 8 (take (nat len) (drop off s)) = take 8 (drop off s)" by (simp add: min_def)
  moreover have "8 \<le> length (take (nat len) (drop off s))" using True assms by simp
  ultimately show ?thesis using True by (simp add: slice_make_def slice_size_def load_at_def pad8_def)
next
  case False
  have "nat len \<le> length (drop off s)" using assms by simp
  then have "length (take (nat len) (drop off s)) = nat len" by (simp only: length_take min_absorb2)
  moreover have "min (nat len) 8 = nat len" "take 8 (take (nat len) (drop off s)) = take (nat len) (drop off s)"
    using False by (simp_all add: min_def)
  moreover have "le_load (replicate 8 0) = 0" by (simp add: le_load_def)
  ultimately show ?thesis using False assms(1)
    by (cases "len = 0") (simp_all add: slice_make_def slice_size_def pad8_def Let_def)
qed

lemma make_comparable_eq:
  "0 \<le> len \<Longrightarrow> off + nat len \<le> length s \<Longrightarrow>
   make_comparable s off len = le_load (rev (pad8 (take (nat len) (drop off s))))"
  by (simp add: make_comparable_def slice_make_eq swap_load)

lemma drop_bit_le_load: "length bs \<le> 8 \<Longrightarrow> drop_bit (8 * k) (le_load bs) = le_load (drop k bs)"
proof -
  assume l: "length bs \<le> 8"
  have p: "(2 :: nat) ^ (8 * k) = 256 ^ k" by (simp add: power_mult)
  have "unat (drop_bit (8 * k) w) = unat w div 256 ^ k" for w :: u64
  proof -
    have "unat (drop_bit (8 * k) w) = drop_bit (8 * k) (unat w)"
      by (simp only: unsigned_drop_bit_eq take_bit_nat_eq_self unsigned_less)
    then show ?thesis by (simp only: drop_bit_eq_div [where 'a = nat] p)
  qed
  then have "unat (drop_bit (8 * k) (le_load bs)) = le_nat bs div 256 ^ k"
    using l by (simp only: unat_le_load)
  also have "\<dots> = unat (le_load (drop k bs))" using l by (simp add: le_nat_div unat_le_load)
  finally show ?thesis by (simp only: word_unat_eq_iff)
qed

lemma make_sloppy_eq:
  assumes "off + nat len \<le> length s" "0 < len \<Longrightarrow> 8 \<le> off + nat len"
  shows "make_sloppy s off len = slice_make s off len"
proof (cases "0 < len \<and> len < 8")
  case True
  define k where "k = 8 - nat len"
  have k: "k \<le> off" "k < 8" "nat len = 8 - k" using True assms by (auto simp: k_def)
  have "drop k (take 8 (drop (off - k) s)) = take (8 - k) (drop off s)" using k by (simp add: drop_take)
  moreover have "length (take 8 (drop (off - k) s)) \<le> 8" by simp
  ultimately have "make_sloppy s off len = le_load (take (8 - k) (drop off s))"
    using True k by (simp add: make_sloppy_def slice_size_def load_at_def drop_bit_le_load flip: k_def)
  also have "\<dots> = le_load (take (8 - k) (drop off s) @ replicate k 0)"
    by (simp add: le_load_def le_nat_append)
  also have "\<dots> = slice_make s off len"
    using True k by (simp add: slice_make_def slice_size_def Let_def min_def)
  finally show ?thesis .
qed (auto simp: make_sloppy_def slice_make_def slice_size_def)

section \<open>Lexicographic order\<close>

definition padn :: "nat \<Rightarrow> bytes \<Rightarrow> bytes" where
  "padn n s = take n s @ replicate (n - length s) 0"

lemma padn_rec: "padn (Suc n) [] = 0 # padn n []" "padn (Suc n) (x # xs) = x # padn n xs" "padn 0 s = []"
  by (simp_all add: padn_def)

lemma pad8_padn: "pad8 s = padn 8 s"
  by (simp add: pad8_def padn_def)

lemma lex_less_irrefl [simp]: "\<not> lex_less xs xs"
  by (induction xs) auto

lemma lex_less_Nil [simp]: "\<not> lex_less xs []"
  by (cases xs) auto

lemma lex_less_pad: "lex_less (padn n a) (padn n b) \<Longrightarrow> lex_less a b"
proof (induction n arbitrary: a b)
  case (Suc n)
  then show ?case
  proof (cases a)
    case Nil
    then show ?thesis using Suc by (cases b) auto
  next
    case (Cons x xs)
    then show ?thesis using Suc.prems Suc.IH [of xs "[]"] Suc.IH [of xs] by (cases b) (auto simp: padn_rec)
  qed
qed (simp add: padn_rec)

lemma lex_less_total: "lex_less a b \<or> a = b \<or> lex_less b a"
proof (induction a b rule: lex_less.induct)
  case (3 x xs y ys)
  then show ?case by (cases x y rule: linorder_cases) auto
qed auto

lemma lex_less_asym: "lex_less a b \<Longrightarrow> \<not> lex_less b a"
  by (induction a b rule: lex_less.induct) auto

lemma lex_less_trans: "lex_less a b \<Longrightarrow> lex_less b c \<Longrightarrow> lex_less a c"
proof (induction a b arbitrary: c rule: lex_less.induct)
  case (1 ys)
  then show ?case by (cases c) auto
next
  case (3 x xs y ys)
  then show ?case by (cases c) auto
qed auto

lemma lex_less_prefix: "ys \<noteq> [] \<Longrightarrow> lex_less xs (xs @ ys)"
  by (induction xs) auto

lemma lex_less_append_same [simp]: "lex_less (xs @ ys) (xs @ zs) = lex_less ys zs"
  by (induction xs) auto

lemma pad_eq_prefix:
  assumes "pad8 a = pad8 b" "length a \<le> length b" "length a \<le> 8"
  shows "a = take (length a) b"
proof -
  have "take (length a) (pad8 a) = a" using assms(3) by (simp add: pad8_def)
  moreover have "take (length a) (pad8 b) = take (length a) b"
    using assms(2,3) by (simp add: pad8_def min_def)
  ultimately show ?thesis using assms(1) by simp
qed

lemma memcmp_lex: "length a = length b \<Longrightarrow> (memcmp a b < 0 \<longleftrightarrow> lex_less a b) \<and> (memcmp a b = 0 \<longleftrightarrow> a = b)"
  by (induction a b rule: list_induct2) auto

lemma lex_less_take:
  assumes "n \<le> length a" "n \<le> length b"
  shows "lex_less (take n a) (take n b) \<Longrightarrow> lex_less a b"
    and "take n a = take n b \<Longrightarrow> lex_less a b \<longleftrightarrow> lex_less (drop n a) (drop n b)"
proof -
  show "lex_less (take n a) (take n b) \<Longrightarrow> lex_less a b"
    using lex_less_pad [of n a b] assms by (simp add: padn_def)
  assume "take n a = take n b"
  then have "a = take n a @ drop n a" "b = take n a @ drop n b" by (metis append_take_drop_id)+
  then show "lex_less a b \<longleftrightarrow> lex_less (drop n a) (drop n b)" by (metis lex_less_append_same)
qed

text \<open>
  The comparison of strings (\<open>String_generic::compare\<close>, which compares a common
  prefix with \<open>memcmp\<close> and then the lengths) is the lexicographic order of byte strings,
  and that order is total.
\<close>

theorem str_compare_lex:
  "(str_compare a b < 0 \<longleftrightarrow> lex_less a b) \<and> (str_compare a b = 0 \<longleftrightarrow> a = b) \<and> (0 < str_compare a b \<longleftrightarrow> lex_less b a)"
proof -
  let ?n = "min (length a) (length b)"
  have len: "length (take ?n a) = length (take ?n b)" by simp
  note m = memcmp_lex [OF len]
  have core: "(str_compare a b < 0 \<longleftrightarrow> lex_less a b) \<and> (str_compare a b = 0 \<longleftrightarrow> a = b)"
  proof (cases "memcmp (take ?n a) (take ?n b) = 0")
    case False
    then have ne: "take ?n a \<noteq> take ?n b" using m by blast
    have c: "str_compare a b = memcmp (take ?n a) (take ?n b)" using False by (simp add: str_compare_def Let_def)
    have "lex_less a b \<longleftrightarrow> lex_less (take ?n a) (take ?n b)"
      using lex_less_take(1) [of ?n a b] lex_less_take(1) [of ?n b a] lex_less_total [of "take ?n a" "take ?n b"] ne
        lex_less_asym [of a b] by auto
    then show ?thesis using m ne c False by auto
  next
    case True
    then have t: "take ?n a = take ?n b" using m by blast
    have c: "str_compare a b = int (length a) - int (length b)" using True by (simp add: str_compare_def Let_def)
    have "lex_less a b \<longleftrightarrow> lex_less (drop ?n a) (drop ?n b)" using lex_less_take(2) [OF _ _ t] by simp
    also have "\<dots> \<longleftrightarrow> length a < length b" by (cases "length a \<le> length b") (auto simp: neq_Nil_conv min_def)
    moreover have "a = b \<longleftrightarrow> length a = length b" using t by (metis min.idem take_all_iff order_refl)
    ultimately show ?thesis using c by auto
  qed
  then show ?thesis using lex_less_total [of a b] lex_less_asym [of a b] lex_less_irrefl by (metis linorder_neqE_linordered_idom not_less_iff_gr_or_eq)
qed

definition ikey_of :: "bytes \<Rightarrow> u64" where
  "ikey_of s = make_comparable s 0 (int (length s))"

lemma ikey_of_eq: "ikey_of s = le_load (rev (pad8 s))"
  by (simp add: ikey_of_def make_comparable_eq)

lemma ikey_of_less: "ikey_of a < ikey_of b \<longleftrightarrow> lex_less (pad8 a) (pad8 b)"
  by (simp add: ikey_of_eq be_load_order)

lemma ikey_of_inj: "ikey_of a = ikey_of b \<longleftrightarrow> pad8 a = pad8 b"
  by (simp add: ikey_of_eq le_load_inj)

text \<open>
  C30.  The documented contract of \<open>make_comparable\<close>: the 64-bit slices of two strings
  compare like the strings (a smaller slice means a lexicographically smaller string), and
  they are equal exactly when the first eight bytes agree up to zero padding.
\<close>

theorem make_comparable_order:
  "(ikey_of a < ikey_of b \<longrightarrow> lex_less a b) \<and> (ikey_of b < ikey_of a \<longrightarrow> lex_less b a)
   \<and> (ikey_of a = ikey_of b \<longleftrightarrow> pad8 a = pad8 b)"
  by (auto simp: ikey_of_less ikey_of_inj pad8_padn dest: lex_less_pad)

theorem make_comparable_order_witness:
  "ikey_of [97, 98] < ikey_of [97, 99, 1] \<and> lex_less [97, 98] [97, 99, 1]"
  using make_comparable_order [of "[97, 98]" "[97, 99, 1]"] by (simp add: ikey_of_less pad8_def)

lemma trim_zeros_spec: "trim_zeros u l \<le> l \<and> (\<forall>i. trim_zeros u l \<le> i \<and> i < l \<longrightarrow> u ! i = 0)
    \<and> (trim_zeros u l = 0 \<or> u ! (trim_zeros u l - 1) \<noteq> 0)"
proof (induction l)
  case (Suc l)
  then show ?case by (auto simp: less_Suc_eq)
qed simp

lemma le_store_ikey: "le_store (host_to_net_order (ikey_of s)) = pad8 s"
  by (simp add: host_to_net_order_def ikey_of_eq le_store_load)

text \<open>
  Round trip of slices: unparsing the slice of a string with the string's length gives
  the string's first bytes back, up to the length, the slice size and the buffer; without a
  length it gives the first eight bytes less trailing null bytes.
\<close>

theorem unparse_comparable_roundtrip:
  "unparse_comparable_len buflen (ikey_of s) (length s) = take (min 8 buflen) s
   \<and> (8 \<le> buflen \<longrightarrow> (\<exists>k. unparse_comparable buflen (ikey_of s) @ replicate k 0 = pad8 s)
          \<and> (unparse_comparable buflen (ikey_of s) \<noteq> [] \<longrightarrow> last (unparse_comparable buflen (ikey_of s)) \<noteq> 0))"
proof (intro conjI impI)
  have "take (min (min (length s) 8) buflen) (pad8 s) = take (min 8 buflen) s"
    by (auto simp: pad8_def min_def)
  then show "unparse_comparable_len buflen (ikey_of s) (length s) = take (min 8 buflen) s"
    by (simp add: unparse_comparable_len_def Let_def le_store_ikey slice_size_def)
  let ?l = "trim_zeros (pad8 s) 8"
  note t = trim_zeros_spec [of "pad8 s" 8]
  assume "8 \<le> buflen"
  then have u: "unparse_comparable buflen (ikey_of s) = take ?l (pad8 s)"
    using t by (simp add: unparse_comparable_def Let_def le_store_ikey slice_size_def min_def)
  have "take ?l (pad8 s) @ replicate (8 - ?l) 0 = pad8 s"
    using t by (intro nth_equalityI) (auto simp: nth_append)
  then show "\<exists>k. unparse_comparable buflen (ikey_of s) @ replicate k 0 = pad8 s" using u by metis
  show "last (unparse_comparable buflen (ikey_of s)) \<noteq> 0" if "unparse_comparable buflen (ikey_of s) \<noteq> []"
    using t u that by (auto simp: last_conv_nth min_def)
qed

theorem unparse_comparable_roundtrip_witness:
  "unparse_comparable_len 20 (ikey_of [104, 105, 0]) (length [104 :: u8, 105, 0]) = [104, 105, 0]"
  using unparse_comparable_roundtrip [of 20 "[104, 105, 0]"] by simp

lemma push_bit_zero_iff: "k \<le> 64 \<Longrightarrow> push_bit k w = 0 \<longleftrightarrow> take_bit (64 - k) w = 0" for w :: u64
proof
  assume k: "k \<le> 64" and z: "push_bit k w = 0"
  show "take_bit (64 - k) w = 0"
  proof (rule bit_word_eqI)
    fix n
    have "\<not> bit (push_bit k w) (k + n)" using z by simp
    then show "bit (take_bit (64 - k) w) n = bit 0 n"
      using k by (auto simp: bit_take_bit_iff bit_push_bit_iff)
  qed
next
  assume k: "k \<le> 64" and z: "take_bit (64 - k) w = 0"
  show "push_bit k w = 0"
  proof (rule bit_word_eqI)
    fix n assume "n < LENGTH(64)"
    have "\<not> bit (take_bit (64 - k) w) (n - k)" using z by simp
    then show "bit (push_bit k w) n = bit 0 n"
      using k \<open>n < LENGTH(64)\<close> by (auto simp: bit_take_bit_iff bit_push_bit_iff)
  qed
qed

lemma take_bit_load: "length xs = 8 \<Longrightarrow> n \<le> 8 \<Longrightarrow> unat (take_bit (8 * n) (le_load xs)) = le_nat (take n xs)"
proof -
  assume l: "length xs = 8" and n: "n \<le> 8"
  have e: "le_nat xs = le_nat (take n xs) + 256 ^ n * le_nat (drop n xs)"
    using le_nat_append [of "take n xs" "drop n xs"] l n by (simp add: min_def)
  have b: "le_nat (take n xs) < 256 ^ n" using le_nat_bound [of "take n xs"] l n by (simp add: min_def)
  have "unat (take_bit (8 * n) (le_load xs)) = le_nat xs mod 256 ^ n"
    using l by (simp add: unsigned_take_bit_eq take_bit_eq_mod [where 'a = nat] unat_le_load power_mult)
  then show ?thesis using e b by simp
qed

lemma le_nat_inj: "length xs = length ys \<Longrightarrow> le_nat xs = le_nat ys \<longleftrightarrow> xs = ys"
  using be_order [of "rev xs" "rev ys"] be_order [of "rev ys" "rev xs"] lex_less_total [of "rev xs" "rev ys"]
  by auto

text \<open>
  \<open>equals_sloppy\<close> gives the result of comparing the two strings' first \<open>len\<close> bytes,
  as its comment says, wherever eight bytes can be read from both pointers, although it
  reads bytes beyond the strings when they are short.
\<close>

theorem equals_sloppy_correct:
  assumes "ao + 8 \<le> length a" "bo + 8 \<le> length b"
  shows "equals_sloppy a ao b bo len \<longleftrightarrow> take (nat len) (drop ao a) = take (nat len) (drop bo b)"
proof (cases "0 < len \<and> len \<le> 8")
  case True
  define n where "n = nat len"
  let ?x = "take 8 (drop ao a)" and ?y = "take 8 (drop bo b)"
  have n: "0 < n" "n \<le> 8" using True by (auto simp: n_def)
  have l: "length ?x = 8" "length ?y = 8" using assms by simp_all
  have "64 - 8 * (8 - n) = 8 * n" using n by simp
  then have "equals_sloppy a ao b bo len \<longleftrightarrow> take_bit (8 * n) (le_load ?x XOR le_load ?y) = 0"
    using True n push_bit_zero_iff [of "8 * (8 - n)" "le_load ?x XOR le_load ?y"]
    by (simp add: equals_sloppy_def slice_size_def load_at_def flip: n_def)
  also have "\<dots> \<longleftrightarrow> take_bit (8 * n) (le_load ?x) = take_bit (8 * n) (le_load ?y)"
    by (auto simp: bit_eq_iff bit_xor_iff bit_take_bit_iff)
  also have "\<dots> \<longleftrightarrow> le_nat (take n ?x) = le_nat (take n ?y)"
    using take_bit_load l n by (simp only: word_unat_eq_iff)
  also have "\<dots> \<longleftrightarrow> take n ?x = take n ?y" by (rule le_nat_inj) (use l in simp)
  finally show ?thesis using n by (simp add: min_def flip: n_def)
qed (auto simp: equals_sloppy_def slice_size_def Let_def)

theorem equals_sloppy_correct_witness:
  "equals_sloppy [1, 2, 3, 4, 5, 6, 7, 8] 0 [1, 2, 9, 9, 9, 9, 9, 9, 9] 0 2"
  using equals_sloppy_correct [of 0 "[1, 2, 3, 4, 5, 6, 7, 8]" 0 "[1, 2, 9, 9, 9, 9, 9, 9, 9]" 2] by simp

end
