(* ===== verification/Stringbag.thy ===== *)
theory Stringbag
  imports String_Slice
begin

text \<open>
  The bag of key suffixes of a leaf (\<open>stringbag.hh\<close>): up to \<open>width\<close> strings in one piece of
  memory that starts with the bag's own bookkeeping.  Offsets are \<open>w\<close>-bit numbers (\<open>w = 8\<close>
  for the bag inside a leaf, \<open>w = 16\<close> for an external one), stored modulo \<open>2 ^ w\<close>.
\<close>

record bag =
  bsize :: nat
  bcapacity :: nat
  binfo :: "(nat \<times> nat) list"
  bmem :: bytes

definition bag_slice_size :: nat where "bag_slice_size = 8"

definition max_size :: "nat \<Rightarrow> nat" where
  "max_size w = 2 ^ w"

definition overhead :: "nat \<Rightarrow> nat \<Rightarrow> nat" where
  "overhead w width = 2 * (w div 8) + width * (2 * (w div 8))"

definition safe_size :: "nat \<Rightarrow> nat \<Rightarrow> nat \<Rightarrow> nat" where
  "safe_size w width len = overhead w width + len + bag_slice_size - 1"

definition bag_make :: "nat \<Rightarrow> nat \<Rightarrow> bytes \<Rightarrow> bag option" where
  "bag_make w width mem =
     (let firstpos = overhead w width; capacity = length mem
      in if capacity \<ge> firstpos \<and> capacity \<le> max_size w then
           Some \<lparr>bsize = firstpos mod 2 ^ w, bcapacity = (capacity - 1) mod 2 ^ w,
             binfo = replicate width (0, 0), bmem = mem\<rparr>
         else None)"

definition capacity :: "bag \<Rightarrow> nat" where
  "capacity b = bcapacity b + 1"

definition used_capacity :: "bag \<Rightarrow> nat" where
  "used_capacity b = bsize b"

definition bag_get :: "bag \<Rightarrow> nat \<Rightarrow> bytes" where
  "bag_get b p = (let (pos, len) = binfo b ! p in take len (drop pos (bmem b)))"

definition bag_assign :: "nat \<Rightarrow> nat \<Rightarrow> bytes \<Rightarrow> bag \<Rightarrow> bool \<times> bag" where
  "bag_assign w p s b =
     (let len = length s; mylen = snd (binfo b ! p)
      in if mylen \<ge> len then
           let pos = fst (binfo b ! p)
           in (True, b\<lparr>bmem := buf_write (bmem b) pos s, binfo := (binfo b)[p := (pos mod 2 ^ w, len mod 2 ^ w)]\<rparr>)
         else if bsize b + max len bag_slice_size \<le> capacity b then
           let pos = bsize b
           in (True, b\<lparr>bsize := (bsize b + len) mod 2 ^ w, bmem := buf_write (bmem b) pos s,
                 binfo := (binfo b)[p := (pos mod 2 ^ w, len mod 2 ^ w)]\<rparr>)
         else (False, b))"

section \<open>Invariant\<close>

definition info_ok :: "nat \<Rightarrow> nat \<Rightarrow> bag \<Rightarrow> nat \<times> nat \<Rightarrow> bool" where
  "info_ok w width b info \<longleftrightarrow> (case info of (pos, len) \<Rightarrow> pos \<le> capacity b \<and> (len = 0
     \<or> overhead w width \<le> pos \<and> pos + len \<le> bsize b \<and> pos + bag_slice_size \<le> capacity b))"

definition disjoint_info :: "nat \<times> nat \<Rightarrow> nat \<times> nat \<Rightarrow> bool" where
  "disjoint_info a b \<longleftrightarrow> snd a = 0 \<or> snd b = 0 \<or> fst a + snd a \<le> fst b \<or> fst b + snd b \<le> fst a"

definition bag_wf :: "nat \<Rightarrow> nat \<Rightarrow> bag \<Rightarrow> bool" where
  "bag_wf w width b \<longleftrightarrow> capacity b < 2 ^ w \<and> length (bmem b) = capacity b \<and> length (binfo b) = width
     \<and> overhead w width \<le> bsize b \<and> bsize b \<le> capacity b
     \<and> (\<forall>p<width. info_ok w width b (binfo b ! p))
     \<and> (\<forall>p<width. \<forall>q<width. p \<noteq> q \<longrightarrow> disjoint_info (binfo b ! p) (binfo b ! q))"

lemma bag_make_wf:
  assumes "overhead w width \<le> length mem" "length mem < 2 ^ w" "0 < length mem"
  shows "\<exists>b. bag_make w width mem = Some b \<and> bag_wf w width b \<and> capacity b = length mem \<and> bsize b = overhead w width"
  using assms by (auto simp: bag_make_def Let_def max_size_def bag_wf_def capacity_def info_ok_def disjoint_info_def)

lemma bag_assign_cases:
  assumes "bag_wf w width b" "p < width" "bag_assign w p s b = (r, b')"
  obtains (fail) "\<not> r" "b' = b" "snd (binfo b ! p) < length s" "capacity b < bsize b + max (length s) bag_slice_size"
    | (reuse) pos where "r" "length s \<le> snd (binfo b ! p)" "pos = fst (binfo b ! p)"
      "b' = b\<lparr>bmem := buf_write (bmem b) pos s, binfo := (binfo b)[p := (pos, length s)]\<rparr>"
    | (fresh) "r" "bsize b + max (length s) bag_slice_size \<le> capacity b" "snd (binfo b ! p) < length s"
      "b' = b\<lparr>bsize := bsize b + length s, bmem := buf_write (bmem b) (bsize b) s, binfo := (binfo b)[p := (bsize b, length s)]\<rparr>"
proof -
  have cap: "capacity b < 2 ^ w" using assms(1) by (simp add: bag_wf_def)
  show ?thesis
  proof (cases "length s \<le> snd (binfo b ! p)")
    case True
    have "info_ok w width b (binfo b ! p)" using assms by (simp add: bag_wf_def)
    then have "fst (binfo b ! p) < 2 ^ w" "length s < 2 ^ w"
      using True assms(1) cap by (auto simp: info_ok_def bag_wf_def split: prod.splits)
    then show ?thesis using assms(3) True reuse [of "fst (binfo b ! p)"]
      by (auto simp: bag_assign_def Let_def split: if_splits)
  next
    case False
    then show ?thesis using assms(3) cap fail fresh
      by (auto simp: bag_assign_def Let_def split: if_splits)
  qed
qed

lemma bag_get_eq: "binfo b ! p = (pos, len) \<Longrightarrow> bag_get b p = take len (drop pos (bmem b))"
  by (simp add: bag_get_def)

lemma bag_update_wf:
  assumes wf: "bag_wf w width b" and p: "p < width"
    and fit: "s \<noteq> [] \<Longrightarrow> pos + length s \<le> sz" "pos + length s \<le> capacity b" "pos \<le> capacity b" "bsize b \<le> sz" "sz \<le> capacity b"
    and new: "s \<noteq> [] \<Longrightarrow> overhead w width \<le> pos \<and> pos + bag_slice_size \<le> capacity b"
    and disj: "\<And>q. q < width \<Longrightarrow> q \<noteq> p \<Longrightarrow> disjoint_info (pos, length s) (binfo b ! q)"
  defines "b' \<equiv> b\<lparr>bsize := sz, bmem := buf_write (bmem b) pos s, binfo := (binfo b)[p := (pos, length s)]\<rparr>"
  shows "bag_wf w width b'" "bag_get b' p = s" "q < width \<Longrightarrow> q \<noteq> p \<Longrightarrow> bag_get b' q = bag_get b q"
proof -
  have len: "length (binfo b) = width" "length (bmem b) = capacity b" using wf by (auto simp: bag_wf_def)
  have cap: "capacity b' = capacity b" by (simp add: b'_def capacity_def)
  have ok: "info_ok w width b' (binfo b ! q)" if "q < width" for q
    using wf that fit(4) by (auto simp: bag_wf_def info_ok_def b'_def capacity_def split: prod.splits)
  have okp: "info_ok w width b' (pos, length s)" using fit new cap by (auto simp: info_ok_def b'_def)
  have sym: "disjoint_info x y = disjoint_info y x" for x y by (auto simp: disjoint_info_def)
  have nth: "binfo b' ! q = (if q = p then (pos, length s) else binfo b ! q)" if "q < width" for q
    using that p len by (simp add: b'_def)
  show "bag_wf w width b'"
    unfolding bag_wf_def
  proof (intro conjI allI impI)
    show "info_ok w width b' (binfo b' ! q)" if "q < width" for q using ok okp nth that by simp
    show "disjoint_info (binfo b' ! q) (binfo b' ! r)" if "q < width" "r < width" "q \<noteq> r" for q r
      using wf disj nth that sym by (auto simp: bag_wf_def)
  qed (use wf fit cap len in \<open>auto simp: bag_wf_def b'_def\<close>)
  show "bag_get b' p = s"
    using fit len p by (simp add: bag_get_def b'_def buf_write_same)
  assume q: "q < width" "q \<noteq> p"
  obtain qpos qlen where i: "binfo b ! q = (qpos, qlen)" by fastforce
  have "info_ok w width b (binfo b ! q)" using wf q by (simp add: bag_wf_def)
  then have le: "qlen = 0 \<or> qpos + qlen \<le> capacity b" using i wf by (auto simp: info_ok_def bag_wf_def)
  have d: "disjoint_info (pos, length s) (qpos, qlen)" using disj [OF q] i by simp
  have "take qlen (drop qpos (buf_write (bmem b) pos s)) = take qlen (drop qpos (bmem b))"
  proof (cases "qlen = 0 \<or> s = []")
    case True
    then show ?thesis by (auto simp: buf_write_Nil)
  next
    case False
    then show ?thesis using d le len(2) fit(2)
      by (intro buf_write_other) (auto simp: disjoint_info_def)
  qed
  then show "bag_get b' q = bag_get b q" using q i by (simp add: bag_get_def b'_def)
qed

lemma stringbag_assign_core:
  assumes "bag_wf w width b" "p < width" "bag_assign w p s b = (r, b')"
  shows "bag_wf w width b' \<and> capacity b' = capacity b
    \<and> (if r then bag_get b' p = s \<and> (\<forall>q<width. q \<noteq> p \<longrightarrow> bag_get b' q = bag_get b q)
       else b' = b \<and> capacity b < bsize b + max (length s) bag_slice_size)"
  using assms
proof (cases rule: bag_assign_cases)
  case fail
  then show ?thesis using assms(1) by simp
next
  case (reuse pos)
  have info: "info_ok w width b (binfo b ! p)" and sz: "bsize b \<le> capacity b"
    and dj: "\<And>q. q < width \<Longrightarrow> q \<noteq> p \<Longrightarrow> disjoint_info (binfo b ! p) (binfo b ! q)"
    using assms(1,2) by (auto simp: bag_wf_def)
  have b': "b' = b\<lparr>bsize := bsize b, bmem := buf_write (bmem b) pos s, binfo := (binfo b)[p := (pos, length s)]\<rparr>"
    using reuse(4) by simp
  have pre: "s \<noteq> [] \<Longrightarrow> overhead w width \<le> pos \<and> pos + length s \<le> bsize b \<and> pos + bag_slice_size \<le> capacity b"
    "pos \<le> capacity b"
    using info reuse(2,3) by (auto simp: info_ok_def split: prod.splits)
  have dj': "disjoint_info (pos, length s) (binfo b ! q)" if "q < width" "q \<noteq> p" for q
    using dj [OF that] reuse(2,3) by (auto simp: disjoint_info_def)
  have "pos + length s \<le> capacity b" using pre sz by (cases "s = []") auto
  then have u: "bag_wf w width b'" "bag_get b' p = s" "\<And>q. q < width \<Longrightarrow> q \<noteq> p \<Longrightarrow> bag_get b' q = bag_get b q"
    unfolding b' using pre sz dj'
    by (intro bag_update_wf [OF assms(1,2), of s pos "bsize b"]; blast)+
  then show ?thesis using reuse(1) b' by (simp add: capacity_def)
next
  case fresh
  have infos: "info_ok w width b (binfo b ! q)" if "q < width" for q
    using assms(1) that by (auto simp: bag_wf_def)
  have dj: "disjoint_info (bsize b, length s) (binfo b ! q)" if "q < width" "q \<noteq> p" for q
    using infos [OF that(1)] by (auto simp: info_ok_def disjoint_info_def split: prod.splits)
  have "overhead w width \<le> bsize b" using assms(1) by (simp add: bag_wf_def)
  moreover have "bsize b + length s \<le> capacity b" "bsize b + bag_slice_size \<le> capacity b" "bsize b \<le> capacity b"
    using fresh(2) by linarith+
  ultimately have u: "bag_wf w width b'" "bag_get b' p = s" "\<And>q. q < width \<Longrightarrow> q \<noteq> p \<Longrightarrow> bag_get b' q = bag_get b q"
    unfolding fresh(4) using dj
    by (intro bag_update_wf [OF assms(1,2), of s "bsize b" "bsize b + length s"]; simp; fail)+
  then show ?thesis using fresh(1,4) by (simp add: capacity_def)
qed

text \<open>
  C32.  Assigning a suffix.  In a bag whose capacity is below the largest the offset type
  allows, a successful \<open>assign\<close> makes position \<open>p\<close> hold exactly the string and leaves every
  other position as it was, a failing one changes nothing, and the bag stays well-formed:
  strings lie disjoint behind the bookkeeping, inside the capacity, each with eight readable
  bytes behind its start (what \<open>equals_sloppy\<close> needs).  It fails only for lack of space.
\<close>

theorem stringbag_assign_get:
  assumes "bag_wf w width b" "p < width" "bag_assign w p s b = (r, b')"
  shows "bag_wf w width b' \<and> capacity b' = capacity b
    \<and> (if r then bag_get b' p = s \<and> (\<forall>q<width. q \<noteq> p \<longrightarrow> bag_get b' q = bag_get b q)
       else b' = b \<and> capacity b < bsize b + max (length s) bag_slice_size)"
  by (rule stringbag_assign_core [OF assms])

definition demo_bag :: bag where
  "demo_bag = \<lparr>bsize = 10, bcapacity = 63, binfo = replicate 4 (0, 0), bmem = replicate 64 0\<rparr>"

lemma demo_bag_wf: "bag_wf 8 4 demo_bag"
proof -
  have "bag_make 8 4 (replicate 64 0) = Some demo_bag"
    by (simp add: bag_make_def demo_bag_def overhead_def max_size_def)
  then show ?thesis using bag_make_wf [of 8 4 "replicate 64 0"] by (simp add: overhead_def)
qed

theorem stringbag_assign_get_witness:
  "bag_get (snd (bag_assign 8 1 [104, 105] demo_bag)) 1 = [104, 105]"
proof -
  obtain r b' where a: "bag_assign 8 1 [104, 105] demo_bag = (r, b')" by fastforce
  moreover have "r" using a by (auto simp: bag_assign_def demo_bag_def capacity_def bag_slice_size_def)
  ultimately show ?thesis using stringbag_assign_get [OF demo_bag_wf _ a] by simp
qed

section \<open>Enough space\<close>

fun bag_assign_all :: "nat \<Rightarrow> (nat \<times> bytes) list \<Rightarrow> bag \<Rightarrow> bool \<times> bag" where
  "bag_assign_all w [] b = (True, b)"
| "bag_assign_all w ((p, s) # ps) b =
     (let (r, b') = bag_assign w p s b; (r', b'') = bag_assign_all w ps b' in (r \<and> r', b''))"

lemma bag_assign_room:
  assumes "bag_wf w width b" "p < width" "bsize b + length s + bag_slice_size - 1 \<le> capacity b"
  shows "\<exists>b'. bag_assign w p s b = (True, b') \<and> bsize b' \<le> bsize b + length s"
proof -
  obtain r b' where a: "bag_assign w p s b = (r, b')" by fastforce
  from assms(1,2) a show ?thesis
  proof (cases rule: bag_assign_cases)
    case fail
    then show ?thesis using assms(3) by (auto simp: bag_slice_size_def max_def split: if_splits)
  qed (use a in auto)
qed

lemma bag_assign_all_room:
  assumes "bag_wf w width b" "\<forall>(p, s) \<in> set ps. p < width" "distinct (map fst ps)"
    "bsize b + sum_list (map (length \<circ> snd) ps) + bag_slice_size - 1 \<le> capacity b"
  shows "\<exists>b'. bag_assign_all w ps b = (True, b') \<and> bag_wf w width b' \<and> capacity b' = capacity b
    \<and> (\<forall>(p, s) \<in> set ps. bag_get b' p = s) \<and> (\<forall>q<width. q \<notin> fst ` set ps \<longrightarrow> bag_get b' q = bag_get b q)"
  using assms
proof (induction ps arbitrary: b)
  case (Cons ps1 ps)
  obtain p s where ps1: "ps1 = (p, s)" by fastforce
  have p: "p < width" using Cons.prems ps1 by simp
  obtain b1 where b1: "bag_assign w p s b = (True, b1)" "bsize b1 \<le> bsize b + length s"
    using bag_assign_room [OF Cons.prems(1) p, of s] Cons.prems(4) ps1 by (auto simp: bag_slice_size_def)
  have a: "bag_wf w width b1" "capacity b1 = capacity b" "bag_get b1 p = s"
    "\<forall>q<width. q \<noteq> p \<longrightarrow> bag_get b1 q = bag_get b q"
    using stringbag_assign_core [OF Cons.prems(1) p b1(1)] by auto
  obtain b2 where b2: "bag_assign_all w ps b1 = (True, b2)" "bag_wf w width b2" "capacity b2 = capacity b1"
    "\<forall>(p, s) \<in> set ps. bag_get b2 p = s" "\<forall>q<width. q \<notin> fst ` set ps \<longrightarrow> bag_get b2 q = bag_get b1 q"
    using Cons.IH [of b1] a b1(2) Cons.prems ps1 by (auto simp: bag_slice_size_def)
  have "p \<notin> fst ` set ps" using Cons.prems(3) ps1 by simp
  then show ?case using b1 b2 a p ps1 by (auto simp: Let_def)
qed auto

text \<open>
  \<open>safe_size\<close> is safe: a bag built with that capacity for strings of \<open>len\<close> bytes in
  total takes all of them, in any order, and then holds each of them.  This is what the
  assertions of \<open>leaf::assign_ksuf\<close> rely on when it copies the suffixes to a new bag.
\<close>

theorem stringbag_safe_size:
  assumes "\<forall>(p, s) \<in> set ps. p < width" "distinct (map fst ps)" "len = sum_list (map (length \<circ> snd) ps)"
    "safe_size w width len \<le> length mem" "length mem < 2 ^ w"
  shows "\<exists>b b'. bag_make w width mem = Some b \<and> bag_assign_all w ps b = (True, b')
    \<and> (\<forall>(p, s) \<in> set ps. bag_get b' p = s)"
proof -
  have m: "overhead w width \<le> length mem" "0 < length mem" using assms(4) by (auto simp: safe_size_def bag_slice_size_def)
  obtain b where b: "bag_make w width mem = Some b" "bag_wf w width b" "capacity b = length mem" "bsize b = overhead w width"
    using bag_make_wf [OF m(1) assms(5) m(2)] by blast
  have "bsize b + sum_list (map (length \<circ> snd) ps) + bag_slice_size - 1 \<le> capacity b"
    using assms(3,4) b by (simp add: safe_size_def)
  from bag_assign_all_room [OF b(2) assms(1,2) this] b(1) show ?thesis by blast
qed

theorem stringbag_safe_size_witness:
  "\<exists>b b'. bag_make 8 4 (replicate 64 0) = Some b \<and> bag_assign_all 8 [(2, [1, 2, 3]), (0, [4])] b = (True, b')
    \<and> bag_get b' 2 = [1, 2, 3]"
  using stringbag_safe_size [of "[(2, [1, 2, 3]), (0, [4])]" 4 4 8 "replicate 64 0"]
  by (auto simp: safe_size_def overhead_def bag_slice_size_def)


end
