(* ===== verification/Nodes.thy ===== *)
theory Nodes
  imports Kpermuter Nodeversion Incll_Lv Stringbag
begin

text \<open>
  The nodes of the tree as \<open>masstree_struct.hh\<close> lays them out: \<open>node_base\<close> with its two
  subclasses \<open>leaf\<close> and \<open>internode\<close> for leaf and internode width 14 and 15, and the
  persistence operations of these classes: the in-cache-line logs of a leaf
  (\<open>save_cl0_insert\<close>, \<open>save_cl1_2_update\<close>, \<open>undo_incll\<close>), the calls of the external logger
  (\<open>record_node\<close>) and the repair of a node after a crash (\<open>fix_all\<close>, \<open>fix_lock\<close>).
  Pointers are 64-bit addresses with 0 for null; \<open>ge\<close> stands for \<open>globalepoch\<close>, \<open>fe\<close> for
  \<open>failedepoch\<close>.  An operation that calls the external logger returns the node and the
  copy of the node the logger takes, if it takes one.
\<close>

section \<open>Node layout\<close>

record node_base =
  vword :: u32
  not_logged :: bool
  cl0_idx :: u8
  loggedepoch :: u64

record leaf = node_base +
  extrasize64 :: int
  modstate :: u8
  keylenx :: "u8 list"
  permutation :: u64
  perm_cl0 :: u64
  ksuf :: u64
  ikey0 :: "u64 list"
  next_ptr :: u64
  prev_ptr :: u64
  parent_ptr :: u64
  lv_cl1 :: u64
  lv :: "u64 list"
  lv_cl2 :: u64
  iksuf :: bag

record internode = node_base +
  nkeys :: u8
  height :: u32
  ikeys :: "u64 list"
  child :: "u64 list"
  iparent :: u64

datatype node = Leaf leaf | Internode internode

definition leaf_width :: nat where "leaf_width = 14"
definition internode_width :: nat where "internode_width = 15"

definition modstate_insert :: u8 where "modstate_insert = 0"
definition modstate_remove :: u8 where "modstate_remove = 1"
definition modstate_deleted_layer :: u8 where "modstate_deleted_layer = 2"

definition ksuf_keylenx :: u8 where "ksuf_keylenx = 64"
definition layer_keylenx :: u8 where "layer_keylenx = 128"
definition invalid_idx :: u8 where "invalid_idx = 7"

definition sizeof_leaf :: nat where "sizeof_leaf = 328"
definition sizeof_internode :: nat where "sizeof_internode = 280"

section \<open>Construction and size\<close>

definition leaf_size :: "leaf \<Rightarrow> nat" where
  "leaf_size l = kp_size (permutation l)"

definition leaf_new :: "u64 \<Rightarrow> nat \<Rightarrow> leaf \<Rightarrow> leaf option" where
  "leaf_new ge sz raw =
     (let es = int (sz div 64) - int ((sizeof_leaf + 63) div 64);
          l = raw
            \<lparr>vword := nodeversion True, loggedepoch := ge, modstate := modstate_insert,
             permutation := make_empty leaf_width, ksuf := 0, parent_ptr := 0,
             lv_cl1 := incll_lv_init ge, lv_cl2 := incll_lv_init ge,
             extrasize64 := es, not_logged := False, cl0_idx := invalid_idx\<rparr>
      in if es > 0 then
           (case bag_make 8 leaf_width (replicate (sz - sizeof_leaf) 0) of
              Some b \<Rightarrow> Some (l\<lparr>iksuf := b\<rparr>) | None \<Rightarrow> None)
         else Some l)"

definition internode_new :: "u64 \<Rightarrow> u32 \<Rightarrow> internode \<Rightarrow> internode" where
  "internode_new ge h raw = raw
     \<lparr>vword := nodeversion False, loggedepoch := ge, nkeys := 0, height := h, iparent := 0\<rparr>"

definition iceil :: "nat \<Rightarrow> nat \<Rightarrow> nat" where
  "iceil x y = (let m = x mod y in if m = 0 then x else x + (y - m))"

definition leaf_alloc_request :: "nat \<Rightarrow> nat" where
  "leaf_alloc_request ksufsize = iceil (sizeof_leaf + min ksufsize 128) 64"

definition leaf_allocated_size :: "leaf \<Rightarrow> nat" where
  "leaf_allocated_size l =
     (let es = (if extrasize64 l \<ge> 0 then extrasize64 l else - extrasize64 l - 1)
      in (sizeof_leaf + nat es * 64 + 63) div 64 * 64)"

definition keylenx_is_layer :: "u8 \<Rightarrow> bool" where "keylenx_is_layer k \<longleftrightarrow> 127 < k"
definition keylenx_has_ksuf :: "u8 \<Rightarrow> bool" where "keylenx_has_ksuf k \<longleftrightarrow> k = ksuf_keylenx"

definition full_version_value :: "leaf \<Rightarrow> u32" where
  "full_version_value l = push_bit 4 (vword l) + of_nat (leaf_size l)"

definition full_unlocked_version_value :: "leaf \<Rightarrow> u32" where
  "full_unlocked_version_value l =
     (let v = (if locked (vword l) then unlock (vword l) else vword l)
      in push_bit 4 v + of_nat (leaf_size l))"

section \<open>Persistence operations of a leaf\<close>

definition invalidate_cls :: "leaf \<Rightarrow> leaf" where
  "invalidate_cls l = l\<lparr>cl0_idx := invalid_idx, lv_cl1 := invalidate_cl (lv_cl1 l),
     lv_cl2 := invalidate_cl (lv_cl2 l)\<rparr>"

definition update_epochs :: "u64 \<Rightarrow> leaf \<Rightarrow> leaf" where
  "update_epochs e l = l\<lparr>loggedepoch := e, lv_cl1 := set_cl_loggedepoch e (lv_cl1 l),
     lv_cl2 := set_cl_loggedepoch e (lv_cl2 l)\<rparr>"

definition update_loggedepoch :: "u64 \<Rightarrow> leaf \<Rightarrow> leaf" where
  "update_loggedepoch e l = l\<lparr>loggedepoch := e\<rparr>"

definition record_node :: "u64 \<Rightarrow> leaf \<Rightarrow> leaf \<times> leaf option" where
  "record_node ge l =
     (if loggedepoch l \<noteq> ge \<or> not_logged l then
        let l1 = l\<lparr>not_logged := False\<rparr>
        in (invalidate_cls (l1\<lparr>loggedepoch := ge\<rparr>), Some l1)
      else (l, None))"

definition save_cl0_insert :: "u64 \<Rightarrow> leaf \<Rightarrow> leaf \<times> leaf option" where
  "save_cl0_insert ge l =
     (if loggedepoch l \<noteq> ge then
        ((update_epochs ge (l\<lparr>perm_cl0 := permutation l, cl0_idx := 0\<rparr>))\<lparr>not_logged := True\<rparr>, None)
      else if not_logged l then
        let l1 = l\<lparr>not_logged := False\<rparr> in (invalidate_cls l1, Some l1)
      else (l, None))"

definition save_cl1_2_update :: "u64 \<Rightarrow> nat \<Rightarrow> leaf \<Rightarrow> leaf \<times> leaf option" where
  "save_cl1_2_update ge p l =
     (if loggedepoch l \<noteq> ge then
        let l1 = (if p < key_mid then l\<lparr>lv_cl1 := set_lv_idx_ge ge (lv l ! p) p (lv_cl1 l)\<rparr>
                  else l\<lparr>lv_cl2 := set_lv_idx_ge ge (lv l ! p) (p - key_mid) (lv_cl2 l)\<rparr>)
        in ((update_epochs ge l1)\<lparr>not_logged := True\<rparr>, None)
      else if not_logged l then
        let l1 = l\<lparr>not_logged := False\<rparr> in (invalidate_cls l1, Some l1)
      else (l, None))"

definition recover_cl0 :: "leaf \<Rightarrow> leaf" where
  "recover_cl0 l = l\<lparr>permutation := perm_cl0 l\<rparr>"

definition recover_cl1 :: "leaf \<Rightarrow> leaf" where
  "recover_cl1 l = l\<lparr>lv := recover_lv (lv_cl1 l) (lv l)\<rparr>"

definition recover_cl2 :: "leaf \<Rightarrow> leaf" where
  "recover_cl2 l = l\<lparr>lv := recover_lv2 (lv_cl2 l) (lv l)\<rparr>"

definition recover_final :: "u64 \<Rightarrow> leaf \<Rightarrow> leaf" where
  "recover_final ge l = update_epochs (ge - 1) (invalidate_cls l)"

definition undo_incll :: "u64 \<Rightarrow> u64 \<Rightarrow> leaf \<Rightarrow> leaf" where
  "undo_incll ge fe l =
     (if loggedepoch l = fe \<and> cl0_idx l \<noteq> invalid_idx then recover_final ge (recover_cl0 l)
      else if cl_loggedepoch (lv_cl1 l) = fe \<and> is_cl_valid (lv_cl1 l) then recover_final ge (recover_cl1 l)
      else if cl_loggedepoch (lv_cl2 l) = fe \<and> is_cl_valid (lv_cl2 l) then recover_final ge (recover_cl2 l)
      else l)"

definition lazy_recovery :: "u64 \<Rightarrow> u64 \<Rightarrow> leaf \<Rightarrow> leaf" where
  "lazy_recovery ge fe l = (if loggedepoch l \<le> fe then undo_incll ge fe l else l)"

definition fix_insert :: "leaf \<Rightarrow> leaf" where
  "fix_insert l =
     (if inserting (vword l) \<and> modstate l = modstate_insert
      then l\<lparr>modstate := modstate_remove, vword := clear_insert (vword l)\<rparr> else l)"

definition reset_state :: "leaf \<Rightarrow> leaf" where
  "reset_state l =
     (let l1 = l\<lparr>vword := clear_version_counter_bits (vword l)\<rparr>;
          l2 = l1\<lparr>modstate := modstate_insert\<rparr>
      in l2\<lparr>vword := clear_unlock (vword l2)\<rparr>)"

definition fix_all :: "leaf \<Rightarrow> leaf" where
  "fix_all l = reset_state l"

definition fix_lock :: "'a node_base_scheme \<Rightarrow> 'a node_base_scheme" where
  "fix_lock n = (if locked (vword n) then n\<lparr>vword := clear_unlock (vword n)\<rparr> else n)"

definition internode_record_node :: "u64 \<Rightarrow> internode \<Rightarrow> internode \<times> internode option" where
  "internode_record_node ge n =
     (if loggedepoch n \<noteq> ge then (n\<lparr>loggedepoch := ge\<rparr>, Some n) else (n, None))"

definition node_record :: "u64 \<Rightarrow> node \<Rightarrow> node \<times> node option" where
  "node_record ge n =
     (case n of
        Leaf l \<Rightarrow> map_prod Leaf (map_option Leaf) (record_node ge l)
      | Internode i \<Rightarrow> map_prod Internode (map_option Internode) (internode_record_node ge i))"

end
