(* ===== verification/Incll_Leaf.thy ===== *)
theory Incll_Leaf
  imports Nodes
begin

text \<open>
  Crash consistency of one leaf within an epoch.  The persistence operations of the leaf
  and the stores of an insert, an update or a structural change are given as sequences of
  single stores with the byte offset each store has in the node, and of calls of the
  external logger.  A crash keeps, for every 64-byte cache line, some prefix of the stores
  made to that line since the epoch began (stores to one line reach memory in order, lines
  are written back independently); a node copy taken by the external logger survives.
\<close>

section \<open>Stores and cache lines\<close>

datatype lwrite =
    W_vword u32
  | W_not_logged bool
  | W_cl0_idx u8
  | W_loggedepoch u64
  | W_extrasize int
  | W_modstate u8
  | W_keylenx nat u8
  | W_permutation u64
  | W_perm_cl0 u64
  | W_ksuf u64
  | W_ikey nat u64
  | W_next u64
  | W_prev u64
  | W_parent u64
  | W_lv_cl1 u64
  | W_lv nat u64
  | W_lv_cl2 u64

fun apply_write :: "lwrite \<Rightarrow> leaf \<Rightarrow> leaf" where
  "apply_write (W_vword x) l = l\<lparr>vword := x\<rparr>"
| "apply_write (W_not_logged x) l = l\<lparr>not_logged := x\<rparr>"
| "apply_write (W_cl0_idx x) l = l\<lparr>cl0_idx := x\<rparr>"
| "apply_write (W_loggedepoch x) l = l\<lparr>loggedepoch := x\<rparr>"
| "apply_write (W_extrasize x) l = l\<lparr>extrasize64 := x\<rparr>"
| "apply_write (W_modstate x) l = l\<lparr>modstate := x\<rparr>"
| "apply_write (W_keylenx p x) l = l\<lparr>keylenx := (keylenx l)[p := x]\<rparr>"
| "apply_write (W_permutation x) l = l\<lparr>permutation := x\<rparr>"
| "apply_write (W_perm_cl0 x) l = l\<lparr>perm_cl0 := x\<rparr>"
| "apply_write (W_ksuf x) l = l\<lparr>ksuf := x\<rparr>"
| "apply_write (W_ikey p x) l = l\<lparr>ikey0 := (ikey0 l)[p := x]\<rparr>"
| "apply_write (W_next x) l = l\<lparr>next_ptr := x\<rparr>"
| "apply_write (W_prev x) l = l\<lparr>prev_ptr := x\<rparr>"
| "apply_write (W_parent x) l = l\<lparr>parent_ptr := x\<rparr>"
| "apply_write (W_lv_cl1 x) l = l\<lparr>lv_cl1 := x\<rparr>"
| "apply_write (W_lv p x) l = l\<lparr>lv := (lv l)[p := x]\<rparr>"
| "apply_write (W_lv_cl2 x) l = l\<lparr>lv_cl2 := x\<rparr>"

fun write_offset :: "lwrite \<Rightarrow> nat" where
  "write_offset (W_vword x) = 0"
| "write_offset (W_not_logged x) = 4"
| "write_offset (W_cl0_idx x) = 5"
| "write_offset (W_loggedepoch x) = 8"
| "write_offset (W_extrasize x) = 16"
| "write_offset (W_modstate x) = 17"
| "write_offset (W_keylenx p x) = 18 + p"
| "write_offset (W_permutation x) = 32"
| "write_offset (W_perm_cl0 x) = 40"
| "write_offset (W_ksuf x) = 48"
| "write_offset (W_ikey p x) = 56 + 8 * p"
| "write_offset (W_next x) = 168"
| "write_offset (W_prev x) = 176"
| "write_offset (W_parent x) = 184"
| "write_offset (W_lv_cl1 x) = 192"
| "write_offset (W_lv p x) = 200 + 8 * p"
| "write_offset (W_lv_cl2 x) = 312"

definition line_of :: "lwrite \<Rightarrow> nat" where
  "line_of w = write_offset w div 64"

text \<open>The stores that reached memory when line \<open>k\<close> lost all but its first \<open>c k\<close> stores.\<close>

fun persisted :: "(nat \<Rightarrow> nat) \<Rightarrow> lwrite list \<Rightarrow> lwrite list" where
  "persisted c [] = []"
| "persisted c (w # ws) =
     (if 0 < c (line_of w) then w # persisted (c(line_of w := c (line_of w) - 1)) ws
      else persisted c ws)"

definition crash_image :: "(nat \<Rightarrow> nat) \<Rightarrow> lwrite list \<Rightarrow> leaf \<Rightarrow> leaf" where
  "crash_image c ws l = fold apply_write (persisted c ws) l"

section \<open>The operations as stores\<close>

datatype lstep = Write lwrite | Record

definition invalidate_writes :: "leaf \<Rightarrow> lwrite list" where
  "invalidate_writes l =
     [W_cl0_idx invalid_idx, W_lv_cl1 (invalidate_cl (lv_cl1 l)), W_lv_cl2 (invalidate_cl (lv_cl2 l))]"

definition epoch_writes :: "u64 \<Rightarrow> u64 \<Rightarrow> u64 \<Rightarrow> lwrite list" where
  "epoch_writes e d1 d2 =
     [W_loggedepoch e, W_lv_cl1 (set_cl_loggedepoch e d1), W_lv_cl2 (set_cl_loggedepoch e d2)]"

definition second_save_steps :: "leaf \<Rightarrow> lstep list" where
  "second_save_steps l = [Write (W_not_logged False), Record] @ map Write (invalidate_writes l)"

definition record_node_steps :: "u64 \<Rightarrow> leaf \<Rightarrow> lstep list" where
  "record_node_steps ge l =
     (if loggedepoch l \<noteq> ge \<or> not_logged l then
        [Write (W_not_logged False), Record, Write (W_loggedepoch ge)] @ map Write (invalidate_writes l)
      else [])"

definition save_cl0_insert_steps :: "u64 \<Rightarrow> leaf \<Rightarrow> lstep list" where
  "save_cl0_insert_steps ge l =
     (if loggedepoch l \<noteq> ge then
        map Write ([W_perm_cl0 (permutation l), W_cl0_idx 0] @ epoch_writes ge (lv_cl1 l) (lv_cl2 l)
          @ [W_not_logged True])
      else if not_logged l then second_save_steps l else [])"

definition save_cl1_2_update_steps :: "u64 \<Rightarrow> nat \<Rightarrow> leaf \<Rightarrow> lstep list" where
  "save_cl1_2_update_steps ge p l =
     (if loggedepoch l \<noteq> ge then
        (if p < key_mid then
           let d = set_lv_idx_ge ge (lv l ! p) p (lv_cl1 l)
           in map Write (W_lv_cl1 d # epoch_writes ge d (lv_cl2 l) @ [W_not_logged True])
         else
           let d = set_lv_idx_ge ge (lv l ! p) (p - key_mid) (lv_cl2 l)
           in map Write (W_lv_cl2 d # epoch_writes ge (lv_cl1 l) d @ [W_not_logged True]))
      else if not_logged l then second_save_steps l else [])"

text \<open>
  The stores of the three kinds of change.  An insert of a key without suffix first makes
  slot \<open>p\<close>, the last of the permutation, hold the key (\<open>assign\<close>), then its value, then
  publishes the new permutation (\<open>finish_insert\<close>).  An update overwrites the value of a
  slot.  Everything else (remove, split, new layer) calls \<open>record_node\<close> first and may
  then store anything but the fields of the logging protocol.
\<close>

datatype leaf_op =
    Op_insert nat u64 u8 u64
  | Op_update nat u64
  | Op_modify "lwrite list"

fun is_data_write :: "lwrite \<Rightarrow> bool" where
  "is_data_write (W_not_logged x) = False"
| "is_data_write (W_cl0_idx x) = False"
| "is_data_write (W_loggedepoch x) = False"
| "is_data_write (W_perm_cl0 x) = False"
| "is_data_write (W_lv_cl1 x) = False"
| "is_data_write (W_lv_cl2 x) = False"
| "is_data_write w = True"

definition insert_writes :: "nat \<Rightarrow> u64 \<Rightarrow> u8 \<Rightarrow> u64 \<Rightarrow> leaf \<Rightarrow> lwrite list" where
  "insert_writes i k len v l =
     (let p = kp_back leaf_width (permutation l) in
      [W_lv p 0, W_ikey p k, W_keylenx p len, W_lv p v,
       W_permutation (snd (insert_from_back leaf_width i (permutation l)))])"

fun op_steps :: "u64 \<Rightarrow> leaf_op \<Rightarrow> leaf \<Rightarrow> lstep list" where
  "op_steps ge (Op_insert i k len v) l = save_cl0_insert_steps ge l @ map Write (insert_writes i k len v l)"
| "op_steps ge (Op_update p v) l = save_cl1_2_update_steps ge p l @ [Write (W_lv p v)]"
| "op_steps ge (Op_modify ws) l = record_node_steps ge l @ map Write ws"

fun op_ok :: "leaf_op \<Rightarrow> leaf \<Rightarrow> bool" where
  "op_ok (Op_insert i k len v) l \<longleftrightarrow> kp_size (permutation l) < leaf_width"
| "op_ok (Op_update p v) l \<longleftrightarrow> p < leaf_width \<and> lv_ok (lv l ! p)"
| "op_ok (Op_modify ws) l \<longleftrightarrow> list_all is_data_write ws"

section \<open>An epoch of a leaf\<close>

record run =
  cur :: leaf
  pending :: "lwrite list"
  snap :: "leaf option"

definition run_step :: "lstep \<Rightarrow> run \<Rightarrow> run" where
  "run_step st r =
     (case st of
        Write w \<Rightarrow> r\<lparr>cur := apply_write w (cur r), pending := pending r @ [w]\<rparr>
      | Record \<Rightarrow> r\<lparr>snap := Some (cur r)\<rparr>)"

definition run_op :: "u64 \<Rightarrow> leaf_op \<Rightarrow> run \<Rightarrow> run" where
  "run_op ge op r = fold run_step (op_steps ge op (cur r)) r"

definition epoch_start :: "leaf \<Rightarrow> run" where
  "epoch_start l = \<lparr>cur = l, pending = [], snap = None\<rparr>"

fun ops_ok :: "u64 \<Rightarrow> leaf_op list \<Rightarrow> run \<Rightarrow> bool" where
  "ops_ok ge [] r = True"
| "ops_ok ge (op # ops) r = (op_ok op (cur r) \<and> ops_ok ge ops (run_op ge op r))"

text \<open>What recovery makes of the leaf: the logged copy if there is one, then the in-cache-line undo.\<close>

definition recover_run :: "u64 \<Rightarrow> u64 \<Rightarrow> (nat \<Rightarrow> nat) \<Rightarrow> leaf \<Rightarrow> run \<Rightarrow> leaf" where
  "recover_run ge' fe c base r =
     lazy_recovery ge' fe
       (case snap r of Some s \<Rightarrow> fix_all s | None \<Rightarrow> crash_image c (pending r) base)"

definition leaf_view :: "leaf \<Rightarrow> (u64 \<times> u8 \<times> u64) list" where
  "leaf_view l = map (\<lambda>p. (ikey0 l ! p, keylenx l ! p, lv l ! p)) (active leaf_width (permutation l))"

definition leaf_wf :: "leaf \<Rightarrow> bool" where
  "leaf_wf l \<longleftrightarrow> length (keylenx l) = leaf_width \<and> length (ikey0 l) = leaf_width
    \<and> length (lv l) = leaf_width \<and> kp_wf leaf_width (permutation l)"

definition logs_idle :: "leaf \<Rightarrow> bool" where
  "logs_idle l \<longleftrightarrow> cl0_idx l = invalid_idx \<and> \<not> is_cl_valid (lv_cl1 l) \<and> \<not> is_cl_valid (lv_cl2 l)"

section \<open>The step sequences are the operations\<close>

lemma fold_run_writes:
  "fold run_step (map Write ws) r = r\<lparr>cur := fold apply_write ws (cur r), pending := pending r @ ws\<rparr>"
  by (induction ws arbitrary: r) (simp_all add: run_step_def)

lemma invalidate_writes_correct: "fold apply_write (invalidate_writes l) l = invalidate_cls l"
  by (simp add: invalidate_writes_def invalidate_cls_def)

definition note_snap :: "leaf option \<Rightarrow> leaf option \<Rightarrow> leaf option" where
  "note_snap old new = (case new of None \<Rightarrow> old | Some s \<Rightarrow> Some s)"

lemmas step_defs = Let_def run_step_def invalidate_cls_def invalidate_writes_def epoch_writes_def
  update_epochs_def second_save_steps_def note_snap_def

lemma record_node_steps_correct:
  "cur (fold run_step (record_node_steps ge (cur r)) r) = fst (record_node ge (cur r))
   \<and> snap (fold run_step (record_node_steps ge (cur r)) r) = note_snap (snap r) (snd (record_node ge (cur r)))"
  by (simp add: record_node_steps_def record_node_def step_defs)

lemma save_cl0_insert_steps_correct:
  "cur (fold run_step (save_cl0_insert_steps ge (cur r)) r) = fst (save_cl0_insert ge (cur r))
   \<and> snap (fold run_step (save_cl0_insert_steps ge (cur r)) r) = note_snap (snap r) (snd (save_cl0_insert ge (cur r)))"
  by (simp add: save_cl0_insert_steps_def save_cl0_insert_def step_defs)

lemma save_cl1_2_update_steps_correct:
  "cur (fold run_step (save_cl1_2_update_steps ge p (cur r)) r) = fst (save_cl1_2_update ge p (cur r))
   \<and> snap (fold run_step (save_cl1_2_update_steps ge p (cur r)) r) = note_snap (snap r) (snd (save_cl1_2_update ge p (cur r)))"
  by (simp add: save_cl1_2_update_steps_def save_cl1_2_update_def step_defs)

section \<open>Prefixes of stores\<close>

lemma persisted_subset: "set (persisted c ws) \<subseteq> set ws"
  by (induction ws arbitrary: c) auto

lemma persisted_line:
  "filter (\<lambda>w. line_of w = k) (persisted c ws) = take (c k) (filter (\<lambda>w. line_of w = k) ws)"
proof (induction ws arbitrary: c)
  case (Cons w ws)
  then show ?case by (cases "c k") auto
qed simp

lemma filter_take_prefix: "\<exists>m. filter P (take n xs) = take m (filter P xs)"
proof (induction xs arbitrary: n)
  case (Cons x xs)
  then show ?case
  proof (cases n)
    case (Suc n')
    obtain m where "filter P (take n' xs) = take m (filter P xs)" using Cons by blast
    then have "filter P (take n (x # xs)) = take (if P x then Suc m else m) (filter P (x # xs))"
      using Suc by simp
    then show ?thesis ..
  qed (auto intro: exI [of _ 0])
qed simp

lemma fold_write_induct:
  assumes "P l" "\<And>w l. w \<in> set ws \<Longrightarrow> P l \<Longrightarrow> P (apply_write w l)"
  shows "P (fold apply_write ws l)"
  using assms by (induction ws arbitrary: l) auto

lemma crash_image_induct:
  assumes "P l" "\<And>w l. w \<in> set ws \<Longrightarrow> P l \<Longrightarrow> P (apply_write w l)"
  shows "P (crash_image c (take n ws) l)"
  unfolding crash_image_def
proof (rule fold_write_induct)
  show "P l" by fact
  show "P (apply_write w l)" if "w \<in> set (persisted c (take n ws))" "P l" for w l
    using assms(2) that persisted_subset [of c "take n ws"] set_take_subset [of n ws] by blast
qed

text \<open>The part of the leaf that lies in one line, as far as the undo looks at it.\<close>

definition line_part :: "nat \<Rightarrow> leaf \<Rightarrow> u64 \<times> u8 \<times> u64 \<times> u64 \<times> u64 \<times> u64 list" where
  "line_part k l =
     (if k = 0 then (loggedepoch l, cl0_idx l, perm_cl0 l, permutation l, 0, [])
      else if k = 3 then (0, 0, 0, 0, lv_cl1 l, take 7 (lv l))
      else if k = 4 then (0, 0, 0, 0, lv_cl2 l, take 7 (drop 7 (lv l)))
      else (0, 0, 0, 0, 0, []))"

lemma line_part_0: "line_part 0 l = line_part 0 l' \<longleftrightarrow>
    loggedepoch l = loggedepoch l' \<and> cl0_idx l = cl0_idx l' \<and> perm_cl0 l = perm_cl0 l' \<and> permutation l = permutation l'"
  by (simp add: line_part_def)

lemma lv_line: "(200 + 8 * p) div 64 = 3 \<longleftrightarrow> p < 7" "(200 + 8 * p) div 64 = 4 \<longleftrightarrow> 7 \<le> p \<and> p < 15" for p :: nat
proof -
  have e: "(200 + 8 * p) div 64 = (25 + p) div 8" using div_mult_mult1 [of 8 "25 + p" 8] by simp
  show "(200 + 8 * p) div 64 = 3 \<longleftrightarrow> p < 7" unfolding e by auto
  show "(200 + 8 * p) div 64 = 4 \<longleftrightarrow> 7 \<le> p \<and> p < 15" unfolding e by auto
qed

lemma line_of_simps [simp]:
  "line_of (W_vword x) = 0" "line_of (W_not_logged b) = 0" "line_of (W_cl0_idx y) = 0" "line_of (W_loggedepoch e) = 0"
  "line_of (W_permutation e) = 0" "line_of (W_perm_cl0 e) = 0"
  "line_of (W_lv_cl1 e) = 3" "line_of (W_lv_cl2 e) = 4"
  "line_of (W_lv p e) \<noteq> 0" "line_of (W_lv p e) = 3 \<longleftrightarrow> p < 7" "line_of (W_lv p e) = 4 \<longleftrightarrow> 7 \<le> p \<and> p < 15"
  by (simp_all add: line_of_def lv_line div_eq_0_iff)

lemma line_of_keylenx: "p < leaf_width \<Longrightarrow> line_of (W_keylenx p y) = 0"
  by (simp add: line_of_def leaf_width_def)

lemma line_part_ikey [simp]: "line_part k (apply_write (W_ikey p x) l) = line_part k l"
  by (simp add: line_part_def)

lemma take_drop_update: "\<not> (7 \<le> p \<and> p < 15) \<Longrightarrow> take 7 (drop 7 (xs[p := x])) = take 7 (drop 7 xs)"
  by (cases "p < 7") (simp_all add: drop_update_cancel drop_update_swap take_update_cancel)

lemma line_part_other:
  assumes "line_of w \<noteq> k"
  shows "line_part k (apply_write w l) = line_part k l"
proof (cases w)
  case (W_lv p x)
  then show ?thesis using assms lv_line [of p] take_drop_update [of p "lv l" x]
    by (auto simp: line_part_def line_of_def take_update_cancel)
qed (use assms in \<open>simp_all add: line_part_def line_of_def\<close>)

lemma line_part_same:
  assumes "line_part k l = line_part k l'"
  shows "line_part k (apply_write w l) = line_part k (apply_write w l')"
proof (cases w)
  case (W_lv p x)
  have "take 7 (drop 7 (xs[p := x])) = (if p < 7 then take 7 (drop 7 xs) else (take 7 (drop 7 xs))[p - 7 := x])" for xs
    by (simp add: drop_update_cancel drop_update_swap take_update_swap)
  then show ?thesis using assms W_lv by (simp add: line_part_def take_update_swap split: if_splits)
qed (use assms in \<open>simp_all add: line_part_def split: if_splits\<close>)

lemma line_part_fold:
  "line_part k l = line_part k l' \<Longrightarrow>
   line_part k (fold apply_write ws l) = line_part k (fold apply_write (filter (\<lambda>w. line_of w = k) ws) l')"
proof (induction ws arbitrary: l l')
  case (Cons w ws)
  show ?case
  proof (cases "line_of w = k")
    case True
    then show ?thesis using Cons.IH [OF line_part_same [OF Cons.prems]] by simp
  next
    case False
    then show ?thesis using Cons.IH [of "apply_write w l" l'] Cons.prems by (simp add: line_part_other)
  qed
qed simp

lemma crash_image_line:
  "\<exists>m. line_part k (crash_image c (take n ws) l)
     = line_part k (fold apply_write (take m (filter (\<lambda>w. line_of w = k) ws)) l)"
proof -
  obtain m where m: "filter (\<lambda>w. line_of w = k) (take n ws) = take m (filter (\<lambda>w. line_of w = k) ws)"
    using filter_take_prefix by blast
  have "line_part k (crash_image c (take n ws) l)
      = line_part k (fold apply_write (take (min (c k) m) (filter (\<lambda>w. line_of w = k) ws)) l)"
    unfolding crash_image_def line_part_fold [OF refl, of k "persisted c (take n ws)" l] persisted_line m take_take ..
  then show ?thesis ..
qed

fun every_prefix :: "(leaf \<Rightarrow> bool) \<Rightarrow> lwrite list \<Rightarrow> leaf \<Rightarrow> bool" where
  "every_prefix P [] l = P l"
| "every_prefix P (w # ws) l = (P l \<and> every_prefix P ws (apply_write w l))"

lemma every_prefix_take: "every_prefix P ws l \<Longrightarrow> P (fold apply_write (take m ws) l)"
proof (induction ws arbitrary: l m)
  case (Cons w ws)
  then show ?case by (cases m) auto
qed simp

text \<open>A property of one line holds of every crash image if it holds after every prefix of that line's stores.\<close>

lemma crash_image_line_prop:
  assumes "every_prefix P (filter (\<lambda>w. line_of w = k) ws) l"
    and "\<And>l l'. line_part k l = line_part k l' \<Longrightarrow> P l = P l'"
  shows "P (crash_image c (take n ws) l)"
  using crash_image_line [of k c n ws l] every_prefix_take [OF assms(1)] assms(2) by metis

section \<open>Images the undo restores\<close>

definition restorable :: "u64 \<Rightarrow> leaf \<Rightarrow> leaf \<Rightarrow> bool" where
  "restorable ge base img \<longleftrightarrow> (\<forall>ge'. leaf_view (lazy_recovery ge' ge img) = leaf_view base)"

definition same_slots :: "nat set \<Rightarrow> leaf \<Rightarrow> leaf \<Rightarrow> bool" where
  "same_slots A base img \<longleftrightarrow> length (lv img) = length (lv base)
     \<and> (\<forall>s. s \<notin> A \<longrightarrow> ikey0 img ! s = ikey0 base ! s \<and> keylenx img ! s = keylenx base ! s \<and> lv img ! s = lv base ! s)"

fun touches :: "nat set \<Rightarrow> lwrite \<Rightarrow> bool" where
  "touches A (W_keylenx p x) \<longleftrightarrow> p \<in> A"
| "touches A (W_ikey p x) \<longleftrightarrow> p \<in> A"
| "touches A (W_lv p x) \<longleftrightarrow> p \<in> A"
| "touches A w = True"

lemma same_slots_write: "same_slots A base l \<Longrightarrow> touches A w \<Longrightarrow> same_slots A base (apply_write w l)"
  by (cases w) (auto simp: same_slots_def, (metis nth_list_update_neq)+)

lemma same_slots_refl [simp]: "same_slots A l l"
  by (simp add: same_slots_def)

lemma leaf_view_eq:
  assumes "same_slots A base img" "permutation img = permutation base"
    "A \<inter> set (active leaf_width (permutation base)) = {}"
  shows "leaf_view img = leaf_view base"
  using assms by (auto simp: leaf_view_def same_slots_def)

lemma leaf_view_recover_final [simp]: "leaf_view (recover_final ge l) = leaf_view l"
  by (simp add: recover_final_def update_epochs_def invalidate_cls_def leaf_view_def)

lemma restorable_idle:
  assumes "\<not> is_cl_valid (lv_cl1 img)" "\<not> is_cl_valid (lv_cl2 img)"
    "loggedepoch img \<noteq> ge \<or> cl0_idx img = invalid_idx" "leaf_view img = leaf_view base"
  shows "restorable ge base img"
  using assms by (auto simp: restorable_def lazy_recovery_def undo_incll_def)

lemma restorable_cl0:
  assumes "loggedepoch img = ge" "cl0_idx img \<noteq> invalid_idx"
    "leaf_view (img\<lparr>permutation := perm_cl0 img\<rparr>) = leaf_view base"
  shows "restorable ge base img"
  using assms by (auto simp: restorable_def lazy_recovery_def undo_incll_def recover_cl0_def)

lemma restorable_cl1:
  assumes "cl0_idx img = invalid_idx" "loggedepoch img \<le> ge" "is_cl_valid (lv_cl1 img)"
    "cl_loggedepoch (lv_cl1 img) = ge" "leaf_view (recover_cl1 img) = leaf_view base"
  shows "restorable ge base img"
  using assms by (auto simp: restorable_def lazy_recovery_def undo_incll_def)

lemma restorable_cl2:
  assumes "cl0_idx img = invalid_idx" "loggedepoch img \<le> ge" "\<not> is_cl_valid (lv_cl1 img)" "is_cl_valid (lv_cl2 img)"
    "cl_loggedepoch (lv_cl2 img) = ge" "leaf_view (recover_cl2 img) = leaf_view base"
  shows "restorable ge base img"
  using assms by (auto simp: restorable_def lazy_recovery_def undo_incll_def)

lemma restorable_fix_all: "restorable ge base (fix_all l) = restorable ge base l"
proof -
  have "leaf_view (lazy_recovery ge' ge (fix_all l)) = leaf_view (lazy_recovery ge' ge l)" for ge'
    by (simp add: fix_all_def reset_state_def lazy_recovery_def undo_incll_def recover_cl0_def recover_cl1_def
        recover_cl2_def recover_final_def update_epochs_def invalidate_cls_def leaf_view_def Let_def
        del: leaf_view_recover_final)
  then show ?thesis by (simp add: restorable_def)
qed

definition first_insert_writes :: "u64 \<Rightarrow> nat \<Rightarrow> u64 \<Rightarrow> u8 \<Rightarrow> u64 \<Rightarrow> leaf \<Rightarrow> lwrite list" where
  "first_insert_writes ge i k len v l =
     [W_perm_cl0 (permutation l), W_cl0_idx 0] @ epoch_writes ge (lv_cl1 l) (lv_cl2 l)
       @ [W_not_logged True] @ insert_writes i k len v l @ [W_not_logged False]"

lemma back_not_active:
  assumes "kp_wf leaf_width x" "kp_size x < leaf_width"
  shows "kp_back leaf_width x \<notin> set (active leaf_width x)" "kp_back leaf_width x < leaf_width"
proof -
  have d: "distinct (slots leaf_width x)" and s: "set (slots leaf_width x) = {0..<leaf_width}"
    using distinct_slots set_slots assms(1) by blast+
  have ne: "slots leaf_width x \<noteq> []" by (simp add: slots_def leaf_width_def)
  have b: "kp_back leaf_width x = last (slots leaf_width x)" by (simp add: kp_back_slots leaf_width_def)
  then show "kp_back leaf_width x < leaf_width" using s ne last_in_set by fastforce
  have "last (slots leaf_width x) = last (drop (kp_size x) (slots leaf_width x))"
    using assms(2) by (simp add: last_drop)
  moreover have "drop (kp_size x) (slots leaf_width x) \<noteq> []" using assms(2) by simp
  ultimately have "kp_back leaf_width x \<in> set (drop (kp_size x) (slots leaf_width x))"
    using b last_in_set by metis
  then show "kp_back leaf_width x \<notin> set (active leaf_width x)"
    using d by (auto simp: active_def dest: in_set_takeD) (meson d disjoint_iff set_take_disj_set_drop_if_distinct order_refl)
qed

lemmas first_insert_defs = first_insert_writes_def epoch_writes_def insert_writes_def Let_def

lemma first_insert_touches:
  "w \<in> set (first_insert_writes ge i k len v l) \<Longrightarrow> touches {kp_back leaf_width (permutation l)} w"
  unfolding first_insert_defs by auto

lemma first_insert_cls:
  "w \<in> set (first_insert_writes ge i k len v b) \<Longrightarrow> logs_idle b \<Longrightarrow>
   \<not> is_cl_valid (lv_cl1 l) \<and> \<not> is_cl_valid (lv_cl2 l) \<Longrightarrow>
   \<not> is_cl_valid (lv_cl1 (apply_write w l)) \<and> \<not> is_cl_valid (lv_cl2 (apply_write w l))"
  unfolding first_insert_defs logs_idle_def by auto

lemma line_of_ikey: "line_of (W_ikey p y) = 0 \<longleftrightarrow> p = 0"
  by (auto simp: line_of_def div_eq_0_iff)

definition cl0_line_ok :: "u64 \<Rightarrow> leaf \<Rightarrow> leaf \<Rightarrow> bool" where
  "cl0_line_ok ge base l \<longleftrightarrow> loggedepoch l = loggedepoch base \<and> permutation l = permutation base
      \<or> loggedepoch l = ge \<and> cl0_idx l \<noteq> invalid_idx \<and> perm_cl0 l = permutation base"

lemma first_insert_line0:
  assumes "kp_back leaf_width (permutation base) < leaf_width"
  shows "every_prefix (cl0_line_ok ge base)
    (filter (\<lambda>w. line_of w = 0) (first_insert_writes ge i k len v base)) base"
  using assms unfolding first_insert_defs cl0_line_ok_def
  by (cases "kp_back leaf_width (permutation base) = 0")
   (simp_all add: line_of_keylenx line_of_ikey invalid_idx_def)

lemma first_insert_restorable:
  assumes wf: "leaf_wf base" and sz: "kp_size (permutation base) < leaf_width"
    and idle: "logs_idle base" and ep: "loggedepoch base \<noteq> ge"
  shows "restorable ge base (crash_image c (take n (first_insert_writes ge i k len v base)) base)"
proof -
  let ?ws = "first_insert_writes ge i k len v base"
  let ?img = "crash_image c (take n ?ws) base"
  let ?p = "kp_back leaf_width (permutation base)"
  have p: "?p \<notin> set (active leaf_width (permutation base))" "?p < leaf_width"
    using back_not_active wf sz by (auto simp: leaf_wf_def)
  have same: "same_slots {?p} base ?img"
    by (rule crash_image_induct) (simp, rule same_slots_write, assumption, erule first_insert_touches)
  have cls: "\<not> is_cl_valid (lv_cl1 ?img) \<and> \<not> is_cl_valid (lv_cl2 ?img)"
    by (rule crash_image_induct)
      (use idle in \<open>simp add: logs_idle_def\<close>, rule first_insert_cls, assumption, rule idle, assumption)
  have "cl0_line_ok ge base ?img"
    by (rule crash_image_line_prop [OF first_insert_line0 [OF p(2)]]) (simp add: cl0_line_ok_def line_part_0)
  then consider "loggedepoch ?img = loggedepoch base" "permutation ?img = permutation base"
    | "loggedepoch ?img = ge" "cl0_idx ?img \<noteq> invalid_idx" "perm_cl0 ?img = permutation base"
    unfolding cl0_line_ok_def by blast
  then show ?thesis
  proof cases
    case 1
    then have "leaf_view ?img = leaf_view base" using leaf_view_eq [OF same 1(2)] p(1) by simp
    with cls ep 1(1) show ?thesis by (intro restorable_idle) simp_all
  next
    case 2
    have "same_slots {?p} base (?img\<lparr>permutation := perm_cl0 ?img\<rparr>)"
      using same by (simp add: same_slots_def)
    then have "leaf_view (?img\<lparr>permutation := perm_cl0 ?img\<rparr>) = leaf_view base"
      by (rule leaf_view_eq) (use 2(3) p(1) in simp_all)
    then show ?thesis by (rule restorable_cl0 [OF 2(1,2)])
  qed
qed

definition first_update_writes :: "u64 \<Rightarrow> nat \<Rightarrow> u64 \<Rightarrow> leaf \<Rightarrow> lwrite list" where
  "first_update_writes ge p v l =
     (if p < key_mid then
        let d = set_lv_idx_ge ge (lv l ! p) p (lv_cl1 l)
        in (W_lv_cl1 d # epoch_writes ge d (lv_cl2 l)) @ [W_not_logged True, W_lv p v, W_not_logged False]
      else
        let d = set_lv_idx_ge ge (lv l ! p) (p - key_mid) (lv_cl2 l)
        in (W_lv_cl2 d # epoch_writes ge (lv_cl1 l) d) @ [W_not_logged True, W_lv p v, W_not_logged False])"

lemmas first_update_defs = first_update_writes_def epoch_writes_def Let_def

definition cl_word :: "nat \<Rightarrow> leaf \<Rightarrow> u64" where
  "cl_word p l = (if p < key_mid then lv_cl1 l else lv_cl2 l)"

definition upd_frame :: "u64 \<Rightarrow> nat \<Rightarrow> leaf \<Rightarrow> leaf \<Rightarrow> bool" where
  "upd_frame ge p base l \<longleftrightarrow> same_slots {p} base l \<and> ikey0 l = ikey0 base \<and> keylenx l = keylenx base \<and> permutation l = permutation base \<and> cl0_idx l = cl0_idx base
     \<and> loggedepoch l \<in> {loggedepoch base, ge}
     \<and> is_cl_valid (if p < key_mid then lv_cl2 l else lv_cl1 l) = is_cl_valid (if p < key_mid then lv_cl2 base else lv_cl1 base)"

lemma upd_frame_write:
  "w \<in> set (first_update_writes ge p v base) \<Longrightarrow> upd_frame ge p base l \<Longrightarrow> upd_frame ge p base (apply_write w l)"
proof -
  assume w: "w \<in> set (first_update_writes ge p v base)" and f: "upd_frame ge p base l"
  have "touches {p} w" using w unfolding first_update_defs by (auto split: if_splits)
  then have "same_slots {p} base (apply_write w l)" using f by (auto simp: upd_frame_def intro: same_slots_write)
  then show ?thesis using w f unfolding first_update_defs upd_frame_def by (auto split: if_splits)
qed

definition line_slot :: "nat \<Rightarrow> leaf \<Rightarrow> u64" where
  "line_slot p l = (if p < key_mid then take 7 (lv l) ! p else take 7 (drop 7 (lv l)) ! (p - 7))"

lemma line_slot_eq: "length (lv l) = leaf_width \<Longrightarrow> p < leaf_width \<Longrightarrow> line_slot p l = lv l ! p"
  by (simp add: line_slot_def leaf_width_def key_mid_def)

definition upd_line_ok :: "u64 \<Rightarrow> nat \<Rightarrow> leaf \<Rightarrow> leaf \<Rightarrow> bool" where
  "upd_line_ok ge p base l \<longleftrightarrow> line_slot p l = lv base ! p \<and> \<not> is_cl_valid (cl_word p l)
     \<or> is_cl_valid (cl_word p l) \<and> cl_loggedepoch (cl_word p l) = ge
       \<and> get_cl_idx (cl_word p l) = (if p < key_mid then p else p - key_mid) \<and> get_lv (cl_word p l) = lv base ! p"

definition upd_line :: "nat \<Rightarrow> nat" where
  "upd_line p = (if p < key_mid then 3 else 4)"

lemma upd_line_ok_cong:
  "line_part (upd_line p) l = line_part (upd_line p) l' \<Longrightarrow> upd_line_ok ge p base l = upd_line_ok ge p base l'"
  by (cases "p < key_mid") (simp_all add: line_part_def upd_line_def upd_line_ok_def cl_word_def line_slot_def)

lemma first_update_line:
  assumes "p < leaf_width" "lv_ok (lv base ! p)" "ge < 128" "logs_idle base" "length (lv base) = leaf_width"
  shows "every_prefix (upd_line_ok ge p base)
    (filter (\<lambda>w. line_of w = upd_line p) (first_update_writes ge p v base)) base"
proof -
  have ge: "ge AND ge_mask = ge" using assms(3) by (rule epoch_mask_small)
  have start: "upd_line_ok ge p base base"
    using assms(1,4,5) by (simp add: upd_line_ok_def logs_idle_def cl_word_def line_slot_eq)
  show ?thesis
  proof (cases "p < key_mid")
    case True
    then have p: "p < 7" by (simp add: key_mid_def)
    let ?d = "set_lv_idx_ge ge (lv base ! p) p (lv_cl1 base)"
    have ok: "lv_cl1 l \<in> {?d, set_cl_loggedepoch ge ?d} \<Longrightarrow> upd_line_ok ge p base l" for l :: leaf
      using True log_word_fields [OF assms(2) p] ge by (auto simp: upd_line_ok_def cl_word_def)
    show ?thesis using True p start unfolding first_update_defs by (simp add: upd_line_def ok)
  next
    case False
    then have p: "p - key_mid < 7" "7 \<le> p" "p < 15" using assms(1) by (simp_all add: key_mid_def leaf_width_def)
    let ?d = "set_lv_idx_ge ge (lv base ! p) (p - key_mid) (lv_cl2 base)"
    have ok: "lv_cl2 l \<in> {?d, set_cl_loggedepoch ge ?d} \<Longrightarrow> upd_line_ok ge p base l" for l :: leaf
      using False log_word_fields [OF assms(2) p(1)] ge by (auto simp: upd_line_ok_def cl_word_def)
    show ?thesis using False p start unfolding first_update_defs by (simp add: upd_line_def ok)
  qed
qed

lemma first_update_restorable:
  assumes wf: "leaf_wf base" and p: "p < leaf_width" "lv_ok (lv base ! p)" and ge: "ge < 128"
    and idle: "logs_idle base" and ep: "loggedepoch base \<le> ge"
  shows "restorable ge base (crash_image c (take n (first_update_writes ge p v base)) base)"
proof -
  let ?img = "crash_image c (take n (first_update_writes ge p v base)) base"
  have len: "length (lv base) = leaf_width" using wf by (simp add: leaf_wf_def)
  have "upd_frame ge p base ?img"
    by (rule crash_image_induct) (simp add: upd_frame_def, rule upd_frame_write)
  then have same: "same_slots {p} base ?img" and keys: "ikey0 ?img = ikey0 base" "keylenx ?img = keylenx base"
    and perm: "permutation ?img = permutation base"
    and cl0: "cl0_idx ?img = invalid_idx" and le: "loggedepoch ?img \<le> ge"
    and other: "\<not> is_cl_valid (if p < key_mid then lv_cl2 ?img else lv_cl1 ?img)"
    using idle ep by (auto simp: upd_frame_def logs_idle_def)
  then have len': "length (lv ?img) = leaf_width" using len by (simp add: same_slots_def)
  have restored: "leaf_view (?img\<lparr>lv := (lv ?img)[p := lv base ! p]\<rparr>) = leaf_view base"
    by (rule leaf_view_eq [where A = "{}"])
      (use same keys perm len' p(1) in \<open>auto simp: same_slots_def nth_list_update\<close>)
  have "upd_line_ok ge p base ?img"
    by (rule crash_image_line_prop [OF first_update_line [OF p ge idle len]]) (rule upd_line_ok_cong)
  then consider "lv ?img ! p = lv base ! p" "\<not> is_cl_valid (cl_word p ?img)"
    | "is_cl_valid (cl_word p ?img)" "cl_loggedepoch (cl_word p ?img) = ge"
      "get_cl_idx (cl_word p ?img) = (if p < key_mid then p else p - key_mid)" "get_lv (cl_word p ?img) = lv base ! p"
    using line_slot_eq [OF len' p(1)] unfolding upd_line_ok_def by auto
  then show ?thesis
  proof cases
    case 1
    then have "(lv ?img)[p := lv base ! p] = lv ?img" by (metis list_update_id)
    with restored have "leaf_view ?img = leaf_view base" by simp
    then show ?thesis using 1 other cl0 by (intro restorable_idle) (auto simp: cl_word_def split: if_splits)
  next
    case 2
    show ?thesis
    proof (cases "p < key_mid")
      case True
      then have "recover_cl1 ?img = ?img\<lparr>lv := (lv ?img)[p := lv base ! p]\<rparr>"
        using 2 by (simp add: recover_cl1_def recover_eqs cl_word_def)
      then show ?thesis using 2 True restored cl0 le by (intro restorable_cl1) (simp_all add: cl_word_def)
    next
      case False
      then have "recover_cl2 ?img = ?img\<lparr>lv := (lv ?img)[p := lv base ! p]\<rparr>"
        using 2 by (simp add: recover_cl2_def recover_eqs cl_word_def)
      then show ?thesis using 2 False restored cl0 le other by (intro restorable_cl2) (simp_all add: cl_word_def)
    qed
  qed
qed

section \<open>A whole epoch\<close>

fun first_writes :: "u64 \<Rightarrow> leaf_op \<Rightarrow> leaf \<Rightarrow> lwrite list" where
  "first_writes ge (Op_insert i k len v) l = first_insert_writes ge i k len v l"
| "first_writes ge (Op_update p v) l = first_update_writes ge p v l"
| "first_writes ge (Op_modify ws) l = [W_not_logged False]"

definition epoch_base :: "u64 \<Rightarrow> leaf \<Rightarrow> bool" where
  "epoch_base ge l \<longleftrightarrow> leaf_wf l \<and> logs_idle l \<and> loggedepoch l < ge \<and> ge < 128"

lemma first_writes_restorable:
  assumes "epoch_base ge base" "op_ok op base"
  shows "restorable ge base (crash_image c (take n (first_writes ge op base)) base)"
proof (cases op)
  case (Op_insert i k len v)
  then show ?thesis using assms by (auto simp: epoch_base_def intro!: first_insert_restorable)
next
  case (Op_update p v)
  then show ?thesis using assms by (auto simp: epoch_base_def intro!: first_update_restorable)
next
  case (Op_modify ws)
  let ?img = "crash_image c (take n [W_not_logged False]) base"
  have "?img = base \<or> ?img = base\<lparr>not_logged := False\<rparr>"
    by (cases n) (simp_all add: crash_image_def)
  then have "restorable ge base ?img"
    using assms(1) by (auto simp: epoch_base_def logs_idle_def leaf_view_def intro!: restorable_idle)
  then show ?thesis using Op_modify by simp
qed

lemma persisted_all: "\<forall>k. length ws \<le> c k \<Longrightarrow> persisted c ws = ws"
proof (induction ws arbitrary: c)
  case (Cons w ws)
  have "length ws \<le> (c(line_of w := c (line_of w) - 1)) k" for k
    using Cons.prems [rule_format, of k] Cons.prems [rule_format, of "line_of w"] by (simp; linarith)
  moreover have "0 < c (line_of w)" using Cons.prems [rule_format, of "line_of w"] by simp
  ultimately show ?case using Cons.IH by simp
qed simp

lemma first_writes_done_restorable:
  assumes "epoch_base ge base" "op_ok op base"
  shows "restorable ge base (fold apply_write (first_writes ge op base) base)"
  using first_writes_restorable [OF assms, of "\<lambda>_. length (first_writes ge op base)" "length (first_writes ge op base)"]
  by (simp add: crash_image_def persisted_all)

fun keeps_logged :: "u64 \<Rightarrow> lwrite \<Rightarrow> bool" where
  "keeps_logged ge (W_loggedepoch e) \<longleftrightarrow> e = ge"
| "keeps_logged ge (W_not_logged b) \<longleftrightarrow> \<not> b"
| "keeps_logged ge w \<longleftrightarrow> True"

definition logged :: "u64 \<Rightarrow> leaf \<Rightarrow> bool" where
  "logged ge l \<longleftrightarrow> loggedepoch l = ge \<and> \<not> not_logged l"

lemma logged_write: "logged ge l \<Longrightarrow> keeps_logged ge w \<Longrightarrow> logged ge (apply_write w l)"
  by (cases w) (auto simp: logged_def)

lemma logged_writes: "logged ge l \<Longrightarrow> list_all (keeps_logged ge) ws \<Longrightarrow> logged ge (fold apply_write ws l)"
  by (induction ws arbitrary: l) (auto intro: logged_write)

lemma data_keeps_logged: "is_data_write w \<Longrightarrow> keeps_logged ge w"
  by (cases w) auto

lemma list_all_data_keeps: "list_all is_data_write ws \<Longrightarrow> list_all (keeps_logged ge) ws"
  by (induction ws) (auto intro: data_keeps_logged)

lemma op_steps_logged:
  assumes "logged ge l" "op_ok op l"
  obtains xs where "op_steps ge op l = map Write xs" "list_all (keeps_logged ge) xs"
proof (cases op)
  case (Op_insert i k len v)
  then show ?thesis using assms that [of "insert_writes i k len v l"]
    by (simp add: logged_def save_cl0_insert_steps_def insert_writes_def Let_def)
next
  case (Op_update p v)
  then show ?thesis using assms that [of "[W_lv p v]"]
    by (simp add: logged_def save_cl1_2_update_steps_def)
next
  case (Op_modify ws)
  then show ?thesis using assms that [of ws]
    by (simp add: logged_def record_node_steps_def list_all_data_keeps)
qed

lemma op_steps_second:
  assumes "loggedepoch l = ge" "not_logged l" "op_ok op l"
  obtains xs where "op_steps ge op l = [Write (W_not_logged False), Record] @ map Write xs"
    "list_all (keeps_logged ge) xs"
proof (cases op)
  case (Op_insert i k len v)
  then show ?thesis using assms that [of "invalidate_writes l @ insert_writes i k len v l"]
    by (simp add: save_cl0_insert_steps_def second_save_steps_def insert_writes_def invalidate_writes_def Let_def)
next
  case (Op_update p v)
  then show ?thesis using assms that [of "invalidate_writes l @ [W_lv p v]"]
    by (simp add: save_cl1_2_update_steps_def second_save_steps_def invalidate_writes_def)
next
  case (Op_modify ws)
  then show ?thesis using assms that [of "W_loggedepoch ge # invalidate_writes l @ ws"]
    by (simp add: record_node_steps_def invalidate_writes_def list_all_data_keeps)
qed

lemma op_steps_first:
  assumes "loggedepoch l \<noteq> ge"
  shows "op_steps ge (Op_insert i k len v) l = map Write (butlast (first_writes ge (Op_insert i k len v) l))"
    "op_steps ge (Op_update p v) l = map Write (butlast (first_writes ge (Op_update p v) l))"
    "op_steps ge (Op_modify ws) l =
       [Write (W_not_logged False), Record] @ map Write (W_loggedepoch ge # invalidate_writes l @ ws)"
  using assms by (simp_all add: save_cl0_insert_steps_def first_insert_writes_def insert_writes_def Let_def
      save_cl1_2_update_steps_def first_update_writes_def epoch_writes_def record_node_steps_def)

definition run_ok :: "u64 \<Rightarrow> leaf \<Rightarrow> run \<Rightarrow> bool" where
  "run_ok ge base r \<longleftrightarrow>
     (case snap r of
        Some s \<Rightarrow> restorable ge base s
      | None \<Rightarrow> \<forall>c. restorable ge base (crash_image c (pending r) base))"

text \<open>Between two operations: nothing done yet, one operation under the in-cache-line log, or the node logged.\<close>

inductive epoch_inv :: "u64 \<Rightarrow> leaf \<Rightarrow> run \<Rightarrow> bool" for ge base where
  fresh: "epoch_inv ge base (epoch_start base)"
| one: "op_ok op base \<Longrightarrow> snap r = None \<Longrightarrow> pending r = butlast (first_writes ge op base)
    \<Longrightarrow> cur r = fold apply_write (pending r) base \<Longrightarrow> loggedepoch (cur r) = ge \<Longrightarrow> not_logged (cur r)
    \<Longrightarrow> last (first_writes ge op base) = W_not_logged False \<Longrightarrow> epoch_inv ge base r"
| settled: "snap r = Some s \<Longrightarrow> restorable ge base s \<Longrightarrow> logged ge (cur r) \<Longrightarrow> epoch_inv ge base r"

lemma take_map_Write: "fold run_step (take n (map Write ws)) r =
    r\<lparr>cur := fold apply_write (take n ws) (cur r), pending := pending r @ take n ws\<rparr>"
  by (simp only: take_map fold_run_writes)

lemma record_then_writes:
  assumes "snap r = None" "\<forall>c. restorable ge base (crash_image c (pending r) base)"
    "\<forall>c. restorable ge base (crash_image c (pending r @ [W_not_logged False]) base)"
    "restorable ge base ((cur r)\<lparr>not_logged := False\<rparr>)"
  shows "run_ok ge base (fold run_step (take n ([Write (W_not_logged False), Record] @ map Write xs)) r)"
proof -
  consider "n = 0" | "n = 1" | m where "n = Suc (Suc m)" by (metis One_nat_def not0_implies_Suc)
  then show ?thesis
    by cases (use assms in \<open>simp_all add: run_ok_def run_step_def take_map_Write\<close>)
qed

lemma first_writes_props:
  "first_writes ge op l \<noteq> []" "last (first_writes ge op l) = W_not_logged False"
  by (cases op; simp add: first_insert_writes_def first_update_writes_def Let_def)+

lemma take_butlast_prefix: "\<exists>m. take n (butlast xs) = take m xs"
  by (metis butlast_conv_take take_take)

lemma first_op_state:
  assumes "loggedepoch l \<noteq> ge" "\<forall>ws. op \<noteq> Op_modify ws"
  shows "loggedepoch (fold apply_write (butlast (first_writes ge op l)) l) = ge
    \<and> not_logged (fold apply_write (butlast (first_writes ge op l)) l)"
  using assms by (cases op) (simp_all add: first_insert_writes_def first_update_writes_def insert_writes_def epoch_writes_def Let_def)

lemma op_steps_first':
  assumes "loggedepoch l \<noteq> ge" "\<forall>ws. op \<noteq> Op_modify ws"
  shows "op_steps ge op l = map Write (butlast (first_writes ge op l))"
  using assms op_steps_first [OF assms(1)] by (cases op) auto

lemma epoch_inv_first:
  assumes base: "epoch_base ge base" and ok: "op_ok op base"
  shows "run_ok ge base (fold run_step (take n (op_steps ge op base)) (epoch_start base))
    \<and> epoch_inv ge base (run_op ge op (epoch_start base))"
proof -
  have ne: "loggedepoch base \<noteq> ge" using base by (auto simp: epoch_base_def)
  note fields = epoch_start_def [of base]
  show ?thesis
  proof (cases "\<exists>ws. op = Op_modify ws")
    case False
    then have st: "op_steps ge op base = map Write (butlast (first_writes ge op base))"
      using op_steps_first' [OF ne] by blast
    obtain m where m: "take n (butlast (first_writes ge op base)) = take m (first_writes ge op base)"
      using take_butlast_prefix by blast
    have "run_ok ge base (fold run_step (take n (op_steps ge op base)) (epoch_start base))"
      using first_writes_restorable [OF base ok, of _ m] by (simp add: st take_map_Write run_ok_def fields m)
    moreover have "epoch_inv ge base (run_op ge op (epoch_start base))"
      by (rule epoch_inv.one [OF ok])
        (use False first_op_state [OF ne, of op] first_writes_props in \<open>simp_all add: run_op_def st fold_run_writes fields\<close>)
    ultimately show ?thesis ..
  next
    case True
    then obtain ws where op: "op = Op_modify ws" by blast
    let ?xs = "W_loggedepoch ge # invalidate_writes base @ ws"
    have st: "op_steps ge op base = [Write (W_not_logged False), Record] @ map Write ?xs"
      using op_steps_first(3) [OF ne] op by simp
    have fw: "first_writes ge op base = [W_not_logged False]" using op by simp
    have r0: "restorable ge base (crash_image c [] base)" for c
      using first_writes_restorable [OF base ok, of c 0] by simp
    have r1: "restorable ge base (crash_image c [W_not_logged False] base)" for c
      using first_writes_restorable [OF base ok, of c 1] fw by simp
    have r2: "restorable ge base (base\<lparr>not_logged := False\<rparr>)"
      using first_writes_done_restorable [OF base ok] fw by simp
    have "list_all (keeps_logged ge) ?xs"
      using ok op list_all_data_keeps by (simp add: invalidate_writes_def)
    moreover have "logged ge (fold apply_write ?xs (base\<lparr>not_logged := False\<rparr>)) \<longleftrightarrow>
        logged ge (fold apply_write (invalidate_writes base @ ws) (base\<lparr>not_logged := False, loggedepoch := ge\<rparr>))"
      by simp
    ultimately have lg: "logged ge (fold apply_write ?xs (base\<lparr>not_logged := False\<rparr>))"
      using logged_writes [of ge "base\<lparr>not_logged := False, loggedepoch := ge\<rparr>" "invalidate_writes base @ ws"]
      by (simp add: logged_def)
    have "run_ok ge base (fold run_step (take n (op_steps ge op base)) (epoch_start base))"
      unfolding st by (rule record_then_writes) (use r0 r1 r2 in \<open>simp_all add: fields\<close>)
    moreover have "epoch_inv ge base (run_op ge op (epoch_start base))"
      by (rule epoch_inv.settled [OF _ r2])
        (use lg in \<open>simp_all add: run_op_def st fold_run_writes fields run_step_def\<close>)
    ultimately show ?thesis ..
  qed
qed

lemma epoch_inv_op:
  assumes base: "epoch_base ge base" and inv: "epoch_inv ge base r" and ok: "op_ok op (cur r)"
  shows "run_ok ge base (fold run_step (take n (op_steps ge op (cur r))) r)
    \<and> epoch_inv ge base (run_op ge op r)"
  using inv
proof (cases rule: epoch_inv.cases)
  case fresh
  then show ?thesis using epoch_inv_first [OF base] ok by (simp add: epoch_start_def)
next
  case (one op1)
  let ?ws = "first_writes ge op1 base"
  obtain xs where xs: "op_steps ge op (cur r) = [Write (W_not_logged False), Record] @ map Write xs"
    "list_all (keeps_logged ge) xs" using op_steps_second [OF one(5,6) ok] by blast
  have ws: "butlast ?ws @ [W_not_logged False] = ?ws"
    using append_butlast_last_id [OF first_writes_props(1), of ge op1 base] one(7) by simp
  have r0: "restorable ge base (crash_image c (pending r) base)" for c
    using first_writes_restorable [OF base one(1), of c "length ?ws - 1"] one(3) by (simp add: butlast_conv_take)
  have r1: "restorable ge base (crash_image c (pending r @ [W_not_logged False]) base)" for c
    using first_writes_restorable [OF base one(1), of c "length ?ws"] one(3) ws by simp
  have cur': "(cur r)\<lparr>not_logged := False\<rparr> = fold apply_write ?ws base"
    by (subst ws [symmetric]) (simp add: one(3,4))
  have r2: "restorable ge base ((cur r)\<lparr>not_logged := False\<rparr>)"
    unfolding cur' by (rule first_writes_done_restorable [OF base one(1)])
  have "run_ok ge base (fold run_step (take n (op_steps ge op (cur r))) r)"
    unfolding xs(1) by (rule record_then_writes) (use one r0 r1 r2 in simp_all)
  moreover have "logged ge (fold apply_write xs ((cur r)\<lparr>not_logged := False\<rparr>))"
    using one(5) xs(2) by (intro logged_writes) (simp_all add: logged_def)
  then have "epoch_inv ge base (run_op ge op r)"
    by (intro epoch_inv.settled [OF _ r2]) (simp_all add: run_op_def xs(1) fold_run_writes run_step_def)
  ultimately show ?thesis ..
next
  case (settled s)
  obtain xs where xs: "op_steps ge op (cur r) = map Write xs" "list_all (keeps_logged ge) xs"
    using op_steps_logged [OF settled(3) ok] by blast
  have "run_ok ge base (fold run_step (take n (op_steps ge op (cur r))) r)"
    using settled by (simp add: xs take_map_Write run_ok_def)
  moreover have "epoch_inv ge base (run_op ge op r)"
    using settled logged_writes [OF settled(3) xs(2)]
    by (intro epoch_inv.settled [where s = s]) (simp_all add: run_op_def xs fold_run_writes)
  ultimately show ?thesis ..
qed

lemma epoch_inv_ops:
  assumes "epoch_base ge base" "epoch_inv ge base r" "ops_ok ge (ops @ [op]) r"
  shows "run_ok ge base (fold run_step (take n (op_steps ge op (cur (fold (run_op ge) ops r)))) (fold (run_op ge) ops r))"
  using assms
proof (induction ops arbitrary: r)
  case Nil
  then show ?case using epoch_inv_op [of ge base r op n] by simp
next
  case (Cons o1 ops)
  then show ?case using epoch_inv_op [of ge base r o1 0] by simp
qed

lemma recover_run_view: "run_ok ge base r \<Longrightarrow> leaf_view (recover_run ge' ge c base r) = leaf_view base"
proof (cases "snap r")
  case (Some s)
  assume "run_ok ge base r"
  then have "restorable ge base (fix_all s)" using Some by (simp add: run_ok_def restorable_fix_all)
  then show ?thesis using Some by (simp add: recover_run_def restorable_def)
qed (simp add: run_ok_def recover_run_def restorable_def)


definition demo_leaf :: leaf where
  "demo_leaf = \<lparr>vword = nodeversion True, not_logged = False, cl0_idx = 7, loggedepoch = 4, extrasize64 = 0, modstate = 0,
     keylenx = replicate 14 8, permutation = make_sorted 14 3, perm_cl0 = 0, ksuf = 0,
     ikey0 = [10, 20, 30, 40, 50, 60, 70, 80, 90, 100, 110, 120, 130, 140], next_ptr = 0, prev_ptr = 0, parent_ptr = 0,
     lv_cl1 = 7, lv = replicate 14 64, lv_cl2 = 7, iksuf = \<lparr>bsize = 0, bcapacity = 0, binfo = [], bmem = []\<rparr>\<rparr>"

lemma demo_leaf_base: "epoch_base 5 demo_leaf"
proof -
  have "kp_wf 14 (make_sorted 14 3)" by (simp add: kp_wf_make)
  then show ?thesis
    by (simp add: epoch_base_def leaf_wf_def logs_idle_def demo_leaf_def leaf_width_def invalid_idx_def is_cl_valid_def
        cl_invalid_idx_def)
qed


section \<open>Where the protocol does not hold\<close>

text \<open>
  C11.  The undo of value updates is limited to epochs below 128: \<open>undo_incll\<close> compares the
  7-bit epoch of the log words with the full 64-bit failed epoch, so that for a failed epoch
  of 128 or more a leaf without a pending permutation log is left as the crash left it, and
  an update that reached memory survives the epoch's rollback.
\<close>

theorem undo_incll_large_epoch:
  assumes "128 \<le> fe" "cl0_idx l = invalid_idx"
  shows "lazy_recovery ge fe l = l"
proof -
  have "cl_loggedepoch d \<noteq> fe" for d using cl_loggedepoch_bound [of d] assms(1) by auto
  then show ?thesis using assms(2) by (simp add: lazy_recovery_def undo_incll_def)
qed

theorem undo_incll_large_epoch_witness:
  "lazy_recovery 301 300 (cur (run_op 300 (Op_update 2 128) (epoch_start demo_leaf)))
   = cur (run_op 300 (Op_update 2 128) (epoch_start demo_leaf))"
  by (rule undo_incll_large_epoch)
    (simp_all add: epoch_start_def demo_leaf_def leaf_width_def run_op_def save_cl1_2_update_steps_def run_step_def
        epoch_writes_def Let_def key_mid_def invalid_idx_def)

definition demo_leaf_6 :: leaf where
  "demo_leaf_6 = cur (run_op 5 (Op_insert 0 5 8 192) (epoch_start demo_leaf))"


text \<open>
  Repair of a leaf after a crash: \<open>fix_all\<close> leaves a version word that is unlocked
  and unmarked with all counters and the deleted bit cleared, keeps the leaf and root bits
  as they were, puts the leaf into the insert state and touches nothing else, so that the
  node protocol can start on it again.
\<close>

theorem fix_all_quiescent:
  "quiescent (vword (fix_all l)) \<and> vcount (vword (fix_all l)) = 0 \<and> \<not> deleted (vword (fix_all l))
   \<and> is_root (vword (fix_all l)) = is_root (vword l) \<and> isleaf (vword (fix_all l)) = isleaf (vword l)
   \<and> (fix_all l)\<lparr>vword := vword l, modstate := modstate l\<rparr> = l \<and> modstate (fix_all l) = modstate_insert"
proof -
  let ?v = "vword (fix_all l)"
  have b: "bit ?v n \<longleftrightarrow> bit (vword l) n \<and> (n = 30 \<or> n = 31)" for n
    by (auto simp: fix_all_def reset_state_def Let_def nv_ops nv_bits)
  have "vcount ?v = vcount 0" using b by (simp add: vcount_eq_iff)
  then show ?thesis using b by (simp add: quiescent_def nv_tests vcount_arith) (simp add: fix_all_def reset_state_def Let_def)
qed

end
