(* ===== verification/Masstree_Key.thy ===== *)
theory Masstree_Key
  imports String_Slice
begin

text \<open>
  Keys (\<open>masstree_key.hh\<close>): a string is cut into 8-byte slices, one per tree layer.  A key
  holds the comparable slice (ikey) of the current layer, the length that remains, and a
  pointer into the string's buffer, which \<open>shift\<close> moves on to the next layer.
\<close>

record key =
  kikey :: u64
  klen :: int
  kbuf :: bytes
  koff :: nat
  kfirst :: nat

definition ikey_size :: nat where "ikey_size = 8"

definition compare_u64 :: "u64 \<Rightarrow> u64 \<Rightarrow> int" where
  "compare_u64 a b = (if a = b then 0 else if a < b then -1 else 1)"

definition ctz :: "u64 \<Rightarrow> nat" where
  "ctz w = length (takeWhile (\<lambda>n. \<not> bit w n) [0..<64])"

definition key_string :: "bytes \<Rightarrow> nat \<Rightarrow> int \<Rightarrow> key" where
  "key_string s off len = \<lparr>kikey = make_comparable s off len, klen = len, kbuf = s, koff = off, kfirst = off\<rparr>"

definition key_ikey :: "u64 \<Rightarrow> key" where
  "key_ikey ikey = \<lparr>kikey = ikey, klen = (if ikey \<noteq> 0 then int ikey_size - int (ctz ikey div 8) else 0),
     kbuf = [], koff = 0, kfirst = 0\<rparr>"

definition key_ikey_len :: "u64 \<Rightarrow> int \<Rightarrow> key" where
  "key_ikey_len ikey len = \<lparr>kikey = ikey, klen = min len (int ikey_size), kbuf = [], koff = 0, kfirst = 0\<rparr>"

definition key_ikey_suffix :: "u64 \<Rightarrow> bytes \<Rightarrow> nat \<Rightarrow> nat \<Rightarrow> key" where
  "key_ikey_suffix ikey buf off len =
     \<lparr>kikey = ikey, klen = int ikey_size + int len, kbuf = buf, koff = off - ikey_size, kfirst = off - ikey_size\<rparr>"

definition key_empty :: "key \<Rightarrow> bool" where
  "key_empty k \<longleftrightarrow> kikey k = 0 \<and> klen k = 0"

definition has_suffix :: "key \<Rightarrow> bool" where
  "has_suffix k \<longleftrightarrow> klen k > int ikey_size"

definition key_suffix :: "key \<Rightarrow> bytes" where
  "key_suffix k = take (nat (klen k) - ikey_size) (drop (koff k + ikey_size) (kbuf k))"

definition suffix_length :: "key \<Rightarrow> int" where
  "suffix_length k = klen k - int ikey_size"

definition shift :: "key \<Rightarrow> key" where
  "shift k = (let s = koff k + ikey_size; len = klen k - int ikey_size
     in k\<lparr>koff := s, klen := len, kikey := make_comparable_sloppy (kbuf k) s len\<rparr>)"

definition shift_by :: "nat \<Rightarrow> key \<Rightarrow> key" where
  "shift_by delta k = (let s = koff k + delta; len = klen k - int delta
     in k\<lparr>koff := s, klen := len, kikey := make_comparable_sloppy (kbuf k) s len\<rparr>)"

definition is_shifted :: "key \<Rightarrow> bool" where
  "is_shifted k \<longleftrightarrow> kfirst k \<noteq> koff k"

definition unshift_all :: "key \<Rightarrow> key" where
  "unshift_all k =
     (if koff k \<noteq> kfirst k then
        let len = klen k + (int (koff k) - int (kfirst k))
        in k\<lparr>klen := len, koff := kfirst k, kikey := make_comparable (kbuf k) (kfirst k) len\<rparr>
      else k)"

definition compare_ikey :: "key \<Rightarrow> u64 \<Rightarrow> int \<Rightarrow> int" where
  "compare_ikey k ikey keylenx =
     (let cmp = compare_u64 (kikey k) ikey
      in if cmp = 0 then
           let al = klen k
           in if al > int ikey_size then of_bool (keylenx \<le> int ikey_size) else al - keylenx
         else cmp)"

definition key_compare :: "key \<Rightarrow> key \<Rightarrow> int" where
  "key_compare k x = compare_ikey k (kikey x) (klen x)"

definition key_unparse :: "key \<Rightarrow> nat \<Rightarrow> bytes" where
  "key_unparse k datalen =
     (let cplen = min (nat (klen k)) datalen
      in unparse_comparable_len cplen (kikey k) ikey_size
         @ (if cplen > ikey_size then take (cplen - ikey_size) (drop (koff k + ikey_size) (kbuf k)) else []))"

definition prefix_string :: "key \<Rightarrow> bytes" where
  "prefix_string k = take (koff k - kfirst k) (drop (kfirst k) (kbuf k))"

definition prefix_length :: "key \<Rightarrow> nat" where
  "prefix_length k = koff k - kfirst k"

definition full_string :: "key \<Rightarrow> bytes" where
  "full_string k = take (koff k + nat (klen k) - kfirst k) (drop (kfirst k) (kbuf k))"

definition increment :: "key \<Rightarrow> bool \<times> key" where
  "increment k =
     (if has_suffix k then
        let i = kikey k + 1 in (i = 0, k\<lparr>kikey := i, klen := 1\<rparr>)
      else (False, k\<lparr>klen := klen k + 1\<rparr>))"

definition assign_store_ikey :: "u64 \<Rightarrow> key \<Rightarrow> key" where
  "assign_store_ikey ikey k =
     k\<lparr>kikey := ikey, kbuf := buf_write (kbuf k) (koff k) (le_store (host_to_net_order ikey))\<rparr>"

definition assign_store_suffix :: "bytes \<Rightarrow> key \<Rightarrow> int \<times> key" where
  "assign_store_suffix s k =
     (int ikey_size + int (length s), k\<lparr>kbuf := buf_write (kbuf k) (koff k + ikey_size) s\<rparr>)"

definition assign_store_length :: "int \<Rightarrow> key \<Rightarrow> key" where
  "assign_store_length len k = k\<lparr>klen := len\<rparr>"

definition unshift :: "key \<Rightarrow> key" where
  "unshift k = (let s = koff k - ikey_size
     in k\<lparr>koff := s, kikey := make_comparable_sloppy (kbuf k) s (int ikey_size), klen := int ikey_size + 1\<rparr>)"

definition shift_clear :: "key \<Rightarrow> key" where
  "shift_clear k = k\<lparr>kikey := 0, klen := 0, koff := koff k + ikey_size\<rparr>"

definition shift_clear_reverse :: "key \<Rightarrow> key" where
  "shift_clear_reverse k = k\<lparr>kikey := NOT 0, klen := int ikey_size + 1, koff := koff k + ikey_size\<rparr>"

section \<open>The string a key stands for\<close>

definition key_str :: "key \<Rightarrow> bytes" where
  "key_str k = take (nat (klen k)) (drop (koff k) (kbuf k))"

definition key_wf :: "key \<Rightarrow> bool" where
  "key_wf k \<longleftrightarrow> 0 \<le> klen k \<and> koff k + nat (klen k) \<le> length (kbuf k) \<and> kfirst k \<le> koff k
     \<and> kikey k = ikey_of (key_str k)"

lemma ikey_of_at: "0 \<le> len \<Longrightarrow> off + nat len \<le> length s \<Longrightarrow>
    make_comparable s off len = ikey_of (take (nat len) (drop off s))"
  by (simp add: make_comparable_eq ikey_of_eq)

lemma key_string_wf:
  "off + len \<le> length s \<Longrightarrow> key_wf (key_string s off (int len)) \<and> key_str (key_string s off (int len)) = take len (drop off s)"
  by (simp add: key_wf_def key_str_def key_string_def ikey_of_at)

lemma length_key_str: "key_wf k \<Longrightarrow> length (key_str k) = nat (klen k)"
  by (simp add: key_wf_def key_str_def) linarith

lemma shift_by_8: "shift k = shift_by 8 k"
  by (simp add: shift_def shift_by_def ikey_size_def)

lemma sloppy_ikey:
  assumes "8 \<le> off" "0 \<le> len" "off + nat len \<le> length s"
  shows "make_comparable_sloppy s off len = ikey_of (take (nat len) (drop off s))"
  using assms by (simp add: make_comparable_sloppy_def make_sloppy_eq flip: make_comparable_def) (simp add: ikey_of_at)

lemma shift_wf:
  assumes "key_wf k" "has_suffix k"
  shows "key_wf (shift k)" "key_str (shift k) = drop 8 (key_str k)" "kfirst (shift k) = kfirst k" "kbuf (shift k) = kbuf k"
    "koff (shift k) = koff k + 8" "klen (shift k) = klen k - 8"
proof -
  have len: "8 < klen k" "koff k + 8 + nat (klen k - 8) \<le> length (kbuf k)" "nat (klen k - 8) = nat (klen k) - 8"
    using assms by (auto simp: key_wf_def has_suffix_def ikey_size_def)
  then have "kikey (shift k) = ikey_of (take (nat (klen k - 8)) (drop (koff k + 8) (kbuf k)))"
    by (simp add: shift_def ikey_size_def Let_def sloppy_ikey)
  then show "key_wf (shift k)" using assms len by (simp add: key_wf_def shift_def ikey_size_def Let_def key_str_def)
  show "key_str (shift k) = drop 8 (key_str k)"
    using len(3) by (simp add: shift_def ikey_size_def Let_def key_str_def drop_take add.commute)
qed (simp_all add: shift_def ikey_size_def Let_def)

section \<open>Comparison\<close>

lemma compare_u64_sign: "compare_u64 a b < 0 \<longleftrightarrow> a < b" "compare_u64 a b = 0 \<longleftrightarrow> a = b"
  by (auto simp: compare_u64_def)

lemma prefix_lex:
  assumes "pad8 a = pad8 b" "length a < length b" "length a \<le> 8"
  shows "lex_less a b"
proof -
  have "b = a @ drop (length a) b" using pad_eq_prefix [OF assms(1)] assms by (metis append_take_drop_id less_imp_le)
  moreover have "drop (length a) b \<noteq> []" using assms(2) by simp
  ultimately show ?thesis using lex_less_prefix by metis
qed

lemma pad8_long: "8 \<le> length a \<Longrightarrow> pad8 a = take 8 a"
  by (simp add: pad8_def)

lemma key_compare_strings:
  assumes "key_wf k" "key_wf x"
  defines "a \<equiv> key_str k" and "b \<equiv> key_str x"
  shows "key_compare k x < 0 \<Longrightarrow> lex_less a b" "0 < key_compare k x \<Longrightarrow> lex_less b a"
    "key_compare k x = 0 \<longleftrightarrow> a = b \<and> length a \<le> 8 \<or> 8 < length a \<and> 8 < length b \<and> take 8 a = take 8 b"
proof -
  have la: "klen k = int (length a)" and lb: "klen x = int (length b)"
    using assms length_key_str [of k] length_key_str [of x] by (auto simp: key_wf_def)
  have ia: "kikey k = ikey_of a" and ib: "kikey x = ikey_of b" using assms by (auto simp: key_wf_def)
  have cmp: "key_compare k x = (if ikey_of a \<noteq> ikey_of b then compare_u64 (ikey_of a) (ikey_of b)
      else if length a > 8 then of_bool (length b \<le> 8) else int (length a) - int (length b))"
    by (auto simp: key_compare_def compare_ikey_def ia ib la lb ikey_size_def Let_def compare_u64_sign)
  have ne: "ikey_of a \<noteq> ikey_of b \<Longrightarrow> ikey_of a < ikey_of b \<or> ikey_of b < ikey_of a" by auto
  have eq: "ikey_of a = ikey_of b \<Longrightarrow> pad8 a = pad8 b" by (simp add: ikey_of_inj)
  show "lex_less a b" if "key_compare k x < 0"
    using that cmp eq ne lex_less_pad [of 8 a b] prefix_lex [of a b]
    by (auto simp: compare_u64_def ikey_of_less pad8_padn of_bool_def split: if_splits)
  show "lex_less b a" if "0 < key_compare k x"
    using that cmp eq ne lex_less_pad [of 8 b a] prefix_lex [of b a]
    by (auto simp: compare_u64_def ikey_of_less pad8_padn of_bool_def split: if_splits)
  have "a = b \<Longrightarrow> key_compare k x = 0" by (simp add: cmp)
  moreover have "8 < length a \<Longrightarrow> 8 < length b \<Longrightarrow> take 8 a = take 8 b \<Longrightarrow> key_compare k x = 0"
    by (simp add: cmp ikey_of_inj pad8_long)
  moreover have "key_compare k x = 0 \<Longrightarrow> a = b \<and> length a \<le> 8 \<or> 8 < length a \<and> 8 < length b \<and> take 8 a = take 8 b"
    using cmp eq pad_eq_prefix [of a b] pad8_long [of a] pad8_long [of b]
    by (auto simp: compare_u64_def split: if_splits)
  ultimately show "key_compare k x = 0 \<longleftrightarrow> a = b \<and> length a \<le> 8 \<or> 8 < length a \<and> 8 < length b \<and> take 8 a = take 8 b"
    by blast
qed

text \<open>
  The comparison of two keys through the layers: compare the slices of the current layer
  and, while they agree and both keys go on, shift both (the loop of \<open>make_new_layer\<close>).
\<close>

function layered_compare :: "key \<Rightarrow> key \<Rightarrow> int" where
  "layered_compare k x =
     (let cmp = key_compare k x
      in if cmp = 0 \<and> has_suffix k \<and> has_suffix x then layered_compare (shift k) (shift x) else cmp)"
  by auto
termination
  by (relation "measure (\<lambda>(k, x). nat (klen k))") (auto simp: shift_def Let_def has_suffix_def ikey_size_def)

declare layered_compare.simps [simp del]

lemma has_suffix_str: "key_wf k \<Longrightarrow> has_suffix k \<longleftrightarrow> 8 < length (key_str k)"
  by (auto simp: has_suffix_def length_key_str ikey_size_def)

text \<open>
  C29.  Comparing keys slice by slice, with shorter keys first among equal slices and one
  shift per layer, decides the lexicographic order of the strings: a negative result means
  smaller, a positive one greater, and zero means equal strings, however many layers the
  strings span and whatever zero bytes they hold.
\<close>

theorem layered_compare_lex:
  assumes "key_wf k" "key_wf x"
  shows "(layered_compare k x < 0 \<longleftrightarrow> lex_less (key_str k) (key_str x))
    \<and> (layered_compare k x = 0 \<longleftrightarrow> key_str k = key_str x)"
  using assms
proof (induction k x rule: layered_compare.induct)
  case (1 k x)
  note cmp = key_compare_strings [OF 1(2,3)]
  show ?case
  proof (cases "key_compare k x = 0 \<and> has_suffix k \<and> has_suffix x")
    case True
    then have l: "8 < length (key_str k)" "8 < length (key_str x)" using 1 has_suffix_str by blast+
    then have t: "take 8 (key_str k) = take 8 (key_str x)" using True cmp(3) by auto
    have IH: "(layered_compare (shift k) (shift x) < 0 \<longleftrightarrow> lex_less (drop 8 (key_str k)) (drop 8 (key_str x)))
        \<and> (layered_compare (shift k) (shift x) = 0 \<longleftrightarrow> drop 8 (key_str k) = drop 8 (key_str x))"
      using 1(1) [OF refl True] shift_wf True 1(2,3) by simp
    have "lex_less (key_str k) (key_str x) \<longleftrightarrow> lex_less (drop 8 (key_str k)) (drop 8 (key_str x))"
      by (rule lex_less_take(2)) (use l t in auto)
    moreover have "key_str k = key_str x \<longleftrightarrow> drop 8 (key_str k) = drop 8 (key_str x)"
      using t by (metis append_take_drop_id)
    ultimately show ?thesis using IH True by (simp add: layered_compare.simps [of k x])
  next
    case False
    then have e: "layered_compare k x = key_compare k x" by (auto simp: layered_compare.simps [of k x] Let_def)
    have "key_compare k x = 0 \<longleftrightarrow> key_str k = key_str x"
      using cmp(3) False has_suffix_str [OF 1(2)] has_suffix_str [OF 1(3)] by auto
    moreover have "key_compare k x < 0 \<longleftrightarrow> lex_less (key_str k) (key_str x)"
      using cmp(1,2) calculation lex_less_asym lex_less_irrefl by (metis linorder_neqE_linordered_idom)
    ultimately show ?thesis using e by simp
  qed
qed

definition demo_key_a :: key where "demo_key_a = key_string [1, 2, 3, 4, 5, 6, 7, 8, 9, 0] 0 10"
definition demo_key_b :: key where "demo_key_b = key_string [1, 2, 3, 4, 5, 6, 7, 8, 9, 7] 0 10"

lemma demo_keys: "key_wf demo_key_a" "key_wf demo_key_b"
  "key_str demo_key_a = [1, 2, 3, 4, 5, 6, 7, 8, 9, 0]" "key_str demo_key_b = [1, 2, 3, 4, 5, 6, 7, 8, 9, 7]"
  using key_string_wf [of 0 10 "[1, 2, 3, 4, 5, 6, 7, 8, 9, 0]"] key_string_wf [of 0 10 "[1, 2, 3, 4, 5, 6, 7, 8, 9, 7]"]
  by (simp_all add: demo_key_a_def demo_key_b_def)

theorem layered_compare_lex_witness: "layered_compare demo_key_a demo_key_b < 0"
  using layered_compare_lex [OF demo_keys(1,2)] by (simp add: demo_keys)

section \<open>Moving between layers\<close>

fun shift_n :: "nat \<Rightarrow> key \<Rightarrow> key" where
  "shift_n 0 k = k"
| "shift_n (Suc n) k = shift (shift_n n k)"

lemma shift_n_wf:
  assumes "key_wf k" "8 * n < length (key_str k) \<or> n = 0"
  shows "key_wf (shift_n n k) \<and> key_str (shift_n n k) = drop (8 * n) (key_str k)
    \<and> kfirst (shift_n n k) = kfirst k \<and> kbuf (shift_n n k) = kbuf k
    \<and> koff (shift_n n k) = koff k + 8 * n \<and> klen (shift_n n k) = klen k - 8 * int n"
  using assms
proof (induction n)
  case (Suc n)
  then have IH: "key_wf (shift_n n k)" "key_str (shift_n n k) = drop (8 * n) (key_str k)"
    "kfirst (shift_n n k) = kfirst k" "kbuf (shift_n n k) = kbuf k"
    "koff (shift_n n k) = koff k + 8 * n" "klen (shift_n n k) = klen k - 8 * int n" by auto
  have "8 < length (key_str (shift_n n k))" using Suc.prems IH(2) by simp
  then have "has_suffix (shift_n n k)" using has_suffix_str [OF IH(1)] by simp
  then show ?case using shift_wf [OF IH(1)] IH by (simp add: add.commute)
qed simp

text \<open>
  Descending layers and coming back: a key shifted once per layer stands for the rest
  of the string after those slices, with the slice that a fresh key for that rest would
  have (although it is computed by a load that reaches before the string), the shifted-over
  bytes are its prefix, and \<open>unshift_all\<close> restores the original key.
\<close>

theorem shift_roundtrip:
  assumes "key_wf k" "kfirst k = koff k" "8 * n < length (key_str k)"
  shows "key_wf (shift_n n k) \<and> key_str (shift_n n k) = drop (8 * n) (key_str k)
    \<and> kikey (shift_n n k) = ikey_of (drop (8 * n) (key_str k))
    \<and> prefix_string (shift_n n k) = take (8 * n) (key_str k)
    \<and> full_string (shift_n n k) = key_str k \<and> unshift_all (shift_n n k) = k"
proof -
  have sh: "key_wf (shift_n n k)" "key_str (shift_n n k) = drop (8 * n) (key_str k)"
    "kfirst (shift_n n k) = kfirst k" "kbuf (shift_n n k) = kbuf k"
    "koff (shift_n n k) = koff k + 8 * n" "klen (shift_n n k) = klen k - 8 * int n"
    using shift_n_wf [OF assms(1), of n] assms(3) by auto
  have len: "int (8 * n) < klen k" "0 \<le> klen k" "koff k + nat (klen k) \<le> length (kbuf k)"
    using assms(1,3) length_key_str [OF assms(1)] by (auto simp: key_wf_def)
  have "prefix_string (shift_n n k) = take (8 * n) (key_str k)"
    using sh assms(2) len by (simp add: prefix_string_def key_str_def min_def)
  moreover have "8 * n + nat (klen k - 8 * int n) = nat (klen k)" using len by linarith
  then have "full_string (shift_n n k) = key_str k"
    using sh assms(2) by (simp add: full_string_def key_str_def)
  moreover have "make_comparable (kbuf k) (koff k) (klen k) = kikey k"
    using assms(1) len by (simp add: key_wf_def key_str_def ikey_of_at)
  then have "unshift_all (shift_n n k) = k"
    using sh assms(2) by (cases "n = 0") (auto simp: unshift_all_def Let_def intro: key.equality)
  ultimately show ?thesis using sh by (simp add: key_wf_def)
qed

lemma demo_key_first: "kfirst demo_key_a = koff demo_key_a"
  by (simp add: demo_key_a_def key_string_def)

theorem shift_roundtrip_witness: "unshift_all (shift_n 1 demo_key_a) = demo_key_a \<and> key_str (shift_n 1 demo_key_a) = [9, 0]"
  using shift_roundtrip [OF demo_keys(1) demo_key_first, of 1] by (simp add: demo_keys)

text \<open>
  Printing a key gives its string back: \<open>unparse\<close> rebuilds the slice of the current
  layer from the ikey and copies the suffix, up to the space available.
\<close>

theorem key_unparse_string:
  assumes "key_wf k"
  shows "key_unparse k datalen = take datalen (key_str k)"
proof -
  let ?s = "key_str k" and ?c = "min (nat (klen k)) datalen"
  have ik: "kikey k = ikey_of ?s" and len: "length ?s = nat (klen k)" using assms length_key_str by (auto simp: key_wf_def)
  have "unparse_comparable_len ?c (ikey_of ?s) 8 = take (min 8 ?c) (pad8 ?s)"
    by (simp add: unparse_comparable_len_def Let_def le_store_ikey slice_size_def)
  also have "\<dots> = take (min 8 ?c) ?s" using len by (auto simp: pad8_def min_def)
  finally have "key_unparse k datalen = take (min 8 ?c) ?s @ (if 8 < ?c then take (?c - 8) (drop 8 ?s) else [])"
    by (simp add: key_unparse_def ik ikey_size_def Let_def key_str_def drop_take min_def add.commute)
  also have "\<dots> = take ?c ?s" using take_add [of 8 "?c - 8" ?s] by (auto simp: min_def)
  also have "\<dots> = take datalen ?s" using len by (auto simp: min_def)
  finally show ?thesis .
qed

theorem key_unparse_string_witness: "key_unparse demo_key_a 9 = [1, 2, 3, 4, 5, 6, 7, 8, 9]"
  using key_unparse_string [OF demo_keys(1), of 9] by (simp add: demo_keys)

text \<open>
  The key a scan continues from: \<open>increment\<close> moves to the next possible position.
  Every entry (slice and length, with length 0 only for slice 0) that lies strictly after
  the key in the order of a layer lies at or after the incremented key, and no other does,
  unless the slice wraps around, which \<open>increment\<close> reports: then nothing lies after the key.
\<close>

theorem increment_next:
  assumes "0 \<le> klen k" "0 \<le> keylenx" "keylenx = 0 \<Longrightarrow> ikey = 0"
  shows "(if fst (increment k) then \<not> compare_ikey k ikey keylenx < 0
          else (compare_ikey k ikey keylenx < 0 \<longleftrightarrow> compare_ikey (snd (increment k)) ikey keylenx \<le> 0))"
proof (cases "has_suffix k")
  case False
  then show ?thesis using assms
    by (auto simp: increment_def compare_ikey_def has_suffix_def Let_def compare_u64_def ikey_size_def)
next
  case True
  have next_ge: "kikey k < ikey \<longleftrightarrow> kikey k + 1 \<le> ikey" if "kikey k + 1 \<noteq> 0"
  proof -
    have "unat (kikey k + 1) = Suc (unat (kikey k))" using unatSuc [of "kikey k"] that by (simp add: add.commute)
    then show ?thesis by (simp add: word_less_nat_alt word_le_nat_alt Suc_le_eq)
  qed
  have top: "\<not> kikey k < ikey" if "kikey k + 1 = 0"
  proof -
    have "kikey k = - 1" using that by (simp add: eq_neg_iff_add_eq_0)
    then show ?thesis by (simp add: not_less)
  qed
  show ?thesis
  proof (cases "kikey k + 1 = 0")
    case wrap: True
    then show ?thesis using True top
      by (auto simp: increment_def compare_ikey_def has_suffix_def Let_def compare_u64_def ikey_size_def)
  next
    case no_wrap: False
    have "ikey = kikey k + 1 \<Longrightarrow> keylenx \<noteq> 0" using assms(3) no_wrap by auto
    then show ?thesis using True no_wrap next_ge [OF no_wrap] assms(2)
      by (auto simp: increment_def compare_ikey_def has_suffix_def Let_def compare_u64_def ikey_size_def)
  qed
qed

theorem increment_next_witness:
  "compare_ikey (key_ikey_len 5 3) 5 4 < 0 \<and> compare_ikey (snd (increment (key_ikey_len 5 3))) 5 4 \<le> 0"
  using increment_next [of "key_ikey_len 5 3" 4 5]
  by (simp add: key_ikey_len_def increment_def has_suffix_def ikey_size_def compare_ikey_def compare_u64_def)

end
