(* ===== verification/Ksearch.thy ===== *)
theory Ksearch
  imports Main
begin

text \<open>
  Searching a node (\<open>ksearch.hh\<close>): the binary and the linear versions of the upper and the
  lower bound.  A node is seen through its size, its permutation of slots (\<open>perm i\<close> is the
  slot of the \<open>i\<close>-th key; the identity for internodes) and the comparison of the sought
  key with the key in a slot.  A position is a pair of the rank \<open>i\<close> and the slot, -1 for no
  slot.
\<close>

type_synonym key_indexed_position = "nat \<times> int"

section \<open>The loops\<close>

function upper_bound_loop :: "(nat \<Rightarrow> nat) \<Rightarrow> (nat \<Rightarrow> int) \<Rightarrow> nat \<Rightarrow> nat \<Rightarrow> nat" where
  "upper_bound_loop perm comparator l r =
     (if l < r then
        let m = (l + r) div 2; mp = perm m; cmp = comparator mp
        in if cmp < 0 then upper_bound_loop perm comparator l m
           else if cmp = 0 then m + 1
           else upper_bound_loop perm comparator (m + 1) r
      else l)"
  by auto
termination by (relation "measure (\<lambda>(perm, comparator, l, r). r - l)") auto

definition key_upper_bound_by :: "(nat \<Rightarrow> nat) \<Rightarrow> nat \<Rightarrow> (nat \<Rightarrow> int) \<Rightarrow> nat" where
  "key_upper_bound_by perm sz comparator = upper_bound_loop perm comparator 0 sz"

function lower_bound_loop :: "(nat \<Rightarrow> nat) \<Rightarrow> (nat \<Rightarrow> int) \<Rightarrow> nat \<Rightarrow> nat \<Rightarrow> key_indexed_position" where
  "lower_bound_loop perm comparator l r =
     (if l < r then
        let m = (l + r) div 2; mp = perm m; cmp = comparator mp
        in if cmp < 0 then lower_bound_loop perm comparator l m
           else if cmp = 0 then (m, int mp)
           else lower_bound_loop perm comparator (m + 1) r
      else (l, -1))"
  by auto
termination by (relation "measure (\<lambda>(perm, comparator, l, r). r - l)") auto

definition key_lower_bound_by :: "(nat \<Rightarrow> nat) \<Rightarrow> nat \<Rightarrow> (nat \<Rightarrow> int) \<Rightarrow> key_indexed_position" where
  "key_lower_bound_by perm sz comparator = lower_bound_loop perm comparator 0 sz"

function find_upper_loop :: "(nat \<Rightarrow> nat) \<Rightarrow> (nat \<Rightarrow> int) \<Rightarrow> nat \<Rightarrow> nat \<Rightarrow> nat" where
  "find_upper_loop perm comparator l r =
     (if l < r then
        let cmp = comparator (perm l) in if cmp < 0 then l else find_upper_loop perm comparator (Suc l) r
      else l)"
  by auto
termination by (relation "measure (\<lambda>(perm, comparator, l, r). r - l)") auto

definition key_find_upper_bound_by :: "(nat \<Rightarrow> nat) \<Rightarrow> nat \<Rightarrow> (nat \<Rightarrow> int) \<Rightarrow> nat" where
  "key_find_upper_bound_by perm sz comparator = find_upper_loop perm comparator 0 sz"

function find_lower_loop :: "(nat \<Rightarrow> nat) \<Rightarrow> (nat \<Rightarrow> int) \<Rightarrow> nat \<Rightarrow> nat \<Rightarrow> key_indexed_position" where
  "find_lower_loop perm comparator l r =
     (if l < r then
        let lp = perm l; cmp = comparator lp
        in if cmp < 0 then (l, -1) else if cmp = 0 then (l, int lp)
           else find_lower_loop perm comparator (Suc l) r
      else (l, -1))"
  by auto
termination by (relation "measure (\<lambda>(perm, comparator, l, r). r - l)") auto

definition key_find_lower_bound_by :: "(nat \<Rightarrow> nat) \<Rightarrow> nat \<Rightarrow> (nat \<Rightarrow> int) \<Rightarrow> key_indexed_position" where
  "key_find_lower_bound_by perm sz comparator = find_lower_loop perm comparator 0 sz"

declare upper_bound_loop.simps [simp del] lower_bound_loop.simps [simp del]
  find_upper_loop.simps [simp del] find_lower_loop.simps [simp del]

section \<open>What a search promises\<close>

text \<open>The keys of the node are in strictly increasing order, as far as the comparison can tell.\<close>

definition sorted_for :: "(nat \<Rightarrow> nat) \<Rightarrow> nat \<Rightarrow> (nat \<Rightarrow> int) \<Rightarrow> bool" where
  "sorted_for perm sz comparator \<longleftrightarrow>
     (\<forall>i j. i < j \<longrightarrow> j < sz \<longrightarrow> comparator (perm i) \<le> 0 \<longrightarrow> comparator (perm j) < 0)"

definition upper_at :: "(nat \<Rightarrow> nat) \<Rightarrow> nat \<Rightarrow> (nat \<Rightarrow> int) \<Rightarrow> nat \<Rightarrow> bool" where
  "upper_at perm sz comparator u \<longleftrightarrow> u \<le> sz \<and> (\<forall>i<u. 0 \<le> comparator (perm i))
     \<and> (\<forall>i. u \<le> i \<longrightarrow> i < sz \<longrightarrow> comparator (perm i) < 0)"

definition lower_at :: "(nat \<Rightarrow> nat) \<Rightarrow> nat \<Rightarrow> (nat \<Rightarrow> int) \<Rightarrow> key_indexed_position \<Rightarrow> bool" where
  "lower_at perm sz comparator kx \<longleftrightarrow> (case kx of (i, p) \<Rightarrow>
     i \<le> sz \<and> (\<forall>j<i. 0 < comparator (perm j))
     \<and> (if p < 0 then p = -1 \<and> (\<forall>j. i \<le> j \<longrightarrow> j < sz \<longrightarrow> comparator (perm j) < 0)
        else i < sz \<and> p = int (perm i) \<and> comparator (perm i) = 0
          \<and> (\<forall>j. i < j \<longrightarrow> j < sz \<longrightarrow> comparator (perm j) < 0)))"

lemma upper_at_unique: "upper_at perm n c u \<Longrightarrow> upper_at perm n c v \<Longrightarrow> u = v"
  unfolding upper_at_def by (metis linorder_neqE_nat not_le order_less_le_trans order_refl)

lemma lower_at_unique: "lower_at perm n c kx \<Longrightarrow> lower_at perm n c ky \<Longrightarrow> kx = ky"
proof -
  obtain i p j q where k: "kx = (i, p)" "ky = (j, q)" by (cases kx, cases ky) auto
  assume a: "lower_at perm n c kx" "lower_at perm n c ky"
  have i: "i \<le> n" "\<And>m. m < i \<Longrightarrow> 0 < c (perm m)" "p < 0 \<Longrightarrow> i < n \<Longrightarrow> c (perm i) < 0" "\<not> p < 0 \<Longrightarrow> c (perm i) = 0"
    "p < 0 \<Longrightarrow> p = -1" "\<not> p < 0 \<Longrightarrow> i < n \<and> p = int (perm i)"
    using a(1) unfolding k lower_at_def by (auto split: if_splits)
  have j: "j \<le> n" "\<And>m. m < j \<Longrightarrow> 0 < c (perm m)" "q < 0 \<Longrightarrow> j < n \<Longrightarrow> c (perm j) < 0" "\<not> q < 0 \<Longrightarrow> c (perm j) = 0"
    "q < 0 \<Longrightarrow> q = -1" "\<not> q < 0 \<Longrightarrow> j < n \<and> q = int (perm j)"
    using a(2) unfolding k lower_at_def by (auto split: if_splits)
  have ij: "\<not> i < j"
  proof
    assume "i < j"
    then have "0 < c (perm i)" "i < n" using j(1,2) by auto
    then show False using i(3,4) by (cases "p < 0") auto
  qed
  have ji: "\<not> j < i"
  proof
    assume "j < i"
    then have "0 < c (perm j)" "j < n" using i(1,2) by auto
    then show False using j(3,4) by (cases "q < 0") auto
  qed
  have "i = j" using ij ji by simp
  then show ?thesis using i(3-6) j(3-6) k by (cases "p < 0"; cases "q < 0") auto
qed

section \<open>The interface\<close>

text \<open>
  What the tree code relies on (\<open>bound_type\<close> of a node class): on a sorted node the two
  bounds are found.  The lemmas of the clients are proved from this contract alone.
\<close>

locale bound_method =
  fixes lower :: "(nat \<Rightarrow> nat) \<Rightarrow> nat \<Rightarrow> (nat \<Rightarrow> int) \<Rightarrow> key_indexed_position"
    and upper :: "(nat \<Rightarrow> nat) \<Rightarrow> nat \<Rightarrow> (nat \<Rightarrow> int) \<Rightarrow> nat"
  assumes lower_law: "sorted_for perm n c \<Longrightarrow> lower_at perm n c (lower perm n c)"
    and upper_law: "sorted_for perm n c \<Longrightarrow> upper_at perm n c (upper perm n c)"
begin

lemma lower_eqI: "sorted_for perm n c \<Longrightarrow> lower_at perm n c kx \<Longrightarrow> lower perm n c = kx"
  using lower_law lower_at_unique by blast

lemma upper_eqI: "sorted_for perm n c \<Longrightarrow> upper_at perm n c u \<Longrightarrow> upper perm n c = u"
  using upper_law upper_at_unique by blast

lemma lower_found_iff: "sorted_for perm n c \<Longrightarrow> snd (lower perm n c) \<ge> 0 \<longleftrightarrow> (\<exists>i<n. c (perm i) = 0)"
proof -
  assume s: "sorted_for perm n c"
  obtain i p where k: "lower perm n c = (i, p)" by fastforce
  have "lower_at perm n c (i, p)" using lower_law [OF s] k by simp
  then show ?thesis unfolding k lower_at_def
    by (auto split: if_splits) (metis less_irrefl linorder_not_less less_le_not_le)
qed

lemma upper_of_lower:
  "sorted_for perm n c \<Longrightarrow> upper perm n c = (let (i, p) = lower perm n c in if p < 0 then i else i + 1)"
proof -
  assume s: "sorted_for perm n c"
  obtain i p where k: "lower perm n c = (i, p)" by fastforce
  have l: "lower_at perm n c (i, p)" using lower_law [OF s] k by simp
  show ?thesis
  proof (rule upper_eqI [OF s])
    show "upper_at perm n c (let (i, p) = lower perm n c in if p < 0 then i else i + 1)"
      using l unfolding k upper_at_def lower_at_def by (auto simp: less_Suc_eq Suc_le_eq order.strict_implies_order)
  qed
qed

end

section \<open>Both methods meet it\<close>

lemma sorted_forD:
  assumes "sorted_for perm n c" "m < n"
  shows "c (perm m) \<le> 0 \<Longrightarrow> m < i \<Longrightarrow> i < n \<Longrightarrow> c (perm i) < 0"
    "0 \<le> c (perm m) \<Longrightarrow> i < m \<Longrightarrow> 0 < c (perm i)"
  using assms unfolding sorted_for_def by (meson, meson not_le)

lemma upper_bound_loop_at:
  assumes "sorted_for perm n c" "l \<le> r" "r \<le> n" "\<forall>i<l. 0 \<le> c (perm i)" "\<forall>i. r \<le> i \<longrightarrow> i < n \<longrightarrow> c (perm i) < 0"
  shows "upper_at perm n c (upper_bound_loop perm c l r)"
  using assms
proof (induction perm c l r rule: upper_bound_loop.induct)
  case (1 perm c l r)
  let ?m = "(l + r) div 2"
  show ?case
  proof (cases "l < r")
    case False
    then have "upper_bound_loop perm c l r = l" by (simp add: upper_bound_loop.simps [of perm c l r])
    moreover have "l = r" using False 1 by simp
    ultimately show ?thesis using 1 by (simp add: upper_at_def)
  next
    case True
    then have m: "l \<le> ?m" "?m < r" "?m < n" using 1 by auto
    note s = sorted_forD [OF 1(3) m(3)]
    have above: "c (perm ?m) \<le> 0 \<Longrightarrow> \<forall>i. ?m < i \<longrightarrow> i < n \<longrightarrow> c (perm i) < 0" using s(1) by blast
    have below: "0 \<le> c (perm ?m) \<Longrightarrow> \<forall>i<?m + 1. 0 \<le> c (perm i)" using s(2) by (auto simp: less_Suc_eq intro: order.strict_implies_order)
    consider "c (perm ?m) < 0" | "c (perm ?m) = 0" | "0 < c (perm ?m)" by linarith
    then show ?thesis
    proof cases
      case 1
      have "upper_at perm n c (upper_bound_loop perm c l ?m)"
        by (rule "1.IH"(1) [OF True refl refl refl 1]) (use "1.prems" m above 1 in \<open>auto simp: le_less\<close>)
      then show ?thesis using True 1 by (simp add: upper_bound_loop.simps [of perm c l r])
    next
      case 2
      then show ?thesis using True m above below
        by (simp add: upper_bound_loop.simps [of perm c l r] upper_at_def Suc_le_eq)
    next
      case 3
      have "upper_at perm n c (upper_bound_loop perm c (?m + 1) r)"
        by (rule "1.IH"(2) [OF True refl refl refl]) (use "1.prems" m below 3 in auto)
      then show ?thesis using True 3 by (simp add: upper_bound_loop.simps [of perm c l r])
    qed
  qed
qed

lemma lower_bound_loop_at:
  assumes "sorted_for perm n c" "l \<le> r" "r \<le> n" "\<forall>i<l. 0 < c (perm i)" "\<forall>i. r \<le> i \<longrightarrow> i < n \<longrightarrow> c (perm i) < 0"
  shows "lower_at perm n c (lower_bound_loop perm c l r)"
  using assms
proof (induction perm c l r rule: lower_bound_loop.induct)
  case (1 perm c l r)
  let ?m = "(l + r) div 2"
  show ?case
  proof (cases "l < r")
    case False
    then have "lower_bound_loop perm c l r = (l, - 1)" by (simp add: lower_bound_loop.simps [of perm c l r])
    moreover have "l = r" using False 1 by simp
    ultimately show ?thesis using 1 by (simp add: lower_at_def)
  next
    case True
    then have m: "l \<le> ?m" "?m < r" "?m < n" using 1 by auto
    note s = sorted_forD [OF 1(3) m(3)]
    have above: "c (perm ?m) \<le> 0 \<Longrightarrow> \<forall>i. ?m < i \<longrightarrow> i < n \<longrightarrow> c (perm i) < 0" using s(1) by blast
    have below: "0 \<le> c (perm ?m) \<Longrightarrow> \<forall>i<?m. 0 < c (perm i)" using s(2) by blast
    consider "c (perm ?m) < 0" | "c (perm ?m) = 0" | "0 < c (perm ?m)" by linarith
    then show ?thesis
    proof cases
      case 1
      have "lower_at perm n c (lower_bound_loop perm c l ?m)"
        by (rule "1.IH"(1) [OF True refl refl refl 1]) (use "1.prems" m above 1 in \<open>auto simp: le_less\<close>)
      then show ?thesis using True 1 by (simp add: lower_bound_loop.simps [of perm c l r])
    next
      case 2
      then show ?thesis using True m above below
        by (simp add: lower_bound_loop.simps [of perm c l r] lower_at_def Let_def)
    next
      case 3
      have "lower_at perm n c (lower_bound_loop perm c (?m + 1) r)"
        by (rule "1.IH"(2) [OF True refl refl refl]) (use "1.prems" m below 3 in \<open>auto simp: less_Suc_eq\<close>)
      then show ?thesis using True 3 by (simp add: lower_bound_loop.simps [of perm c l r])
    qed
  qed
qed

lemma find_upper_loop_at:
  assumes "sorted_for perm n c" "l \<le> n" "\<forall>i<l. 0 \<le> c (perm i)"
  shows "upper_at perm n c (find_upper_loop perm c l n)"
  using assms
proof (induction perm c l n rule: find_upper_loop.induct)
  case (1 perm c l n)
  show ?case
  proof (cases "l < n \<and> 0 \<le> c (perm l)")
    case True
    then have "upper_at perm n c (find_upper_loop perm c (Suc l) n)" using 1 by (auto simp: less_Suc_eq)
    then show ?thesis using True by (simp add: find_upper_loop.simps [of perm c l n])
  next
    case False
    then have "find_upper_loop perm c l n = l" by (auto simp: find_upper_loop.simps [of perm c l n])
    then show ?thesis using 1(3,4) False sorted_forD(1) [OF 1(2), of l]
      by (auto simp: upper_at_def le_less)
  qed
qed

lemma find_lower_loop_at:
  assumes "sorted_for perm n c" "l \<le> n" "\<forall>i<l. 0 < c (perm i)"
  shows "lower_at perm n c (find_lower_loop perm c l n)"
  using assms
proof (induction perm c l n rule: find_lower_loop.induct)
  case (1 perm c l n)
  show ?case
  proof (cases "l < n \<and> 0 < c (perm l)")
    case True
    then have "lower_at perm n c (find_lower_loop perm c (Suc l) n)" using 1 by (auto simp: less_Suc_eq)
    then show ?thesis using True by (simp add: find_lower_loop.simps [of perm c l n])
  next
    case False
    then have "find_lower_loop perm c l n = (if l < n \<and> c (perm l) = 0 then (l, int (perm l)) else (l, -1))"
      by (auto simp: find_lower_loop.simps [of perm c l n])
    then show ?thesis using 1(3,4) False sorted_forD(1) [OF 1(2), of l]
      by (auto simp: lower_at_def le_less)
  qed
qed

interpretation binary: bound_method key_lower_bound_by key_upper_bound_by
  by unfold_locales
    (simp_all add: key_lower_bound_by_def key_upper_bound_by_def lower_bound_loop_at upper_bound_loop_at)

interpretation linear: bound_method key_find_lower_bound_by key_find_upper_bound_by
  by unfold_locales
    (simp_all add: key_find_lower_bound_by_def key_find_upper_bound_by_def find_lower_loop_at find_upper_loop_at)

text \<open>
  C31.  On a node whose keys are strictly sorted, the binary searches (used for the nodes of
  the default table) and the linear searches return the same positions: the upper bound is
  the number of keys not above the sought one, the lower bound the rank and slot of the
  sought key, or the rank where it belongs and no slot.  In particular the binary loops,
  which look at logarithmically many slots, terminate with the reference result.
\<close>

theorem search_methods_agree:
  assumes "sorted_for perm n c"
  shows "key_upper_bound_by perm n c = key_find_upper_bound_by perm n c
    \<and> key_lower_bound_by perm n c = key_find_lower_bound_by perm n c
    \<and> upper_at perm n c (key_upper_bound_by perm n c) \<and> lower_at perm n c (key_lower_bound_by perm n c)"
  using binary.upper_eqI [OF assms linear.upper_law [OF assms]] binary.lower_eqI [OF assms linear.lower_law [OF assms]]
    binary.upper_law [OF assms] binary.lower_law [OF assms] by simp

theorem search_methods_agree_witness:
  "key_lower_bound_by (\<lambda>i. [3, 0, 2] ! i) 3 (\<lambda>p. 20 - [15, 0, 30, 10] ! p) = (2, -1)"
proof -
  have "sorted_for (\<lambda>i. [3, 0, 2] ! i) 3 (\<lambda>p. 20 - [15, 0, 30, 10] ! p)"
    by (auto simp: sorted_for_def less_Suc_eq numeral_3_eq_3 nth_Cons split: nat.splits)
  from search_methods_agree [OF this] show ?thesis
    by (simp add: key_find_lower_bound_by_def find_lower_loop.simps numeral_2_eq_2)
qed

end
