(* ===== verification/Pextlog.thy ===== *)
theory Pextlog
  imports String_Slice
begin

text \<open>
  The external node log (\<open>PExtNodeLogger\<close> and \<open>PLogAllocator\<close> of \<open>incll_pextlog.hh\<close>, and the
  range flush of \<open>incll_extflush.hh\<close>).  Memory maps 64-bit addresses to bytes.  The log is a
  byte buffer; a record in it is a 24-byte header (entry size, node address, validity) and
  a copy of the node's bytes.  Repairing a copied-back node (\<open>fix_all\<close> or \<open>fix_lock\<close>) is a
  function on the node's bytes, a parameter here.
\<close>

type_synonym memory = "u64 \<Rightarrow> u8"

definition mem_read :: "memory \<Rightarrow> u64 \<Rightarrow> nat \<Rightarrow> bytes" where
  "mem_read m a n = map (\<lambda>i. m (a + of_nat i)) [0..<n]"

definition mem_write :: "memory \<Rightarrow> u64 \<Rightarrow> bytes \<Rightarrow> memory" where
  "mem_write m a bs = (\<lambda>x. if unat (x - a) < length bs then bs ! unat (x - a) else m x)"

section \<open>The logger\<close>

record plog =
  lcurr :: nat
  llast_flush :: nat
  lbuf_size :: nat
  lroot :: u64
  lbuf :: bytes

definition pbuf_size :: nat where "pbuf_size = 2 ^ 28"
definition log_region_addr :: nat where "log_region_addr = 2 ^ 24"
definition log_max_thread :: nat where "log_max_thread = 60"
definition entry_meta_size :: nat where "entry_meta_size = 24"
definition entry_valid_magic :: u64 where "entry_valid_magic = 18"
definition full_flush_range :: nat where "full_flush_range = 32"

definition plog_init :: "plog \<Rightarrow> plog" where
  "plog_init l = l\<lparr>lcurr := 0, llast_flush := 0, lbuf_size := pbuf_size - full_flush_range\<rparr>"

definition plog_checkpoint :: "u64 \<Rightarrow> plog \<Rightarrow> plog" where
  "plog_checkpoint global_root l = l\<lparr>lroot := global_root, llast_flush := lcurr l\<rparr>"

definition get_entry_size :: "nat \<Rightarrow> nat" where
  "get_entry_size sz = entry_meta_size + sz"

definition rec_size :: "bytes \<Rightarrow> nat \<Rightarrow> nat" where
  "rec_size b off = unat (load_at b off)"

definition rec_addr :: "bytes \<Rightarrow> nat \<Rightarrow> u64" where
  "rec_addr b off = load_at b (off + 8)"

definition check_validity :: "bytes \<Rightarrow> nat \<Rightarrow> bool" where
  "check_validity b off \<longleftrightarrow> load_at b (off + 16) = entry_valid_magic"

definition rec_content :: "bytes \<Rightarrow> nat \<Rightarrow> nat \<Rightarrow> bytes" where
  "rec_content b off n = take n (drop (off + entry_meta_size) b)"

definition rec_bytes :: "nat \<Rightarrow> u64 \<Rightarrow> bytes \<Rightarrow> bytes" where
  "rec_bytes entry_size node content =
     le_store (of_nat entry_size) @ le_store node @ le_store entry_valid_magic @ content"

definition plog_record :: "u64 \<Rightarrow> nat \<Rightarrow> memory \<Rightarrow> plog \<Rightarrow> plog" where
  "plog_record node node_size m l =
     (let wrapped = lcurr l + get_entry_size node_size > lbuf_size l;
          curr = (if wrapped then 0 else lcurr l);
          entry_size = (if wrapped then rec_size (lbuf l) 0 else get_entry_size node_size)
      in l\<lparr>lbuf := buf_write (lbuf l) curr (rec_bytes entry_size node (mem_read m node node_size)),
           lcurr := curr + entry_size\<rparr>)"

definition undo_step :: "(bytes \<Rightarrow> bytes) \<Rightarrow> plog \<Rightarrow> memory \<Rightarrow> plog \<times> memory" where
  "undo_step fixn l m =
     (let wrapped = \<not> check_validity (lbuf l) (llast_flush l)
            \<or> llast_flush l + rec_size (lbuf l) (llast_flush l) > lbuf_size l;
          off = (if wrapped then 0 else llast_flush l);
          entry_size = rec_size (lbuf l) off;
          copy_size = entry_size - entry_meta_size;
          node = rec_addr (lbuf l) off;
          m1 = mem_write m node (rec_content (lbuf l) off copy_size);
          m2 = mem_write m1 node (fixn (mem_read m1 node copy_size))
      in (l\<lparr>llast_flush := off + entry_size\<rparr>, m2))"

fun plog_undo :: "nat \<Rightarrow> (bytes \<Rightarrow> bytes) \<Rightarrow> plog \<Rightarrow> memory \<Rightarrow> (plog \<times> memory) option" where
  "plog_undo fuel fixn l m =
     (if llast_flush l = lcurr l then Some (l, m)
      else case fuel of
        0 \<Rightarrow> None
      | Suc n \<Rightarrow> (case undo_step fixn l m of (l', m') \<Rightarrow> plog_undo n fixn l' m'))"

definition init_plog_addr :: "nat \<Rightarrow> nat" where
  "init_plog_addr tid = log_region_addr + tid * pbuf_size"

definition init_plog :: "bool \<Rightarrow> plog \<Rightarrow> plog" where
  "init_plog exists plog = (if exists then plog else plog_init plog)"

section \<open>Flushing a range\<close>

fun flush_lines_loop :: "nat \<Rightarrow> nat \<Rightarrow> nat \<Rightarrow> nat list" where
  "flush_lines_loop 0 pp e = []"
| "flush_lines_loop (Suc n) pp e = (if pp < e then (pp div 64) # flush_lines_loop n (pp + 64) e else [])"

definition sync_range :: "nat \<Rightarrow> nat \<Rightarrow> nat list" where
  "sync_range start e = (start div 64) # flush_lines_loop (e - start) ((start div 64) * 64 + 64) e"

section \<open>Memory\<close>

definition region :: "u64 \<Rightarrow> nat \<Rightarrow> u64 set" where
  "region a n = {x. unat (x - a) < n}"

lemma length_mem_read [simp]: "length (mem_read m a n) = n"
  by (simp add: mem_read_def)

lemma read_index: "i < n \<Longrightarrow> n \<le> 2 ^ 64 \<Longrightarrow> unat (of_nat i :: u64) = i"
  by (simp add: unsigned_of_nat take_bit_nat_eq_self)

lemma mem_read_write_same: "length bs \<le> 2 ^ 64 \<Longrightarrow> mem_read (mem_write m a bs) a (length bs) = bs"
  by (rule nth_equalityI) (simp_all add: mem_read_def mem_write_def read_index)

lemma mem_write_outside: "x \<notin> region a (length bs) \<Longrightarrow> mem_write m a bs x = m x"
  by (simp add: mem_write_def region_def)

lemma mem_read_eq: "(\<And>x. x \<in> region a n \<Longrightarrow> m x = m' x) \<Longrightarrow> n \<le> 2 ^ 64 \<Longrightarrow> mem_read m a n = mem_read m' a n"
  by (auto simp: mem_read_def region_def read_index)

lemma mem_read_write_disjoint:
  "region a n \<inter> region b (length bs) = {} \<Longrightarrow> n \<le> 2 ^ 64 \<Longrightarrow> mem_read (mem_write m b bs) a n = mem_read m a n"
  by (rule mem_read_eq) (auto intro: mem_write_outside)

lemma mem_write_twice:
  "length bs = length cs \<Longrightarrow> mem_write (mem_write m a bs) a cs = mem_write m a cs"
  by (auto simp: mem_write_def)

section \<open>Records\<close>

fun log_at :: "bytes \<Rightarrow> nat \<Rightarrow> (u64 \<times> bytes) list \<Rightarrow> nat \<Rightarrow> bool" where
  "log_at b off [] e \<longleftrightarrow> off = e"
| "log_at b off ((a, c) # es) e \<longleftrightarrow> rec_size b off = entry_meta_size + length c \<and> rec_addr b off = a
     \<and> check_validity b off \<and> rec_content b off (length c) = c
     \<and> log_at b (off + entry_meta_size + length c) es e"

lemma log_at_le: "log_at b off es e \<Longrightarrow> off \<le> e"
proof (induction es arbitrary: off)
  case (Cons x es)
  then show ?case by (cases x) (auto dest!: Cons.IH)
qed simp

lemma load_at_write_before:
  "pos + length s \<le> length b \<Longrightarrow> off + 8 \<le> pos \<Longrightarrow> load_at (buf_write b pos s) off = load_at b off"
  by (simp add: load_at_def buf_write_other)

lemma log_at_frame:
  assumes "log_at b off es e" "e \<le> pos" "pos + length s \<le> length b"
  shows "log_at (buf_write b pos s) off es e"
  using assms
proof (induction es arbitrary: off)
  case (Cons x es)
  obtain a c where x: "x = (a, c)" by fastforce
  have "off + 24 + length c \<le> e" using Cons.prems(1) x log_at_le by (fastforce simp: entry_meta_size_def)
  then have "off + 24 + length c \<le> pos" using Cons.prems(2) by simp
  then show ?case using Cons x
    by (simp add: rec_size_def rec_addr_def check_validity_def rec_content_def load_at_write_before buf_write_other entry_meta_size_def)
qed simp

lemma log_at_append: "log_at b off es e \<Longrightarrow> log_at b e fs f \<Longrightarrow> log_at b off (es @ fs) f"
  by (induction es arbitrary: off) auto

lemma rec_bytes_at:
  assumes "take (24 + length c) (drop off b) = rec_bytes sz a c" "sz < 2 ^ 64" "off + 24 + length c \<le> length b"
  shows "rec_size b off = sz" "rec_addr b off = a" "check_validity b off" "rec_content b off (length c) = c"
proof -
  let ?r = "rec_bytes sz a c"
  have sub: "take n (drop (off + k) b) = take n (drop k ?r)" if "k + n \<le> 24 + length c" for n k
  proof -
    have "take n (drop k (take (24 + length c) (drop off b))) = take n (drop (off + k) b)"
      using that by (simp add: drop_take add.commute min_def)
    then show ?thesis using assms(1) by simp
  qed
  have "load_at b off = le_load (take 8 ?r)" using sub [of 0 8] by (simp add: load_at_def)
  also have "\<dots> = of_nat sz" by (simp add: rec_bytes_def)
  finally show "rec_size b off = sz" using assms(2) by (simp add: rec_size_def unsigned_of_nat take_bit_nat_eq_self)
  show "rec_addr b off = a" using sub [of 8 8] by (simp add: rec_addr_def load_at_def rec_bytes_def)
  show "check_validity b off" using sub [of 16 8] by (simp add: check_validity_def load_at_def rec_bytes_def)
  show "rec_content b off (length c) = c" using sub [of 24 "length c"]
    by (simp add: rec_content_def rec_bytes_def entry_meta_size_def)
qed

lemma length_rec_bytes [simp]: "length (rec_bytes sz a c) = 24 + length c"
  by (simp add: rec_bytes_def)

definition log_ok :: "plog \<Rightarrow> (u64 \<times> bytes) list \<Rightarrow> bool" where
  "log_ok l es \<longleftrightarrow> log_at (lbuf l) (llast_flush l) es (lcurr l) \<and> lcurr l \<le> lbuf_size l
     \<and> lbuf_size l \<le> length (lbuf l) \<and> lbuf_size l < 2 ^ 64"

lemma plog_record_ok:
  assumes "log_ok l es" "lcurr l + get_entry_size n \<le> lbuf_size l"
  shows "log_ok (plog_record a n m l) (es @ [(a, mem_read m a n)])"
    and "lcurr (plog_record a n m l) = lcurr l + get_entry_size n" and "lbuf_size (plog_record a n m l) = lbuf_size l"
    and "llast_flush (plog_record a n m l) = llast_flush l"
proof -
  let ?c = "mem_read m a n" and ?sz = "get_entry_size n"
  let ?b = "buf_write (lbuf l) (lcurr l) (rec_bytes ?sz a ?c)"
  have fit: "lcurr l + length (rec_bytes ?sz a ?c) \<le> length (lbuf l)"
    using assms by (simp add: log_ok_def get_entry_size_def entry_meta_size_def)
  have rec: "plog_record a n m l = l\<lparr>lbuf := ?b, lcurr := lcurr l + ?sz\<rparr>"
    using assms(2) by (simp add: plog_record_def Let_def)
  have r: "take (24 + length ?c) (drop (lcurr l) ?b) = rec_bytes ?sz a ?c"
    using buf_write_same [OF fit] by simp
  have s: "?sz < 2 ^ 64" using assms by (simp add: log_ok_def)
  have "lcurr l + 24 + length ?c \<le> length ?b" using fit by simp
  note at = rec_bytes_at [OF r s this]
  have "log_at ?b (lcurr l) [(a, ?c)] (lcurr l + ?sz)" using at by (simp add: get_entry_size_def entry_meta_size_def)
  moreover have "log_at ?b (llast_flush l) es (lcurr l)"
    by (rule log_at_frame) (use assms(1) fit in \<open>auto simp: log_ok_def\<close>)
  ultimately have "log_at ?b (llast_flush l) (es @ [(a, ?c)]) (lcurr l + ?sz)" by (rule log_at_append [rotated])
  then show "log_ok (plog_record a n m l) (es @ [(a, ?c)])" using assms fit by (simp add: rec log_ok_def)
qed (use assms(2) in \<open>simp_all add: plog_record_def Let_def\<close>)

lemma undo_step_ok:
  assumes "log_ok l ((a, c) # es)" "length (fixn c) = length c"
  shows "undo_step fixn l m = (l\<lparr>llast_flush := llast_flush l + entry_meta_size + length c\<rparr>, mem_write m a (fixn c))"
    and "log_ok (l\<lparr>llast_flush := llast_flush l + entry_meta_size + length c\<rparr>) es"
proof -
  have at: "rec_size (lbuf l) (llast_flush l) = entry_meta_size + length c" "rec_addr (lbuf l) (llast_flush l) = a"
    "check_validity (lbuf l) (llast_flush l)" "rec_content (lbuf l) (llast_flush l) (length c) = c"
    "log_at (lbuf l) (llast_flush l + entry_meta_size + length c) es (lcurr l)"
    using assms(1) by (auto simp: log_ok_def)
  have fit: "llast_flush l + (entry_meta_size + length c) \<le> lbuf_size l"
    using log_at_le [OF at(5)] assms(1) by (simp add: log_ok_def)
  have "length c \<le> 2 ^ 64" using fit assms(1) by (simp add: log_ok_def)
  then show "undo_step fixn l m = (l\<lparr>llast_flush := llast_flush l + entry_meta_size + length c\<rparr>, mem_write m a (fixn c))"
    using at fit assms(2) by (simp add: undo_step_def Let_def mem_read_write_same mem_write_twice)
  show "log_ok (l\<lparr>llast_flush := llast_flush l + entry_meta_size + length c\<rparr>) es"
    using assms(1) at(5) by (simp add: log_ok_def)
qed

lemma log_at_nonempty: "log_at b off (x # es) e \<Longrightarrow> off \<noteq> e"
  using log_at_le by (cases x) (fastforce simp: entry_meta_size_def)

lemma plog_undo_ok:
  assumes "log_ok l es" "\<And>c. length (fixn c) = length c" "length es \<le> fuel"
  shows "\<exists>l'. plog_undo fuel fixn l m = Some (l', fold (\<lambda>(a, c) m. mem_write m a (fixn c)) es m) \<and> llast_flush l' = lcurr l \<and> lcurr l' = lcurr l"
  using assms
proof (induction es arbitrary: l m fuel)
  case Nil
  then show ?case by (simp add: log_ok_def)
next
  case (Cons x es)
  obtain a c where x: "x = (a, c)" by fastforce
  obtain n where n: "fuel = Suc n" using Cons.prems(3) by (cases fuel) auto
  note st = undo_step_ok [where fixn = fixn and c = c, OF Cons.prems(1) [unfolded x] Cons.prems(2)]
  have "llast_flush l \<noteq> lcurr l"
    using Cons.prems(1) log_at_nonempty [of "lbuf l" "llast_flush l" x es "lcurr l"] unfolding log_ok_def by blast
  then show ?case
    using Cons.IH [OF st(2) Cons.prems(2), of n "mem_write m a (fixn c)"] st(1) Cons.prems(3)
    by (simp add: n x)
qed

section \<open>Undo restores what was recorded\<close>

text \<open>A recorded node: its address, its size and the memory when it was recorded.\<close>

type_synonym recorded = "u64 \<times> nat \<times> memory"

definition rec_entry :: "recorded \<Rightarrow> u64 \<times> bytes" where
  "rec_entry r = (case r of (a, n, m) \<Rightarrow> (a, mem_read m a n))"

definition record_all :: "recorded list \<Rightarrow> plog \<Rightarrow> plog" where
  "record_all rs l = fold (\<lambda>(a, n, m) l. plog_record a n m l) rs l"

definition rec_region :: "recorded \<Rightarrow> u64 set" where
  "rec_region r = (case r of (a, n, m) \<Rightarrow> region a n)"

lemma entry_region: "region (fst (rec_entry r)) (length (snd (rec_entry r))) = rec_region r"
  by (cases r) (simp add: rec_entry_def rec_region_def)

lemma record_all_ok:
  assumes "log_ok l es" "lcurr l + sum_list (map (\<lambda>(a, n, m). get_entry_size n) rs) \<le> lbuf_size l"
  shows "log_ok (record_all rs l) (es @ map rec_entry rs)"
  using assms
proof (induction rs arbitrary: l es)
  case (Cons r rs)
  obtain a n m where r: "r = (a, n, m)" by (cases r) auto
  have fit: "lcurr l + get_entry_size n \<le> lbuf_size l" using Cons.prems(2) r by simp
  note p = plog_record_ok [OF Cons.prems(1) fit, of a m]
  show ?case
    using Cons.IH [OF p(1)] p(2,3) Cons.prems(2) r by (simp add: record_all_def rec_entry_def)
qed (simp add: record_all_def)

definition restore_all :: "(bytes \<Rightarrow> bytes) \<Rightarrow> (u64 \<times> bytes) list \<Rightarrow> memory \<Rightarrow> memory" where
  "restore_all fixn es m = fold (\<lambda>(a, c) m. mem_write m a (fixn c)) es m"

definition entry_reg :: "u64 \<times> bytes \<Rightarrow> u64 set" where
  "entry_reg e = region (fst e) (length (snd e))"

lemma restore_all_Cons: "restore_all fixn (e # es) m = restore_all fixn es (mem_write m (fst e) (fixn (snd e)))"
  by (simp add: restore_all_def split: prod.splits)

lemma restore_outside:
  assumes "\<And>c. length (fixn c) = length c"
  shows "\<forall>e \<in> set es. x \<notin> entry_reg e \<Longrightarrow> restore_all fixn es m x = m x"
proof (induction es arbitrary: m)
  case (Cons e es)
  then show ?case using mem_write_outside [of x "fst e" "fixn (snd e)" m] assms
    by (simp add: restore_all_Cons entry_reg_def)
qed (simp add: restore_all_def)

lemma restore_inside:
  assumes "\<And>c. length (fixn c) = length c" "\<forall>e \<in> set es. length (snd e) \<le> 2 ^ 64"
    "\<forall>i<length es. \<forall>j<length es. i \<noteq> j \<longrightarrow> entry_reg (es ! i) \<inter> entry_reg (es ! j) = {}" "e \<in> set es"
  shows "mem_read (restore_all fixn es m) (fst e) (length (snd e)) = fixn (snd e)"
  using assms(2-4)
proof (induction es arbitrary: m)
  case (Cons d es)
  have pairs: "\<forall>i<length es. \<forall>j<length es. i \<noteq> j \<longrightarrow> entry_reg (es ! i) \<inter> entry_reg (es ! j) = {}"
  proof (intro allI impI)
    fix i j assume "i < length es" "j < length es" "i \<noteq> j"
    then show "entry_reg (es ! i) \<inter> entry_reg (es ! j) = {}"
      using Cons.prems(2) [rule_format, of "Suc i" "Suc j"] by simp
  qed
  show ?case
  proof (cases "e \<in> set es")
    case True
    then show ?thesis using Cons.IH [OF _ pairs True] Cons.prems(1) by (simp add: restore_all_Cons)
  next
    case False
    then have e: "e = d" using Cons.prems(3) by simp
    let ?m1 = "mem_write m (fst d) (fixn (snd d))"
    have dj: "entry_reg d \<inter> entry_reg (es ! j) = {}" if "j < length es" for j
      using Cons.prems(2) [rule_format, of 0 "Suc j"] that by simp
    have len: "length (snd d) \<le> 2 ^ 64" using Cons.prems(1) by simp
    have "mem_read (restore_all fixn es ?m1) (fst d) (length (snd d)) = mem_read ?m1 (fst d) (length (snd d))"
    proof (rule mem_read_eq)
      fix x assume "x \<in> region (fst d) (length (snd d))"
      then have "\<forall>j<length es. x \<notin> entry_reg (es ! j)" using dj by (auto simp: entry_reg_def)
      then have "\<forall>e \<in> set es. x \<notin> entry_reg e" by (simp add: all_set_conv_all_nth)
      then show "restore_all fixn es ?m1 x = ?m1 x" by (rule restore_outside [OF assms(1)])
    qed (rule len)
    then show ?thesis
      using mem_read_write_same [of "fixn (snd d)" m "fst d"] assms(1) [of "snd d"] len by (simp add: e restore_all_Cons)
  qed
qed simp


definition demo_log :: plog where
  "demo_log = \<lparr>lcurr = 0, llast_flush = 0, lbuf_size = 100, lroot = 0, lbuf = replicate 100 0\<rparr>"

lemma demo_log_ok: "log_ok demo_log []"
  by (simp add: log_ok_def demo_log_def)


section \<open>Flushes\<close>

lemma flush_lines_loop_set:
  "e - pp \<le> n * 64 \<Longrightarrow> pp mod 64 = 0 \<Longrightarrow> set (flush_lines_loop n pp e) = {k. pp div 64 \<le> k \<and> k * 64 < e}"
proof (induction n arbitrary: pp)
  case 0
  then show ?case by auto
next
  case (Suc n)
  show ?case
  proof (cases "pp < e")
    case True
    have "(pp + 64) div 64 = Suc (pp div 64)" "(pp + 64) mod 64 = 0" using Suc.prems by simp_all
    moreover have "e - (pp + 64) \<le> n * 64" using Suc.prems by simp
    ultimately have "set (flush_lines_loop n (pp + 64) e) = {k. Suc (pp div 64) \<le> k \<and> k * 64 < e}"
      using Suc.IH by simp
    moreover have "pp div 64 * 64 < e" using True Suc.prems by simp
    moreover have "{k. pp div 64 \<le> k \<and> k * 64 < e} = insert (pp div 64) {k. Suc (pp div 64) \<le> k \<and> k * 64 < e}"
      if "pp div 64 * 64 < e" using that unfolding Suc_le_eq by (intro set_eqI) (simp only: mem_Collect_eq insert_iff le_less, blast)
    ultimately show ?thesis using True by simp
  next
    case False
    have "pp div 64 * 64 = pp" using Suc.prems(2) div_mult_mod_eq [of pp 64] by linarith
    then have "k * 64 < e \<Longrightarrow> \<not> pp div 64 \<le> k" for k
      using False by (metis mult_le_mono1 not_le order.strict_trans2)
    then show ?thesis using False by auto
  qed
qed

lemma sync_range_covers:
  assumes "start < e"
  shows "set (sync_range start e) = (\<lambda>x. x div 64) ` {start..<e}"
proof -
  let ?b = "(start div 64) * 64 + 64"
  have "e - ?b \<le> (e - start) * 64" by simp
  then have "set (flush_lines_loop (e - start) ?b e) = {k. ?b div 64 \<le> k \<and> k * 64 < e}"
    by (intro flush_lines_loop_set) simp_all
  then have "set (sync_range start e) = insert (start div 64) {k. Suc (start div 64) \<le> k \<and> k * 64 < e}"
    by (simp add: sync_range_def)
  also have "\<dots> = (\<lambda>x. x div 64) ` {start..<e}"
  proof (intro set_eqI iffI)
    fix k assume "k \<in> insert (start div 64) {k. Suc (start div 64) \<le> k \<and> k * 64 < e}"
    then consider "k = start div 64" | "Suc (start div 64) \<le> k" "k * 64 < e" by blast
    then show "k \<in> (\<lambda>x. x div 64) ` {start..<e}"
    proof cases
      case 1
      then show ?thesis using assms by auto
    next
      case 2
      have "start < k * 64" using 2(1) by (simp add: Suc_le_eq div_less_iff_less_mult)
      then show ?thesis using 2 by (intro image_eqI [of _ _ "k * 64"]) auto
    qed
  next
    fix k assume "k \<in> (\<lambda>x. x div 64) ` {start..<e}"
    then obtain x where x: "k = x div 64" "start \<le> x" "x < e" by auto
    have "start div 64 \<le> k" using x by (simp add: div_le_mono)
    moreover have "k * 64 < e" using x by (metis div_times_less_eq_dividend order.strict_trans1)
    ultimately show "k \<in> insert (start div 64) {k. Suc (start div 64) \<le> k \<and> k * 64 < e}"
      by (auto simp: Suc_le_eq le_less)
  qed
  finally show ?thesis .
qed

text \<open>
  \<open>sync_range\<close> flushes exactly the cache lines that hold a byte of the range: the line
  of the start and every later line that begins before the end.
\<close>

theorem sync_range_lines:
  assumes "start < e"
  shows "set (sync_range start e) = (\<lambda>x. x div 64) ` {start..<e}"
  by (rule sync_range_covers [OF assms])

theorem sync_range_lines_witness: "set (sync_range 100 200) = {1, 2, 3}"
proof -
  have "set (sync_range 100 200) = (\<lambda>x. x div 64) ` {100..<200}" by (rule sync_range_lines) simp
  also have "\<dots> = {1, 2, 3}" 
  proof -
    have "{100..<200 :: nat} = {100..<128} \<union> {128..<192} \<union> {192..<200}" by auto
    moreover have "(\<lambda>x. x div 64) ` {100..<128 :: nat} = {1}" by (auto simp: image_def intro: bexI [of _ 100]) 
    moreover have "(\<lambda>x. x div 64) ` {128..<192 :: nat} = {2}" by (auto simp: image_def intro: bexI [of _ 128]) 
    moreover have "(\<lambda>x. x div 64) ` {192..<200 :: nat} = {3}" by (auto simp: image_def intro: bexI [of _ 192]) 
    ultimately show ?thesis by auto
  qed
  finally show ?thesis .
qed

text \<open>
  \<open>record\<close> flushes the node copy but not the record's header: the log starts on a page
  boundary with 32 bytes of bookkeeping, and the flushed range starts at the copy.  After a
  first record of a 384-byte leaf, the next record's entry size lies in a cache line that
  its own flush does not touch, so that a crash can lose it although \<open>curr\<close> is durable.
\<close>

theorem record_header_not_flushed:
  "let rec = full_flush_range + get_entry_size 384; content = rec + entry_meta_size
   in (rec div 64) \<notin> set (sync_range content (content + 384))"
proof -
  have "7 \<le> x div 64" if "464 \<le> x" for x :: nat using div_le_mono [OF that, of 64] by simp
  then have "6 \<notin> set (sync_range 464 848)" using sync_range_covers [of 464 848] by fastforce
  then show ?thesis by (simp add: full_flush_range_def get_entry_size_def entry_meta_size_def)
qed

text \<open>
  C34.  Wrapping around the end of the log takes over the entry size of the record that was
  at the beginning: a record that does not fit before the end is stored at offset 0 with the
  node's full copy, but its header and \<open>curr\<close> get the old first record's size, whatever the
  size of the node, so that the undo copies the wrong number of bytes and continues at the
  wrong offset unless both nodes happen to have the same size.
\<close>

theorem record_wrap_stale_size:
  assumes "lbuf_size l < lcurr l + get_entry_size n" "get_entry_size n \<le> length (lbuf l)"
  shows "let l' = plog_record a n m l in
     rec_size (lbuf l') 0 = rec_size (lbuf l) 0 \<and> lcurr l' = rec_size (lbuf l) 0
     \<and> rec_addr (lbuf l') 0 = a \<and> rec_content (lbuf l') 0 n = mem_read m a n"
proof -
  let ?sz = "rec_size (lbuf l) 0" and ?c = "mem_read m a n"
  let ?b = "buf_write (lbuf l) 0 (rec_bytes ?sz a ?c)"
  have rec: "plog_record a n m l = l\<lparr>lbuf := ?b, lcurr := ?sz\<rparr>" using assms(1) by (simp add: plog_record_def Let_def)
  have fit: "0 + length (rec_bytes ?sz a ?c) \<le> length (lbuf l)"
    using assms(2) by (simp add: get_entry_size_def entry_meta_size_def)
  have r: "take (24 + length ?c) (drop 0 ?b) = rec_bytes ?sz a ?c" using buf_write_same [OF fit] by simp
  have "?sz < 2 ^ 64" using unsigned_less [of "load_at (lbuf l) 0", where 'a = nat] by (simp add: rec_size_def)
  from rec_bytes_at [OF r this] fit show ?thesis by (simp add: rec Let_def)
qed

definition demo_log_full :: plog where
  "demo_log_full = \<lparr>lcurr = 90, llast_flush = 90, lbuf_size = 100, lroot = 0, lbuf = replicate 100 0\<rparr>"

theorem record_wrap_stale_size_witness:
  "let l' = plog_record 3000 40 (\<lambda>x. 3) demo_log_full
   in lcurr l' = 0 \<and> rec_addr (lbuf l') 0 = 3000"
proof -
  have "rec_size (lbuf demo_log_full) 0 = 0"
    by (simp add: rec_size_def load_at_def demo_log_full_def le_load_def)
  then show ?thesis using record_wrap_stale_size [of demo_log_full 40 3000 "\<lambda>x. 3"]
    by (simp add: demo_log_full_def get_entry_size_def entry_meta_size_def Let_def)
qed

lemma init_plog_disjoint:
  "tid < tid' \<Longrightarrow> init_plog_addr tid + pbuf_size \<le> init_plog_addr tid'"
  by (simp add: init_plog_addr_def) (metis Suc_leI mult_Suc mult_le_mono1 add.commute)

text \<open>
  C33.  The logs of different threads never overlap and all lie in the mapped region: log
  \<open>tid\<close> occupies \<open>PBUF_SIZE\<close> bytes from its address, its bookkeeping and its buffer of
  \<open>PBUF_SIZE - 32\<close> bytes included.
\<close>

theorem init_plog_regions:
  assumes "tid < log_max_thread" "tid' < log_max_thread" "tid \<noteq> tid'"
  shows "{init_plog_addr tid ..< init_plog_addr tid + full_flush_range + lbuf_size (init_plog False l)}
      \<inter> {init_plog_addr tid' ..< init_plog_addr tid' + full_flush_range + lbuf_size (init_plog False l)} = {}
    \<and> init_plog_addr tid + full_flush_range + lbuf_size (init_plog False l) \<le> log_region_addr + log_max_thread * pbuf_size"
proof -
  have sz: "full_flush_range + lbuf_size (init_plog False l) = pbuf_size"
    by (simp add: init_plog_def plog_init_def full_flush_range_def pbuf_size_def)
  have "init_plog_addr tid + pbuf_size \<le> init_plog_addr tid' \<or> init_plog_addr tid' + pbuf_size \<le> init_plog_addr tid"
    using init_plog_disjoint assms(3) by (metis linorder_neqE_nat)
  moreover have "init_plog_addr tid + pbuf_size \<le> log_region_addr + log_max_thread * pbuf_size"
    using init_plog_disjoint [OF assms(1)] by (simp add: init_plog_addr_def)
  ultimately show ?thesis unfolding add.assoc sz by auto
qed

theorem init_plog_regions_witness:
  "{init_plog_addr 0 ..< init_plog_addr 0 + full_flush_range + lbuf_size (init_plog False demo_log)}
      \<inter> {init_plog_addr 1 ..< init_plog_addr 1 + full_flush_range + lbuf_size (init_plog False demo_log)} = {}"
  using init_plog_regions [of 0 1 demo_log] by (simp add: log_max_thread_def)

end
