(* ===== verification/Ppp.thy ===== *)
theory Ppp
  imports Prelude
begin

text \<open>
  The persistent pointer of the durable allocator (\<open>kvthread_persistent.hh\<close>): a pointer is
  kept in two words, the current value and a logged one, each with part of the epoch of the
  last write in its upper 16 bits and a validity bit at the bottom.  The two words are
  equal in their validity bits unless a crash came between the two stores of a write.
  \<open>ge\<close>, \<open>cx\<close> and \<open>fe\<close> stand for \<open>globalepoch\<close>, \<open>currexec\<close> and \<open>failedepoch\<close>.
\<close>

record ppp =
  pnext :: u64
  pnextLog :: u64

definition ptr_mask :: u64 where "ptr_mask = 0x0000FFFFFFFFFFF0"
definition low_mask :: u64 where "low_mask = 0x0000FFFFFFFFFFFF"
definition high_mask :: u64 where "high_mask = 0xFFFF000000000000"
definition keep_mask :: u64 where "keep_mask = 0xFFFF00000000000F"
definition epoch_mask :: u64 where "epoch_mask = 0xFF00"

definition epoch_is_valid :: "u64 \<Rightarrow> u64 \<Rightarrow> bool" where
  "epoch_is_valid fe e \<longleftrightarrow> e \<noteq> fe"

definition ppp_epoch :: "u64 \<Rightarrow> u64 \<Rightarrow> u64" where
  "ppp_epoch n nl = drop_bit 48 n OR (drop_bit 32 nl AND epoch_mask)"

definition ppp_read :: "u64 \<Rightarrow> u64 \<Rightarrow> ppp \<Rightarrow> u64" where
  "ppp_read cx fe p =
     (let n = pnext p; nl = pnextLog p
      in if n AND 1 = nl AND 1 then
           let epoch = ppp_epoch n nl
           in if epoch < cx \<and> \<not> epoch_is_valid fe epoch then nl AND ptr_mask else n AND ptr_mask
         else nl AND ptr_mask)"

definition ppp_write :: "u64 \<Rightarrow> u64 \<Rightarrow> u64 \<Rightarrow> u64 \<Rightarrow> ppp \<Rightarrow> ppp" where
  "ppp_write ge cx fe val p =
     (let n = pnext p; nl = pnextLog p;
          ehigh = push_bit 32 ge AND high_mask; elow = push_bit 48 ge
      in if n AND 1 \<noteq> nl AND 1 then
           let valid = nl AND 1
           in p\<lparr>pnextLog := ehigh OR (nl AND low_mask),
                pnext := elow OR (val AND ptr_mask) OR valid\<rparr>
         else
           let epoch = ppp_epoch n nl
           in if epoch < cx \<and> \<not> epoch_is_valid fe epoch then
                let valid = (nl AND 1) XOR 1
                in p\<lparr>pnextLog := ehigh OR (nl AND ptr_mask) OR valid,
                     pnext := elow OR (val AND ptr_mask) OR valid\<rparr>
              else if epoch = ge then
                p\<lparr>pnext := (n AND keep_mask) OR (val AND ptr_mask)\<rparr>
              else
                let valid = (nl AND 1) XOR 1
                in p\<lparr>pnextLog := ehigh OR (n AND ptr_mask) OR valid,
                     pnext := elow OR (val AND ptr_mask) OR valid\<rparr>)"

section \<open>Bits\<close>

named_theorems ppp_bits "bits of the fields of a persistent pointer"

lemma ppp_masks_eq:
  "ptr_mask = push_bit 4 (mask 44)" "low_mask = mask 48" "high_mask = push_bit 48 (mask 16)"
  "epoch_mask = push_bit 8 (mask 8)" "keep_mask = push_bit 48 (mask 16) OR mask 4"
  by (simp_all add: ptr_mask_def low_mask_def high_mask_def epoch_mask_def keep_mask_def mask_eq_exp_minus_1)

lemma bit_ppp_masks [ppp_bits]:
  "bit ptr_mask n \<longleftrightarrow> 4 \<le> n \<and> n < 48" "bit low_mask n \<longleftrightarrow> n < 48"
  "bit high_mask n \<longleftrightarrow> 48 \<le> n \<and> n < 64" "bit epoch_mask n \<longleftrightarrow> 8 \<le> n \<and> n < 16"
  "bit keep_mask n \<longleftrightarrow> 48 \<le> n \<and> n < 64 \<or> n < 4"
  unfolding ppp_masks_eq by (auto simp only: bit_mask_iff bit_push_bit_iff bit_or_iff possible_bit_word) auto

lemma bit_one_u64 [ppp_bits]: "bit (1 :: u64) n \<longleftrightarrow> n = 0"
  by (simp add: bit_1_iff)

lemmas ppp_bit_iffs = bit_and_iff bit_or_iff bit_xor_iff bit_push_bit_iff bit_drop_bit_eq ppp_bits

text \<open>A stored word: epoch part, pointer part and validity bit.\<close>

definition ppp_word :: "u64 \<Rightarrow> u64 \<Rightarrow> u64 \<Rightarrow> u64" where
  "ppp_word hi ptr v = hi OR (ptr AND ptr_mask) OR v"

lemma validity_cases: "(x :: u64) AND 1 = 0 \<or> x AND 1 = 1"
  by (simp add: and_one_eq mod_2_eq_odd)

lemma ppp_word_fields:
  assumes "\<And>n. bit hi n \<Longrightarrow> 48 \<le> n" "v = 0 \<or> v = 1"
  shows "ppp_word hi ptr v AND ptr_mask = ptr AND ptr_mask" "ppp_word hi ptr v AND 1 = v"
    "drop_bit 48 (ppp_word hi ptr v) = drop_bit 48 hi"
    "drop_bit 32 (ppp_word hi ptr v) AND epoch_mask = drop_bit 32 ptr AND epoch_mask"
proof -
  have no: "\<not> bit hi n" if "n < 48" for n using assms(1) [of n] that by linarith
  show "ppp_word hi ptr v AND ptr_mask = ptr AND ptr_mask" "ppp_word hi ptr v AND 1 = v"
    "drop_bit 48 (ppp_word hi ptr v) = drop_bit 48 hi"
    "drop_bit 32 (ppp_word hi ptr v) AND epoch_mask = drop_bit 32 ptr AND epoch_mask"
    using assms(2) by (auto intro!: bit_word_eqI simp: ppp_word_def ppp_bit_iffs no)
qed

lemma epoch_parts:
  "bit (push_bit 32 ge AND high_mask :: u64) n \<Longrightarrow> 48 \<le> n" "bit (push_bit 48 ge :: u64) n \<Longrightarrow> 48 \<le> n"
  by (auto simp: ppp_bit_iffs)

lemma bit_below:
  assumes "(x :: u64) < 2 ^ k" "bit x n"
  shows "n < k"
proof -
  have "n < 64" using bit_imp_le_length [OF assms(2)] by simp
  show ?thesis
  proof (cases "k < 64")
    case True
    then have "unat x < 2 ^ k" using assms(1) by (simp add: word_less_nat_alt unat_exp)
    then have "x = take_bit k x" by (simp add: word_unat_eq_iff unsigned_take_bit_eq take_bit_nat_eq_self)
    then show ?thesis using assms(2) by (metis bit_take_bit_iff)
  qed (use \<open>n < 64\<close> in simp)
qed

lemma drop_push_small: "(ge :: u64) < 2 ^ 16 \<Longrightarrow> drop_bit 48 (push_bit 48 ge) = ge"
  by (rule bit_word_eqI) (use bit_below [of ge 16] in \<open>auto simp: ppp_bit_iffs\<close>)

lemma low_pointer: "(q :: u64) < 2 ^ 40 \<Longrightarrow> drop_bit 32 q AND epoch_mask = 0"
  by (rule bit_word_eqI) (use bit_below [of q 40] in \<open>force simp: ppp_bit_iffs\<close>)


section \<open>The branches of a write\<close>

definition torn :: "ppp \<Rightarrow> bool" where
  "torn p \<longleftrightarrow> pnext p AND 1 \<noteq> pnextLog p AND 1"

text \<open>
  The states of a pointer cell in which epoch \<open>ge\<close> has written it: the words agree in
  validity, the current word carries the epoch, the logged one the pointer \<open>base\<close>.
\<close>

definition epoch_written :: "u64 \<Rightarrow> u64 \<Rightarrow> ppp \<Rightarrow> bool" where
  "epoch_written ge base p \<longleftrightarrow> \<not> torn p \<and> ppp_epoch (pnext p) (pnextLog p) = ge \<and> pnextLog p AND ptr_mask = base"

definition ehigh :: "u64 \<Rightarrow> u64" where "ehigh ge = push_bit 32 ge AND high_mask"

lemma low_word_eq: "ehigh ge OR (nl AND low_mask) = ppp_word (ehigh ge) nl (nl AND 15)"
  by (rule bit_word_eqI)
    (auto simp: ppp_word_def ppp_bit_iffs bit_imp_le_length numeral_15_mask bit_mask_iff possible_bit_word)

lemma ppp_word_low:
  "ppp_word (ehigh ge) nl (nl AND 15) AND ptr_mask = nl AND ptr_mask"
  "ppp_word (ehigh ge) nl (nl AND 15) AND 1 = nl AND 1"
  "drop_bit 32 (ppp_word (ehigh ge) nl (nl AND 15)) AND epoch_mask = drop_bit 32 nl AND epoch_mask"
  by (auto intro!: bit_word_eqI simp: ehigh_def ppp_word_def ppp_bit_iffs numeral_15_mask bit_mask_iff possible_bit_word)

lemma epoch_of_pointer:
  assumes "ge < 2 ^ 16" "b AND ptr_mask < 2 ^ 40"
  shows "drop_bit 48 (push_bit 48 ge :: u64) OR (drop_bit 32 b AND epoch_mask) = ge"
proof -
  have "drop_bit 32 b AND epoch_mask = drop_bit 32 (b AND ptr_mask) AND epoch_mask"
    by (rule bit_word_eqI) (auto simp: ppp_bit_iffs)
  then show ?thesis using assms low_pointer [OF assms(2)] drop_push_small [OF assms(1)] by simp
qed

text \<open>A first write of an epoch keeps the value the cell had in the logged word, at each of its stores.\<close>

lemma first_write:
  assumes "ge < 2 ^ 16" "cx \<le> ge" "fe < cx" "ppp_read cx fe p < 2 ^ 40"
    and "torn p \<or> ppp_epoch (pnext p) (pnextLog p) \<noteq> ge"
  shows "epoch_written ge (ppp_read cx fe p) (ppp_write ge cx fe v p)"
    and "pnext (ppp_write ge cx fe v p) AND ptr_mask = v AND ptr_mask"
    and "torn (p\<lparr>pnextLog := pnextLog (ppp_write ge cx fe v p)\<rparr>)"
    and "pnextLog (ppp_write ge cx fe v p) AND ptr_mask = ppp_read cx fe p"
  using assms validity_cases [of "pnextLog p"]
  by (auto simp: epoch_written_def ppp_write_def ppp_read_def torn_def Let_def low_word_eq ppp_word_low
      ppp_word_fields epoch_parts epoch_of_pointer ppp_epoch_def
      simp flip: ppp_word_def ehigh_def)


lemma keep_word:
  "((n AND keep_mask) OR (v AND ptr_mask)) AND ptr_mask = v AND ptr_mask"
  "((n AND keep_mask) OR (v AND ptr_mask)) AND 1 = n AND 1"
  "drop_bit 48 ((n AND keep_mask) OR (v AND ptr_mask)) = drop_bit 48 n"
  by (auto intro!: bit_word_eqI simp: ppp_bit_iffs) (use bit_imp_le_length [of n] in force)

lemma later_write:
  assumes "epoch_written ge base p" "fe < cx" "cx \<le> ge"
  shows "epoch_written ge base (ppp_write ge cx fe v p)"
    and "pnext (ppp_write ge cx fe v p) AND ptr_mask = v AND ptr_mask"
    and "pnextLog (ppp_write ge cx fe v p) = pnextLog p"
  using assms keep_word [of "pnext p" v]
  by (auto simp: epoch_written_def torn_def ppp_write_def Let_def ppp_epoch_def)

lemma read_epoch_written:
  assumes "epoch_written ge base p"
  shows "ge < cx \<Longrightarrow> ppp_read cx ge p = base"
    and "cx \<le> ge \<Longrightarrow> ppp_read cx fe p = pnext p AND ptr_mask"
  using assms by (auto simp: epoch_written_def torn_def ppp_read_def Let_def epoch_is_valid_def)

lemma read_torn: "torn p \<Longrightarrow> ppp_read cx fe p = pnextLog p AND ptr_mask"
  by (auto simp: torn_def ppp_read_def Let_def)

section \<open>Crash atomicity\<close>

text \<open>The states of the cell around the stores of a sequence of writes: before, between and after.\<close>

fun ppp_trace :: "u64 \<Rightarrow> u64 \<Rightarrow> u64 \<Rightarrow> u64 list \<Rightarrow> ppp \<Rightarrow> ppp list" where
  "ppp_trace ge cx fe [] p = [p]"
| "ppp_trace ge cx fe (v # vs) p =
     p # p\<lparr>pnextLog := pnextLog (ppp_write ge cx fe v p)\<rparr> # ppp_trace ge cx fe vs (ppp_write ge cx fe v p)"

definition ppp_settled :: "u64 \<Rightarrow> u64 \<Rightarrow> ppp \<Rightarrow> bool" where
  "ppp_settled ge fe p \<longleftrightarrow> torn p
     \<or> ppp_epoch (pnext p) (pnextLog p) \<noteq> ge \<and> ppp_epoch (pnext p) (pnextLog p) \<noteq> fe"

lemma trace_written:
  assumes "epoch_written ge base p" "fe < cx" "cx \<le> ge" "c \<in> set (ppp_trace ge cx fe vs p)" "ge < cx'"
  shows "ppp_read cx' ge c = base"
  using assms
proof (induction vs arbitrary: p)
  case Nil
  then show ?case by (simp add: read_epoch_written)
next
  case (Cons v vs)
  have "p\<lparr>pnextLog := pnextLog (ppp_write ge cx fe v p)\<rparr> = p" using later_write(3) [OF Cons.prems(1-3)] by simp
  then have "c = p \<or> c \<in> set (ppp_trace ge cx fe vs (ppp_write ge cx fe v p))" using Cons.prems(4) by auto
  then show ?case
    using Cons.IH [OF later_write(1) [OF Cons.prems(1-3)] Cons.prems(2,3) _ Cons.prems(5)]
      read_epoch_written(1) [OF Cons.prems(1,5)] by auto
qed

lemma writes_written:
  assumes "epoch_written ge base p" "fe < cx" "cx \<le> ge"
  shows "vs \<noteq> [] \<Longrightarrow> ppp_read cx fe (fold (ppp_write ge cx fe) vs p) = last vs AND ptr_mask"
  using assms
proof (induction vs arbitrary: p)
  case (Cons v vs)
  show ?case
  proof (cases vs)
    case Nil
    then show ?thesis using later_write(1,2) [OF Cons.prems(2-4), of v] read_epoch_written(2) [of ge base _ cx fe] Cons.prems
      by auto
  next
    case (Cons w ws)
    then show ?thesis using Cons.IH [OF _ later_write(1) [OF Cons.prems(2-4), of v]] Cons.prems by auto
  qed
qed simp


definition demo_ppp :: ppp where "demo_ppp = \<lparr>pnext = 0x0003000000001000, pnextLog = 0\<rparr>"


text \<open>
  C40.  A pointer into the data region is not rolled back: the epoch of a cell is read from
  the wrong bits of the logged word, so that for a cell whose old value has bit 45 set (the
  address of the data region) the epoch found is off by \<open>0x2000\<close>; for every epoch below that, a write
  of the failed epoch is still there after the crash.
\<close>

theorem ppp_region_pointer_kept:
  assumes "ge < 0x2000" "cx \<le> ge" "fe < cx" "\<not> torn p"
    and "ppp_epoch (pnext p) (pnextLog p) \<noteq> ge" "ppp_epoch (pnext p) (pnextLog p) \<noteq> fe" "bit (pnext p) 45"
  shows "ppp_read (ge + 1) ge (ppp_write ge cx fe v p) = v AND ptr_mask"
proof -
  let ?q = "ppp_write ge cx fe v p" and ?valid = "(pnextLog p AND 1) XOR 1"
  have valid: "?valid = 0 \<or> ?valid = 1" using validity_cases [of "pnextLog p"] by auto
  have q: "pnextLog ?q = ppp_word (ehigh ge) (pnext p) ?valid" "pnext ?q = ppp_word (push_bit 48 ge) v ?valid"
    using assms(4-6) by (auto simp: ppp_write_def Let_def torn_def epoch_is_valid_def ppp_word_def ehigh_def)
  have hi: "\<And>n. bit (ehigh ge) n \<Longrightarrow> 48 \<le> n" by (auto simp: ehigh_def ppp_bit_iffs)
  have "ppp_epoch (pnext ?q) (pnextLog ?q) = drop_bit 48 (push_bit 48 ge) OR (drop_bit 32 (pnext p) AND epoch_mask)"
    unfolding q ppp_epoch_def using ppp_word_fields(3) [OF epoch_parts(2) valid] ppp_word_fields(4) [OF hi valid] by simp
  then have "bit (ppp_epoch (pnext ?q) (pnextLog ?q)) 13" using assms(7) by (simp add: ppp_bit_iffs)
  then have e: "2 ^ 13 \<le> ppp_epoch (pnext ?q) (pnextLog ?q)" using bit_below [of "ppp_epoch (pnext ?q) (pnextLog ?q)" 13 13]
    by (meson not_le less_irrefl)
  have "ge + 1 \<le> 2 ^ 13"
    using assms(1) by (simp add: inc_le)
  then have "\<not> ppp_epoch (pnext ?q) (pnextLog ?q) < ge + 1" using e by (meson not_le order_trans)
  moreover have "pnext ?q AND 1 = pnextLog ?q AND 1"
    unfolding q using ppp_word_fields(2) [OF hi valid] ppp_word_fields(2) [OF epoch_parts(2) valid] by simp
  moreover have "pnext ?q AND ptr_mask = v AND ptr_mask"
    unfolding q using ppp_word_fields(1) [OF epoch_parts(2) valid] by simp
  ultimately show ?thesis by (simp add: ppp_read_def Let_def)
qed

definition demo_ppp_region :: ppp where
  "demo_ppp_region = \<lparr>pnext = 0x0003200000200000, pnextLog = 0\<rparr>"

theorem ppp_region_pointer_kept_witness:
  "ppp_read 6 5 (ppp_write 5 1 0 0x200000300000 demo_ppp_region) = 0x200000300000"
proof -
  have "\<not> torn demo_ppp_region" by (simp add: torn_def demo_ppp_region_def)
  moreover have "ppp_epoch (pnext demo_ppp_region) (pnextLog demo_ppp_region) = 3" by (simp add: ppp_epoch_def demo_ppp_region_def epoch_mask_def drop_bit_eq_div)
  moreover have "bit (pnext demo_ppp_region) 45" by (simp add: demo_ppp_region_def)
  ultimately show ?thesis using ppp_region_pointer_kept [of 5 1 0 demo_ppp_region "0x200000300000"] by (simp add: ptr_mask_def)
qed

text \<open>
  Only the last failed epoch is remembered: a cell written in a failed epoch and not
  written again is rolled back for the readers of the next execution, but a second crash
  makes the write of the first failed epoch visible again.
\<close>

theorem ppp_second_crash:
  assumes "epoch_written fe base p" "fe < fe2"
  shows "ppp_read (fe + 1) fe p = base \<and> ppp_read (fe2 + 1) fe2 p = pnext p AND ptr_mask"
proof -
  have "unat fe + 1 < 2 ^ 64" using assms(2) unsigned_less [of fe2, where 'a = nat] by (simp add: word_less_nat_alt)
  then have "fe < fe + 1" by (simp add: word_less_nat_alt unat_word_ariths)
  then show ?thesis using assms by (auto simp: epoch_written_def torn_def ppp_read_def Let_def epoch_is_valid_def)
qed

theorem ppp_second_crash_witness:
  "ppp_read 6 5 (ppp_write 5 1 0 0x2000 demo_ppp) = 0x1000 \<and> ppp_read 9 8 (ppp_write 5 1 0 0x2000 demo_ppp) = 0x2000"
proof -
  have "epoch_written 5 0x1000 (ppp_write 5 1 0 0x2000 demo_ppp)" by code_simp
  moreover have "pnext (ppp_write 5 1 0 0x2000 demo_ppp) AND ptr_mask = 0x2000" by code_simp
  ultimately show ?thesis using ppp_second_crash [of 5 "0x1000" "ppp_write 5 1 0 0x2000 demo_ppp" 8] by simp
qed

end
