(* ===== verification/Kvthread.thy ===== *)
theory Kvthread
  imports Prelude
begin

text \<open>
  Per-thread memory management (\<open>kvthread.hh\<close>, \<open>kvthread.cc\<close>, \<open>kvthread_pallocator.hh\<close>,
  \<open>circular_int.hh\<close>): the free lists of the pools, the durable region they are refilled
  from, the limbo list of blocks retired at an epoch and their release once no thread can
  still be reading them.  A free list threaded through the blocks is the list of the
  blocks' addresses; the chain of limbo groups that starts at \<open>limbo_head_\<close> is a list of
  groups with the position of \<open>limbo_tail_\<close> in it.  Callbacks registered for release are
  collected in the order in which they run; what they do is up to the client.
\<close>

section \<open>Circular integers\<close>

definition circ_less :: "u64 \<Rightarrow> u64 \<Rightarrow> bool" where
  "circ_less a b \<longleftrightarrow> sint (a - b) < 0"

definition circ_less_equal :: "u64 \<Rightarrow> u64 \<Rightarrow> bool" where
  "circ_less_equal a b \<longleftrightarrow> sint (a - b) \<le> 0"

definition next_nonzero :: "u64 \<Rightarrow> u64" where
  "next_nonzero x = (let v = x + 1 in v + (if v = 0 then 1 else 0))"

section \<open>Limbo groups\<close>

type_synonym limbo_element = "u64 \<times> u64"

record limbo_group =
  lg_head :: nat
  lg_tail :: nat
  lg_epoch :: u64
  lg_elts :: "limbo_element list"

definition limbo_capacity :: nat where "limbo_capacity = (4076 - 8 - 8) div 24"

definition limbo_new :: limbo_group where
  "limbo_new = \<lparr>lg_head = 0, lg_tail = 0, lg_epoch = 0, lg_elts = replicate limbo_capacity (0, 0)\<rparr>"

definition first_epoch :: "limbo_group \<Rightarrow> u64" where
  "first_epoch g = snd (lg_elts g ! lg_head g)"

definition push_back :: "u64 \<Rightarrow> u64 \<Rightarrow> u64 \<Rightarrow> limbo_group \<Rightarrow> limbo_group option" where
  "push_back p tag epoch g =
     (if lg_tail g + 2 \<le> limbo_capacity then
        let g1 = (if lg_head g = lg_tail g \<or> lg_epoch g \<noteq> epoch then
                    g\<lparr>lg_elts := (lg_elts g)[lg_tail g := (0, epoch)], lg_epoch := epoch, lg_tail := lg_tail g + 1\<rparr>
                  else g)
        in Some (g1\<lparr>lg_elts := (lg_elts g1)[lg_tail g1 := (p, tag)], lg_tail := lg_tail g1 + 1\<rparr>)
      else None)"

section \<open>Threads\<close>

record threadinfo =
  gc_epoch :: u64
  perform_gc_epoch :: u64
  pool :: "u64 list list"
  limbo :: "limbo_group list"
  limbo_tail :: nat
  ts :: u64
  callbacks :: "u64 list"

record nvm =
  nvm_free :: nat
  nvm_begin :: nat
  nvm_end :: nat

definition ppp_header_size :: nat where "ppp_header_size = 16"
definition cache_line_size :: nat where "cache_line_size = 64"
definition pool_max_nlines :: nat where "pool_max_nlines = 70"
definition memtag_pool_mask :: u64 where "memtag_pool_mask = 0xFF"
definition memtag_callback :: u64 where "memtag_callback = 0xFFFFFFFF"
definition memtag_limbo :: u64 where "memtag_limbo = 0x500"
definition rcu_free_count :: nat where "rcu_free_count = 128"

subsection \<open>The durable region\<close>

definition data_region_addr :: nat where "data_region_addr = 2 ^ 45"
definition data_buf_size :: nat where "data_buf_size = 2 ^ 34"
definition cl_size :: nat where "cl_size = 64"
definition ti_size :: nat where "ti_size = 8192"
definition data_max_thread :: nat where "data_max_thread = 60"
definition skip_to_data :: nat where "skip_to_data = 2 * 2 ^ 20"
definition mapping_length :: nat where "mapping_length = data_buf_size + cl_size"

definition init_exist :: "bool \<Rightarrow> nvm \<Rightarrow> nvm" where
  "init_exist existed v = (if existed then v else v\<lparr>nvm_free := nvm_begin v + skip_to_data\<rparr>)"

definition recovered_epochs :: "u64 \<Rightarrow> u64 \<times> u64 \<times> u64" where
  "recovered_epochs stored = (stored, stored + 1, stored + 1)"

definition pdata_init :: "bool \<Rightarrow> nat \<Rightarrow> nvm" where
  "pdata_init existed stored_free =
     init_exist existed \<lparr>nvm_free = (if existed then stored_free else 0), nvm_begin = data_region_addr,
       nvm_end = data_region_addr + mapping_length\<rparr>"

definition allocate_ti :: "nvm \<Rightarrow> nat \<Rightarrow> nat" where
  "allocate_ti v pindex = nvm_begin v + cl_size + pindex * ti_size"

definition malloc_nvm :: "nat \<Rightarrow> nvm \<Rightarrow> (nat \<times> nvm) option" where
  "malloc_nvm sz v =
     (let tmp = nvm_free v; v1 = v\<lparr>nvm_free := nvm_free v + sz\<rparr>
      in if tmp \<noteq> 0 \<and> nvm_free v1 < nvm_end v1 then Some (tmp, v1) else None)"

definition get_mem_usage :: "nvm \<Rightarrow> nat" where
  "get_mem_usage v = nvm_free v - (nvm_begin v + skip_to_data)"

definition failed_epoch_addr :: "nvm \<Rightarrow> nat" where
  "failed_epoch_addr v = nvm_begin v + data_buf_size"

subsection \<open>Pools\<close>

function pool_chain :: "nat \<Rightarrow> nat \<Rightarrow> nat \<Rightarrow> nat \<Rightarrow> nat list" where
  "pool_chain base sz unit off =
     (if 0 < unit \<and> off + unit \<le> sz then (base + off) # pool_chain base sz unit (off + unit) else [])"
  by auto
termination by (relation "measure (\<lambda>(base, sz, unit, off). sz - off)") auto

declare pool_chain.simps [simp del]

definition initialize_pool :: "nat \<Rightarrow> nat \<Rightarrow> nat \<Rightarrow> nat list" where
  "initialize_pool base sz unit = base # pool_chain base sz unit unit"

definition refill_pool :: "nat \<Rightarrow> nat \<Rightarrow> threadinfo \<Rightarrow> nvm \<Rightarrow> (threadinfo \<times> nvm) option" where
  "refill_pool superpage nl ti v =
     (case malloc_nvm superpage v of
        None \<Rightarrow> None
      | Some (base, v1) \<Rightarrow>
          Some (ti\<lparr>pool := (pool ti)[nl - 1 := map of_nat (initialize_pool base superpage (nl * cache_line_size))]\<rparr>, v1))"

definition pool_nlines :: "nat \<Rightarrow> nat" where
  "pool_nlines sz = (ppp_header_size + sz + cache_line_size - 1) div cache_line_size"

definition pool_allocate :: "nat \<Rightarrow> nat \<Rightarrow> threadinfo \<Rightarrow> nvm \<Rightarrow> (u64 \<times> threadinfo \<times> nvm) option" where
  "pool_allocate superpage sz ti v =
     (let nl = pool_nlines sz
      in if nl \<le> pool_max_nlines then
           case (if pool ti ! (nl - 1) = [] then refill_pool superpage nl ti v else Some (ti, v)) of
             None \<Rightarrow> None
           | Some (ti1, v1) \<Rightarrow>
               (case pool ti1 ! (nl - 1) of
                  [] \<Rightarrow> Some (of_nat ppp_header_size, ti1, v1)
                | p # rest \<Rightarrow> Some (p + of_nat ppp_header_size, ti1\<lparr>pool := (pool ti1)[nl - 1 := rest]\<rparr>, v1))
         else None)"

definition pool_deallocate :: "u64 \<Rightarrow> nat \<Rightarrow> threadinfo \<Rightarrow> threadinfo option" where
  "pool_deallocate p sz ti =
     (let nl = pool_nlines sz
      in if p \<noteq> 0 \<and> nl \<le> pool_max_nlines then
           Some (ti\<lparr>pool := (pool ti)[nl - 1 := (p - of_nat ppp_header_size) # pool ti ! (nl - 1)]\<rparr>)
         else None)"

subsection \<open>Deferred release\<close>

definition free_rcu :: "u64 \<Rightarrow> u64 \<Rightarrow> threadinfo \<Rightarrow> threadinfo" where
  "free_rcu p tag ti =
     (if tag = memtag_callback then ti\<lparr>callbacks := callbacks ti @ [p]\<rparr>
      else let nl = unat (tag AND memtag_pool_mask)
           in ti\<lparr>pool := (pool ti)[nl - 1 := p # pool ti ! (nl - 1)]\<rparr>)"

definition refill_rcu :: "threadinfo \<Rightarrow> threadinfo option" where
  "refill_rcu ti =
     (let ti1 = (if limbo_tail ti + 1 < length (limbo ti) then ti else ti\<lparr>limbo := limbo ti @ [limbo_new]\<rparr>);
          ti2 = ti1\<lparr>limbo_tail := limbo_tail ti1 + 1\<rparr>;
          g = limbo ti2 ! limbo_tail ti2
      in if lg_head g = 0 \<and> lg_tail g = 0 then Some ti2 else None)"

definition record_rcu :: "u64 \<Rightarrow> u64 \<Rightarrow> u64 \<Rightarrow> threadinfo \<Rightarrow> threadinfo option" where
  "record_rcu ge p tag ti =
     (case (if lg_tail (limbo ti ! limbo_tail ti) + 2 > limbo_capacity then refill_rcu ti else Some ti) of
        None \<Rightarrow> None
      | Some ti1 \<Rightarrow>
          (case push_back p tag ge (limbo ti1 ! limbo_tail ti1) of
             None \<Rightarrow> None
           | Some g \<Rightarrow> Some (ti1\<lparr>limbo := (limbo ti1)[limbo_tail ti1 := g]\<rparr>)))"

definition pool_deallocate_rcu :: "u64 \<Rightarrow> u64 \<Rightarrow> nat \<Rightarrow> u64 \<Rightarrow> threadinfo \<Rightarrow> threadinfo option" where
  "pool_deallocate_rcu ge p sz tag ti =
     (let nl = pool_nlines sz
      in if p \<noteq> 0 \<and> nl \<le> pool_max_nlines then
           record_rcu ge (p - of_nat ppp_header_size) (tag + of_nat nl) ti
         else None)"

definition rcu_register :: "u64 \<Rightarrow> u64 \<Rightarrow> threadinfo \<Rightarrow> threadinfo option" where
  "rcu_register ge cb ti = record_rcu ge cb memtag_callback ti"

function clean_loop :: "u64 \<Rightarrow> u64 \<Rightarrow> threadinfo \<Rightarrow> limbo_group \<Rightarrow> nat \<Rightarrow> threadinfo \<times> limbo_group \<times> nat" where
  "clean_loop bound epoch ti g cnt =
     (if lg_head g < lg_tail g then
        let (p, u) = lg_elts g ! lg_head g
        in if p \<noteq> 0 then
             let ti1 = free_rcu p u ti; cnt1 = cnt - 1
             in if cnt1 = 0 then (ti1, g\<lparr>lg_elts := (lg_elts g)[lg_head g := (0, epoch)]\<rparr>, cnt1)
                else clean_loop bound epoch ti1 (g\<lparr>lg_head := lg_head g + 1\<rparr>) cnt1
           else if sint (bound - u) < 0 then (ti, g, cnt)
           else clean_loop bound u ti (g\<lparr>lg_head := lg_head g + 1\<rparr>) cnt
      else (ti, g, cnt))"
  by auto
termination by (relation "measure (\<lambda>(bound, epoch, ti, g, cnt). lg_tail g - lg_head g)") auto

declare clean_loop.simps [simp del]

definition clean_until :: "u64 \<Rightarrow> threadinfo \<Rightarrow> limbo_group \<Rightarrow> nat \<Rightarrow> threadinfo \<times> limbo_group \<times> nat" where
  "clean_until bound ti g cnt =
     (let (ti1, g1, cnt1) = clean_loop bound 0 ti g cnt
      in (ti1, if lg_head g1 = lg_tail g1 then g1\<lparr>lg_head := 0, lg_tail := 0\<rparr> else g1, cnt1))"

text \<open>
  The loop of \<open>hard_rcu_quiesce\<close>: \<open>i\<close> is the group at \<open>limbo_head_\<close>, the groups before it are
  the emptied ones.  The first result tells whether the last group was emptied too.
\<close>

function quiesce_loop :: "u64 \<Rightarrow> nat \<Rightarrow> nat \<Rightarrow> threadinfo \<Rightarrow> bool \<times> nat \<times> nat \<times> threadinfo" where
  "quiesce_loop bound i cnt ti =
     (if 0 < cnt \<and> i < length (limbo ti) then
        let (ti1, g, cnt1) = clean_until bound ti (limbo ti ! i) cnt;
            ti2 = ti1\<lparr>limbo := (limbo ti)[i := g], limbo_tail := limbo_tail ti\<rparr>
        in if lg_head g \<noteq> lg_tail g then (False, i, cnt1, ti2)
           else if i = limbo_tail ti then (True, i, cnt1, ti2)
           else quiesce_loop bound (i + 1) cnt1 ti2
      else (False, i, cnt, ti))"
  by auto
termination by (relation "measure (\<lambda>(bound, i, cnt, ti). length (limbo ti) - i)") auto

declare quiesce_loop.simps [simp del]

definition hard_rcu_quiesce :: "u64 \<Rightarrow> threadinfo \<Rightarrow> threadinfo" where
  "hard_rcu_quiesce active ti =
     (let bound = active - 1; g0 = limbo ti ! 0;
          (cnt, ti1) =
            (if lg_head g0 = lg_tail g0 \<or> sint (bound - first_epoch g0) < 0 then (rcu_free_count, ti)
             else
               let (all_empty, i, cnt, ti1) = quiesce_loop bound 0 rcu_free_count ti
               in if all_empty then (cnt, ti1\<lparr>limbo_tail := 0\<rparr>)
                  else (cnt, ti1\<lparr>limbo := drop i (take (limbo_tail ti1 + 1) (limbo ti1)) @ take i (limbo ti1)
                                     @ drop (limbo_tail ti1 + 1) (limbo ti1),
                                   limbo_tail := limbo_tail ti1 - i\<rparr>))
      in ti1\<lparr>perform_gc_epoch := (if cnt = 0 then bound else bound + 1)\<rparr>)"

definition rcu_start :: "u64 \<Rightarrow> threadinfo \<Rightarrow> threadinfo" where
  "rcu_start ge ti = (if gc_epoch ti \<noteq> ge then ti\<lparr>gc_epoch := ge\<rparr> else ti)"

definition rcu_stop :: "u64 \<Rightarrow> threadinfo \<Rightarrow> threadinfo" where
  "rcu_stop active ti =
     (let ti1 = (if perform_gc_epoch ti \<noteq> active then hard_rcu_quiesce active ti else ti)
      in ti1\<lparr>gc_epoch := 0\<rparr>)"

definition rcu_quiesce :: "u64 \<Rightarrow> u64 \<Rightarrow> threadinfo \<Rightarrow> threadinfo" where
  "rcu_quiesce ge active ti =
     (let ti1 = rcu_start ge ti
      in if perform_gc_epoch ti1 \<noteq> active then hard_rcu_quiesce active ti1 else ti1)"

fun min_active_loop :: "u64 \<Rightarrow> threadinfo list \<Rightarrow> u64" where
  "min_active_loop ae [] = ae"
| "min_active_loop ae (ti # tis) =
     (let te = gc_epoch ti in min_active_loop (if te \<noteq> 0 \<and> sint (te - ae) < 0 then te else ae) tis)"

definition min_active_epoch :: "u64 \<Rightarrow> threadinfo list \<Rightarrow> u64" where
  "min_active_epoch ge tis = min_active_loop ge tis"

definition update_timestamp :: "u64 \<Rightarrow> threadinfo \<Rightarrow> threadinfo" where
  "update_timestamp x ti = (if circ_less_equal (ts ti) x then ti\<lparr>ts := (x OR 1) + 1\<rparr> else ti)"


section \<open>The limbo list as a queue of retired blocks\<close>

type_synonym retired = "u64 \<times> u64 \<times> u64"

fun pend :: "u64 \<Rightarrow> limbo_element list \<Rightarrow> retired list" where
  "pend ep [] = []"
| "pend ep ((p, u) # es) = (if p = 0 then pend u es else (ep, p, u) # pend ep es)"

fun last_ep :: "u64 \<Rightarrow> limbo_element list \<Rightarrow> u64" where
  "last_ep ep [] = ep"
| "last_ep ep ((p, u) # es) = last_ep (if p = 0 then u else ep) es"

definition group_elts :: "limbo_group \<Rightarrow> limbo_element list" where
  "group_elts g = drop (lg_head g) (take (lg_tail g) (lg_elts g))"

definition group_pending :: "limbo_group \<Rightarrow> retired list" where
  "group_pending g = pend 0 (group_elts g)"

definition marked :: "limbo_element list \<Rightarrow> bool" where
  "marked es \<longleftrightarrow> es \<noteq> [] \<longrightarrow> fst (hd es) = 0"

definition group_bounds :: "limbo_group \<Rightarrow> bool" where
  "group_bounds g \<longleftrightarrow> lg_head g \<le> lg_tail g \<and> lg_tail g \<le> limbo_capacity \<and> length (lg_elts g) = limbo_capacity"

definition group_ok :: "limbo_group \<Rightarrow> bool" where
  "group_ok g \<longleftrightarrow> group_bounds g \<and> marked (group_elts g) \<and> (group_elts g \<noteq> [] \<longrightarrow> last_ep 0 (group_elts g) = lg_epoch g)"

definition pending :: "threadinfo \<Rightarrow> retired list" where
  "pending ti = concat (map group_pending (take (limbo_tail ti + 1) (limbo ti)))"

definition limbo_ok :: "threadinfo \<Rightarrow> bool" where
  "limbo_ok ti \<longleftrightarrow> limbo_tail ti < length (limbo ti) \<and> (\<forall>g\<in>set (limbo ti). group_ok g)
     \<and> (\<forall>g\<in>set (drop (limbo_tail ti + 1) (limbo ti)). lg_head g = 0 \<and> lg_tail g = 0)"

definition free_retired :: "retired list \<Rightarrow> threadinfo \<Rightarrow> threadinfo" where
  "free_retired fr ti = fold (\<lambda>(e, p, t). free_rcu p t) fr ti"

lemma group_elts_Cons:
  "group_bounds g \<Longrightarrow> lg_head g < lg_tail g \<Longrightarrow>
   group_elts g = lg_elts g ! lg_head g # group_elts (g\<lparr>lg_head := lg_head g + 1\<rparr>)"
  using Cons_nth_drop_Suc [of "lg_head g" "take (lg_tail g) (lg_elts g)"]
  by (simp add: group_elts_def group_bounds_def)

lemma group_elts_Nil: "group_bounds g \<Longrightarrow> group_elts g = [] \<longleftrightarrow> lg_head g = lg_tail g"
  by (auto simp: group_elts_def group_bounds_def)

lemma pend_append: "pend ep (xs @ ys) = pend ep xs @ pend (last_ep ep xs) ys"
  by (induction ep xs rule: pend.induct) auto

lemma last_ep_append: "last_ep ep (xs @ ys) = last_ep (last_ep ep xs) ys"
  by (induction ep xs rule: last_ep.induct) auto

lemma marked_irrelevant: "marked es \<Longrightarrow> pend a es = pend b es"
  by (cases es) (auto simp: marked_def)

lemma marked_last_ep: "marked es \<Longrightarrow> es \<noteq> [] \<Longrightarrow> last_ep a es = last_ep b es"
  by (cases es) (auto simp: marked_def)

lemma free_rcu_limbo [simp]: "limbo (free_rcu p t ti) = limbo ti" "limbo_tail (free_rcu p t ti) = limbo_tail ti"
  by (simp_all add: free_rcu_def Let_def)

lemma free_rcu_limbo_upd [simp]:
  "free_rcu p t (ti\<lparr>limbo := L\<rparr>) = (free_rcu p t ti)\<lparr>limbo := L\<rparr>"
  by (simp add: free_rcu_def Let_def)

lemma free_retired_simps [simp]:
  "free_retired [] ti = ti" "free_retired ((e, p, t) # fr) ti = free_retired fr (free_rcu p t ti)"
  "free_retired (fr @ fr') ti = free_retired fr' (free_retired fr ti)"
  by (simp_all add: free_retired_def)

lemma free_retired_limbo [simp]:
  "limbo (free_retired fr ti) = limbo ti" "limbo_tail (free_retired fr ti) = limbo_tail ti"
  by (induction fr arbitrary: ti) auto

lemma free_retired_limbo_upd [simp]: "free_retired fr (ti\<lparr>limbo := L\<rparr>) = (free_retired fr ti)\<lparr>limbo := L\<rparr>"
  by (induction fr arbitrary: ti) auto

text \<open>Appending a retired block.\<close>

lemma push_back_pending:
  assumes "group_ok g" "push_back p tag e g = Some g'" "p \<noteq> 0"
  shows "group_ok g' \<and> group_pending g' = group_pending g @ [(e, p, tag)]"
proof -
  have t: "lg_tail g + 2 \<le> limbo_capacity" and b: "group_bounds g"
    using assms(1,2) by (auto simp: push_back_def group_ok_def split: if_splits)
  define m :: "limbo_element list" where "m = (if lg_head g = lg_tail g \<or> lg_epoch g \<noteq> e then [(0, e)] else [])"
  have elts: "group_elts g' = group_elts g @ m @ [(p, tag)]"
    using assms(2) t b
    by (auto simp: push_back_def group_elts_def m_def Let_def group_bounds_def take_Suc_conv_app_nth drop_append
        split: if_splits)
  have bounds: "group_bounds g'" and ep: "lg_epoch g' = e"
    using assms(2) t b by (auto simp: push_back_def Let_def group_bounds_def split: if_splits)
  have last: "last_ep (last_ep 0 (group_elts g)) m = e"
    using assms(1) b by (auto simp: m_def group_ok_def group_elts_Nil)
  have "marked (group_elts g')"
    using assms(1) group_elts_Nil [OF b] unfolding elts by (cases "group_elts g") (auto simp: marked_def group_ok_def m_def)
  moreover have "last_ep 0 (group_elts g') = lg_epoch g'" unfolding elts ep using last assms(3) by (simp add: last_ep_append)
  moreover have "pend x m = []" for x by (simp add: m_def)
  ultimately show ?thesis
    using bounds last assms(3) by (auto simp: group_ok_def group_pending_def elts pend_append)
qed

text \<open>Cleaning one group frees a prefix of its queue.\<close>

lemma clean_loop_frees:
  assumes "clean_loop bound ep ti g cnt = (ti', g', c')" "group_bounds g" "0 < cnt"
    "marked (group_elts g) \<or> 0 \<le> sint (bound - ep)"
  shows "\<exists>fr. pend ep (group_elts g) = fr @ pend 0 (group_elts g') \<and> ti' = free_retired fr ti
    \<and> (\<forall>(e, p, t)\<in>set fr. 0 \<le> sint (bound - e)) \<and> length fr + c' = cnt
    \<and> group_bounds g' \<and> marked (group_elts g') \<and> lg_epoch g' = lg_epoch g
    \<and> (group_elts g' \<noteq> [] \<longrightarrow> last_ep 0 (group_elts g') = last_ep ep (group_elts g))
    \<and> (c' = 0 \<longrightarrow> lg_head g' \<noteq> lg_tail g')"
  using assms
proof (induction bound ep ti g cnt arbitrary: ti' g' c' rule: clean_loop.induct)
  case (1 bound ep ti g cnt)
  note loop = "1.prems"(1) and b = "1.prems"(2) and pos = "1.prems"(3) and ready = "1.prems"(4)
  show ?case
  proof (cases "lg_head g < lg_tail g")
    case False
    then have "(ti', g', c') = (ti, g, cnt)" using loop by (simp add: clean_loop.simps)
    moreover have "group_elts g = []" using False b by (auto simp: group_elts_Nil group_bounds_def)
    ultimately show ?thesis using b pos by (auto simp: marked_def intro!: exI [of _ "[]"])
  next
    case True
    obtain p u where pu: "lg_elts g ! lg_head g = (p, u)" by force
    let ?g1 = "g\<lparr>lg_head := lg_head g + 1\<rparr>"
    have es: "group_elts g = (p, u) # group_elts ?g1" using group_elts_Cons [OF b True] pu by simp
    have b1: "group_bounds ?g1" using b True by (simp add: group_bounds_def)
    show ?thesis
    proof (cases "p = 0")
      case True
      show ?thesis
      proof (cases "sint (bound - u) < 0")
        case True
        then have "(ti', g', c') = (ti, g, cnt)"
          using loop \<open>p = 0\<close> pu \<open>lg_head g < lg_tail g\<close> by (simp add: clean_loop.simps)
        then show ?thesis using b pos \<open>p = 0\<close> es by (auto simp: marked_def intro!: exI [of _ "[]"])
      next
        case False
        then have "clean_loop bound u ti ?g1 cnt = (ti', g', c')"
          using loop \<open>p = 0\<close> pu \<open>lg_head g < lg_tail g\<close> by (subst (asm) clean_loop.simps) simp
        from "1.IH"(2) [OF \<open>lg_head g < lg_tail g\<close> pu [symmetric] refl _ False this b1 pos] \<open>p = 0\<close> False
        show ?thesis by (auto simp: es)
      qed
    next
      case False
      have ep: "0 \<le> sint (bound - ep)" using ready False es by (auto simp: marked_def)
      show ?thesis
      proof (cases "cnt - 1 = 0")
        case True
        let ?gm = "g\<lparr>lg_elts := (lg_elts g)[lg_head g := (0, ep)]\<rparr>"
        have "(ti', g', c') = (free_rcu p u ti, ?gm, 0)"
          using loop False pu True \<open>lg_head g < lg_tail g\<close> by (simp add: clean_loop.simps)
        moreover have "group_elts ?gm = (0, ep) # group_elts ?g1"
          using b \<open>lg_head g < lg_tail g\<close> group_elts_Cons [of ?gm]
          by (simp add: group_bounds_def group_elts_def take_update_swap)
        moreover have "group_bounds ?gm" using b by (simp add: group_bounds_def)
        ultimately show ?thesis
          using ep False True pos es \<open>lg_head g < lg_tail g\<close> by (auto simp: marked_def intro!: exI [of _ "[(ep, p, u)]"])
      next
        case more: False
        then have "clean_loop bound ep (free_rcu p u ti) ?g1 (cnt - 1) = (ti', g', c')"
          using loop False pu \<open>lg_head g < lg_tail g\<close> by (subst (asm) clean_loop.simps) (simp add: Let_def)
        from "1.IH"(1) [OF \<open>lg_head g < lg_tail g\<close> pu [symmetric] refl False refl refl more this b1] ep pos more
        obtain fr where "pend ep (group_elts ?g1) = fr @ pend 0 (group_elts g')" "ti' = free_retired fr (free_rcu p u ti)"
          "\<forall>(e, p, t)\<in>set fr. 0 \<le> sint (bound - e)" "length fr + c' = cnt - 1" "group_bounds g'" "marked (group_elts g')"
          "lg_epoch g' = lg_epoch g" "group_elts g' \<noteq> [] \<longrightarrow> last_ep 0 (group_elts g') = last_ep ep (group_elts ?g1)"
          "c' = 0 \<longrightarrow> lg_head g' \<noteq> lg_tail g'"
          by auto
        then show ?thesis using False ep pos more es by (intro exI [of _ "(ep, p, u) # fr"]) auto
      qed
    qed
  qed
qed


lemma clean_until_frees:
  assumes "clean_until bound ti g cnt = (ti', g', c')" "group_ok g" "0 < cnt"
  shows "\<exists>fr. group_pending g = fr @ group_pending g' \<and> ti' = free_retired fr ti
    \<and> (\<forall>(e, p, t)\<in>set fr. 0 \<le> sint (bound - e)) \<and> length fr + c' = cnt \<and> group_ok g'
    \<and> (lg_head g' = lg_tail g' \<longrightarrow> lg_head g' = 0) \<and> (c' = 0 \<longrightarrow> lg_head g' \<noteq> lg_tail g')"
proof -
  obtain ti1 g1 c1 where loop: "clean_loop bound 0 ti g cnt = (ti1, g1, c1)" by (metis prod_cases3)
  then have res: "ti' = ti1" "c' = c1" "g' = (if lg_head g1 = lg_tail g1 then g1\<lparr>lg_head := 0, lg_tail := 0\<rparr> else g1)"
    using assms(1) by (auto simp: clean_until_def)
  obtain fr where fr: "group_pending g = fr @ pend 0 (group_elts g1)" "ti1 = free_retired fr ti"
      "\<forall>(e, p, t)\<in>set fr. 0 \<le> sint (bound - e)" "length fr + c1 = cnt" "group_bounds g1" "marked (group_elts g1)"
      "lg_epoch g1 = lg_epoch g" "group_elts g1 \<noteq> [] \<longrightarrow> last_ep 0 (group_elts g1) = last_ep 0 (group_elts g)"
      "c1 = 0 \<longrightarrow> lg_head g1 \<noteq> lg_tail g1"
    using clean_loop_frees [OF loop] assms(2,3) by (auto simp: group_ok_def group_pending_def)
  have "group_elts g1 \<noteq> [] \<Longrightarrow> group_elts g \<noteq> []" using fr(1,4) loop by (cases "group_elts g")
      (auto simp: group_elts_Nil clean_loop.simps assms(2) [unfolded group_ok_def])
  then show ?thesis
    using fr assms(2) group_elts_Nil [OF fr(5)]
    by (intro exI [of _ fr]) (auto simp: res group_ok_def group_pending_def group_bounds_def group_elts_def marked_def)
qed

lemma in_set_take_or_drop: "x \<in> set xs \<Longrightarrow> x \<in> set (take n xs) \<or> x \<in> set (drop n xs)"
  by (metis Un_iff append_take_drop_id set_append)

lemma quiesce_loop_frees:
  assumes "quiesce_loop bound i cnt ti = (ae, j, c', ti')" "0 < cnt" "i \<le> limbo_tail ti"
    "limbo_tail ti < length (limbo ti)" "\<forall>g\<in>set (limbo ti). group_ok g"
  shows "\<exists>fr L. ti' = (free_retired fr ti)\<lparr>limbo := L\<rparr> \<and> length L = length (limbo ti) \<and> i \<le> j \<and> j \<le> limbo_tail ti
    \<and> concat (map group_pending (drop i (take (limbo_tail ti + 1) (limbo ti))))
      = fr @ concat (map group_pending (drop j (take (limbo_tail ti + 1) L)))
    \<and> (\<forall>(e, p, t)\<in>set fr. 0 \<le> sint (bound - e)) \<and> length fr + c' = cnt
    \<and> (\<forall>g\<in>set L. group_ok g) \<and> take i L = take i (limbo ti)
    \<and> drop (limbo_tail ti + 1) L = drop (limbo_tail ti + 1) (limbo ti)
    \<and> (\<forall>k. i \<le> k \<and> k < (if ae then limbo_tail ti + 1 else j) \<longrightarrow> lg_head (L ! k) = 0 \<and> lg_tail (L ! k) = 0)
    \<and> (ae \<longrightarrow> j = limbo_tail ti)"
  using assms
proof (induction "limbo_tail ti - i" arbitrary: i cnt ti ae j c' ti' rule: less_induct)
  case less
  let ?t = "limbo_tail ti"
  have i: "i < length (limbo ti)" using less.prems by simp
  obtain ti1 g c1 where clean: "clean_until bound ti (limbo ti ! i) cnt = (ti1, g, c1)" by (metis prod_cases3)
  have "group_ok (limbo ti ! i)" using less.prems(5) i by simp
  then obtain fr where fr: "group_pending (limbo ti ! i) = fr @ group_pending g" "ti1 = free_retired fr ti"
      "\<forall>(e, p, t)\<in>set fr. 0 \<le> sint (bound - e)" "length fr + c1 = cnt" "group_ok g"
      "lg_head g = lg_tail g \<longrightarrow> lg_head g = 0" "c1 = 0 \<longrightarrow> lg_head g \<noteq> lg_tail g"
    using clean_until_frees [OF clean _ less.prems(2)] by blast
  define L where "L = (limbo ti)[i := g]"
  have ti2: "ti1\<lparr>limbo := L, limbo_tail := ?t\<rparr> = (free_retired fr ti)\<lparr>limbo := L\<rparr>" using fr(2) by simp
  have ok: "\<forall>g\<in>set L. group_ok g" using less.prems(5) fr(5) set_update_subset_insert [of "limbo ti" i g] unfolding L_def by blast
  have split: "concat (map group_pending (drop i (take (?t + 1) (limbo ti))))
      = group_pending (limbo ti ! i) @ concat (map group_pending (drop (i + 1) (take (?t + 1) (limbo ti))))"
    using Cons_nth_drop_Suc [of i "take (?t + 1) (limbo ti)"] less.prems(3) i by (simp flip: Cons_nth_drop_Suc)
  have splitL: "concat (map group_pending (drop i (take (?t + 1) L)))
      = group_pending g @ concat (map group_pending (drop (i + 1) (take (?t + 1) (limbo ti))))"
    using Cons_nth_drop_Suc [of i "take (?t + 1) L"] less.prems(3) i by (simp add: L_def take_update_swap flip: Cons_nth_drop_Suc)
  have unfold: "quiesce_loop bound i cnt ti =
      (if lg_head g \<noteq> lg_tail g then (False, i, c1, (free_retired fr ti)\<lparr>limbo := L\<rparr>)
       else if i = ?t then (True, i, c1, (free_retired fr ti)\<lparr>limbo := L\<rparr>)
       else quiesce_loop bound (i + 1) c1 ((free_retired fr ti)\<lparr>limbo := L\<rparr>))"
    using less.prems(2) i by (subst quiesce_loop.simps) (simp add: clean ti2 flip: L_def)
  have same: "take i L = take i (limbo ti)" "drop (?t + 1) L = drop (?t + 1) (limbo ti)" "length L = length (limbo ti)"
    using less.prems(3) by (simp_all add: L_def)
  have gp: "lg_head g = lg_tail g \<Longrightarrow> group_pending g = []"
    using fr(5) by (simp add: group_pending_def group_elts_def)
  consider "lg_head g \<noteq> lg_tail g" | "lg_head g = lg_tail g" "i = ?t" | "lg_head g = lg_tail g" "i < ?t"
    using less.prems(3) by linarith
  then show ?case
  proof cases
    case 1
    then show ?thesis
      using less.prems(1,3) unfold fr(1,3,4) ok same split splitL by (intro exI [of _ fr] exI [of _ L]) auto
  next
    case 2
    have "lg_head (L ! ?t) = 0 \<and> lg_tail (L ! ?t) = 0" using 2 fr(6) i by (simp add: L_def)
    then have "lg_head (L ! k) = 0 \<and> lg_tail (L ! k) = 0" if "?t \<le> k" "k < Suc ?t" for k
      using that by (metis le_antisym less_Suc_eq_le)
    then show ?thesis
      using 2 less.prems(1,3) unfold fr(1,3,4) ok same split splitL gp
      by (intro exI [of _ fr] exI [of _ L]) auto
  next
    case 3
    let ?ti2 = "(free_retired fr ti)\<lparr>limbo := L\<rparr>"
    have rec: "quiesce_loop bound (i + 1) c1 ?ti2 = (ae, j, c', ti')" using 3 less.prems(1) unfold by simp
    have c1: "0 < c1" using fr(7) 3 by auto
    have "\<exists>fr' L'. ti' = (free_retired fr' ?ti2)\<lparr>limbo := L'\<rparr> \<and> length L' = length L \<and> i + 1 \<le> j \<and> j \<le> ?t
      \<and> concat (map group_pending (drop (i + 1) (take (?t + 1) L))) = fr' @ concat (map group_pending (drop j (take (?t + 1) L')))
      \<and> (\<forall>(e, p, t)\<in>set fr'. 0 \<le> sint (bound - e)) \<and> length fr' + c' = c1
      \<and> (\<forall>g\<in>set L'. group_ok g) \<and> take (i + 1) L' = take (i + 1) L \<and> drop (?t + 1) L' = drop (?t + 1) L
      \<and> (\<forall>k. i + 1 \<le> k \<and> k < (if ae then ?t + 1 else j) \<longrightarrow> lg_head (L' ! k) = 0 \<and> lg_tail (L' ! k) = 0)
      \<and> (ae \<longrightarrow> j = ?t)"
    proof -
      have t2: "limbo_tail ?ti2 = ?t" "limbo ?ti2 = L" by simp_all
      have "limbo_tail ?ti2 - (i + 1) < limbo_tail ti - i" "i + 1 \<le> limbo_tail ?ti2" using 3 by simp_all
      from less.hyps [OF this(1) rec c1 this(2)] less.prems(4) ok same(3) show ?thesis
        unfolding t2 by (simp split del: if_split)
    qed
    then obtain fr' L' where *: "ti' = (free_retired fr' ?ti2)\<lparr>limbo := L'\<rparr>" "length L' = length L" "i + 1 \<le> j" "j \<le> ?t"
      "concat (map group_pending (drop (i + 1) (take (?t + 1) L))) = fr' @ concat (map group_pending (drop j (take (?t + 1) L')))"
      "\<forall>(e, p, t)\<in>set fr'. 0 \<le> sint (bound - e)" "length fr' + c' = c1"
      "\<forall>g\<in>set L'. group_ok g" "take (i + 1) L' = take (i + 1) L" "drop (?t + 1) L' = drop (?t + 1) L"
      "\<forall>k. i + 1 \<le> k \<and> k < (if ae then ?t + 1 else j) \<longrightarrow> lg_head (L' ! k) = 0 \<and> lg_tail (L' ! k) = 0"
      "ae \<longrightarrow> j = ?t" by blast
    have Li: "L' ! i = g" using *(9) i by (metis L_def add.commute lessI nth_list_update_eq nth_take plus_1_eq_Suc)
    have "take i L' = take i L" using *(9) by (metis add.commute le_add2 min.absorb1 take_take)
    moreover have "drop (i + 1) (take (?t + 1) L) = drop (i + 1) (take (?t + 1) (limbo ti))"
      by (simp add: L_def take_update_swap)
    moreover have "lg_head (L' ! k) = 0 \<and> lg_tail (L' ! k) = 0" if "i \<le> k" "k < (if ae then ?t + 1 else j)" for k
      using that *(11) Li 3(1) fr(6) by (cases "k = i") auto
    ultimately show ?thesis
      using * fr(1,3,4) same split gp [OF 3(1)] by (intro exI [of _ "fr @ fr'"] exI [of _ L']) auto
  qed
qed


lemma hard_rcu_quiesce_frees:
  assumes "limbo_ok ti"
  shows "\<exists>fr. pending ti = fr @ pending (hard_rcu_quiesce active ti)
    \<and> (\<forall>(e, p, t)\<in>set fr. 0 \<le> sint (active - 1 - e)) \<and> length fr \<le> rcu_free_count
    \<and> pool (hard_rcu_quiesce active ti) = pool (free_retired fr ti)
    \<and> callbacks (hard_rcu_quiesce active ti) = callbacks (free_retired fr ti)
    \<and> gc_epoch (hard_rcu_quiesce active ti) = gc_epoch (free_retired fr ti)
    \<and> limbo_ok (hard_rcu_quiesce active ti)"
proof (cases "lg_head (limbo ti ! 0) = lg_tail (limbo ti ! 0) \<or> sint (active - 1 - first_epoch (limbo ti ! 0)) < 0")
  case True
  then have "hard_rcu_quiesce active ti = ti\<lparr>perform_gc_epoch := active - 1 + 1\<rparr>"
    by (simp add: hard_rcu_quiesce_def Let_def rcu_free_count_def)
  then show ?thesis using assms by (auto simp: pending_def limbo_ok_def intro!: exI [of _ "[]"])
next
  case False
  let ?t = "limbo_tail ti"
  have ok: "?t < length (limbo ti)" "\<forall>g\<in>set (limbo ti). group_ok g"
    "\<forall>g\<in>set (drop (?t + 1) (limbo ti)). lg_head g = 0 \<and> lg_tail g = 0" using assms by (auto simp: limbo_ok_def)
  obtain ae i c ti1 where loop: "quiesce_loop (active - 1) 0 rcu_free_count ti = (ae, i, c, ti1)" by (metis prod_cases4)
  obtain fr L where *: "ti1 = (free_retired fr ti)\<lparr>limbo := L\<rparr>" "length L = length (limbo ti)" "i \<le> ?t"
      "concat (map group_pending (take (?t + 1) (limbo ti))) = fr @ concat (map group_pending (drop i (take (?t + 1) L)))"
      "\<forall>(e, p, t)\<in>set fr. 0 \<le> sint (active - 1 - e)" "length fr + c = rcu_free_count" "\<forall>g\<in>set L. group_ok g"
      "drop (?t + 1) L = drop (?t + 1) (limbo ti)"
      "\<forall>k. k < (if ae then ?t + 1 else i) \<longrightarrow> lg_head (L ! k) = 0 \<and> lg_tail (L ! k) = 0" "ae \<longrightarrow> i = ?t"
    using quiesce_loop_frees [OF loop _ _ ok(1,2)] by (auto simp: rcu_free_count_def)
  have empty: "group_pending g = []" if "lg_head g = 0" "lg_tail g = 0" for g
    using that by (simp add: group_pending_def group_elts_def)
  have early: "\<forall>g\<in>set (take k L). lg_head g = 0 \<and> lg_tail g = 0" if "k \<le> (if ae then ?t + 1 else i)" for k
    using *(9) that by (auto simp: in_set_conv_nth)
  show ?thesis
  proof (cases ae)
    case True
    have q: "hard_rcu_quiesce active ti = (free_retired fr ti)\<lparr>limbo := L, limbo_tail := 0,
        perform_gc_epoch := (if c = 0 then active - 1 else active - 1 + 1)\<rparr>"
      using False loop True *(1) by (simp add: hard_rcu_quiesce_def Let_def)
    have "\<forall>g\<in>set L. lg_head g = 0 \<and> lg_tail g = 0"
      using early [of "?t + 1"] *(8) ok(3) True in_set_take_or_drop [of _ L "?t + 1"] by auto
    then have e: "\<forall>g\<in>set L. lg_head g = 0 \<and> lg_tail g = 0 \<and> group_pending g = []" using empty by blast
    then have "concat (map group_pending (drop i (take (?t + 1) L))) = []" "concat (map group_pending (take 1 L)) = []"
      by (auto dest: in_set_dropD in_set_takeD)
    moreover have "limbo_ok (hard_rcu_quiesce active ti)"
      using *(2,7) ok(1) e by (auto simp: q limbo_ok_def dest: in_set_dropD)
    moreover have "pending (hard_rcu_quiesce active ti) = concat (map group_pending (take 1 L))" by (simp add: q pending_def)
    moreover have "pending ti = fr @ concat (map group_pending (drop i (take (?t + 1) L)))" using *(4) by (simp add: pending_def)
    ultimately have "pending ti = fr" "pending (hard_rcu_quiesce active ti) = []" "limbo_ok (hard_rcu_quiesce active ti)"
      by (simp_all only: append_Nil2)
    then show ?thesis
      using *(5,6) by (intro exI [of _ fr]) (simp add: q)
  next
    case nae: False
    let ?L = "drop i (take (?t + 1) L) @ take i L @ drop (?t + 1) L"
    have q: "hard_rcu_quiesce active ti = (free_retired fr ti)\<lparr>limbo := ?L, limbo_tail := ?t - i,
        perform_gc_epoch := (if c = 0 then active - 1 else active - 1 + 1)\<rparr>"
      using False loop nae *(1) by (simp add: hard_rcu_quiesce_def Let_def)
    have len: "length (drop i (take (?t + 1) L)) = ?t - i + 1" using *(2,3) ok(1) by simp
    then have tk: "take (?t - i + 1) ?L = drop i (take (?t + 1) L)" "drop (?t - i + 1) ?L = take i L @ drop (?t + 1) L"
      by (simp_all add: take_append drop_append)
    have "pending (hard_rcu_quiesce active ti) = concat (map group_pending (take (?t - i + 1) ?L))"
      by (simp add: q pending_def)
    then have "pending (hard_rcu_quiesce active ti) = concat (map group_pending (drop i (take (?t + 1) L)))"
      by (simp only: tk)
    moreover have "limbo_ok (hard_rcu_quiesce active ti)"
    proof -
      have "?t - i < length ?L" using len by simp
      moreover have "\<forall>g\<in>set ?L. group_ok g" using *(7) by (auto dest: in_set_dropD in_set_takeD)
      moreover have "\<forall>g\<in>set (drop (?t - i + 1) ?L). lg_head g = 0 \<and> lg_tail g = 0"
        unfolding tk using early [of i] nae *(8) ok(3) by auto
      ultimately show ?thesis unfolding limbo_ok_def q by simp
    qed
    ultimately show ?thesis
      using *(4,5,6) by (intro exI [of _ fr]) (simp add: q, simp add: pending_def)
  qed
qed

lemma record_rcu_pending:
  assumes "limbo_ok ti" "p \<noteq> 0"
  shows "\<exists>ti'. record_rcu ge p tag ti = Some ti' \<and> limbo_ok ti' \<and> pending ti' = pending ti @ [(ge, p, tag)]
    \<and> pool ti' = pool ti \<and> callbacks ti' = callbacks ti \<and> gc_epoch ti' = gc_epoch ti"
proof -
  have new: "group_ok limbo_new" "group_pending limbo_new = []"
    by (simp_all add: group_ok_def group_bounds_def limbo_new_def group_elts_def marked_def group_pending_def)
  define ti1 where "ti1 = (if lg_tail (limbo ti ! limbo_tail ti) + 2 > limbo_capacity then the (refill_rcu ti) else ti)"
  have refill: "(if lg_tail (limbo ti ! limbo_tail ti) + 2 > limbo_capacity then refill_rcu ti else Some ti) = Some ti1
    \<and> limbo_ok ti1 \<and> pending ti1 = pending ti \<and> lg_tail (limbo ti1 ! limbo_tail ti1) + 2 \<le> limbo_capacity
    \<and> pool ti1 = pool ti \<and> callbacks ti1 = callbacks ti \<and> gc_epoch ti1 = gc_epoch ti"
  proof (cases "lg_tail (limbo ti ! limbo_tail ti) + 2 > limbo_capacity")
    case False
    then show ?thesis using assms(1) by (simp add: ti1_def)
  next
    case full: True
    show ?thesis
    proof (cases "limbo_tail ti + 1 < length (limbo ti)")
      case True
      let ?g = "limbo ti ! (limbo_tail ti + 1)"
      have g: "lg_head ?g = 0" "lg_tail ?g = 0" "drop (limbo_tail ti + 1) (limbo ti) = ?g # drop (limbo_tail ti + 2) (limbo ti)"
        using assms(1) Cons_nth_drop_Suc [OF True] unfolding limbo_ok_def by (metis list.set_intros(1), metis list.set_intros(1), simp)
      then have "group_pending ?g = []" by (simp add: group_pending_def group_elts_def)
      then show ?thesis
        using full True g assms(1)
        by (auto simp: ti1_def refill_rcu_def Let_def limbo_ok_def pending_def take_Suc_conv_app_nth limbo_capacity_def)
    next
      case False
      then have "length (limbo ti) = limbo_tail ti + 1" using assms(1) by (auto simp: limbo_ok_def)
      then show ?thesis
        using full new assms(1)
        by (auto simp: ti1_def refill_rcu_def Let_def limbo_ok_def pending_def nth_append limbo_capacity_def limbo_new_def)
    qed
  qed
  let ?t = "limbo_tail ti1"
  let ?g = "limbo ti1 ! ?t"
  have t: "?t < length (limbo ti1)" and gok: "group_ok ?g" using refill by (auto simp: limbo_ok_def)
  obtain g where g: "push_back p tag ge ?g = Some g" using refill by (auto simp: push_back_def Let_def)
  note pb = push_back_pending [OF gok g assms(2)]
  let ?r = "ti1\<lparr>limbo := (limbo ti1)[?t := g]\<rparr>"
  have "record_rcu ge p tag ti = Some ?r" using refill g by (simp add: record_rcu_def)
  moreover have "limbo_ok ?r"
    using refill pb t set_update_subset_insert [of "limbo ti1" ?t g] by (auto simp: limbo_ok_def)
  moreover have "pending ?r = pending ti @ [(ge, p, tag)]"
    using refill pb t by (simp add: pending_def take_Suc_conv_app_nth)
  ultimately show ?thesis using refill by auto
qed


definition demo_thread :: threadinfo where
  "demo_thread = \<lparr>gc_epoch = 0, perform_gc_epoch = 0, pool = replicate 70 [], limbo = [limbo_new], limbo_tail = 0,
     ts = 2, callbacks = []\<rparr>"

lemma demo_thread_ok: "limbo_ok demo_thread" "pending demo_thread = []" "gc_epoch demo_thread = 0"
  by (simp_all add: limbo_ok_def demo_thread_def group_ok_def group_bounds_def limbo_new_def group_elts_def
      marked_def pending_def group_pending_def)



section \<open>Grace periods\<close>

text \<open>
  The threads and the two global epochs.  The global epoch advances, the active epoch is set
  to the oldest epoch a thread is in, threads enter and leave read sections, retire blocks
  and release retired blocks, in any order.  Epochs stay in the lower half of the circle.
\<close>

record rcu_state =
  s_ge :: u64
  s_active :: u64
  s_threads :: "threadinfo list"

definition upd_thread :: "nat \<Rightarrow> threadinfo \<Rightarrow> rcu_state \<Rightarrow> rcu_state" where
  "upd_thread i t s = s\<lparr>s_threads := (s_threads s)[i := t]\<rparr>"

inductive rcu_step :: "rcu_state \<Rightarrow> rcu_state \<Rightarrow> bool" where
  advance: "s_ge s + 1 < 2 ^ 63 \<Longrightarrow> rcu_step s (s\<lparr>s_ge := s_ge s + 1\<rparr>)"
| set_active: "rcu_step s (s\<lparr>s_active := min_active_epoch (s_ge s) (s_threads s)\<rparr>)"
| start: "i < length (s_threads s) \<Longrightarrow> rcu_step s (upd_thread i (rcu_start (s_ge s) (s_threads s ! i)) s)"
| stop: "i < length (s_threads s) \<Longrightarrow> rcu_step s (upd_thread i (rcu_stop (s_active s) (s_threads s ! i)) s)"
| quiesce: "i < length (s_threads s) \<Longrightarrow>
    rcu_step s (upd_thread i (rcu_quiesce (s_ge s) (s_active s) (s_threads s ! i)) s)"
| retire: "i < length (s_threads s) \<Longrightarrow> p \<noteq> 0 \<Longrightarrow> record_rcu (s_ge s) p tag (s_threads s ! i) = Some t \<Longrightarrow>
    rcu_step s (upd_thread i t s)"

definition rcu_inv :: "rcu_state \<Rightarrow> bool" where
  "rcu_inv s \<longleftrightarrow> 0 < s_active s \<and> s_active s \<le> s_ge s \<and> s_ge s < 2 ^ 63
     \<and> (\<forall>t\<in>set (s_threads s). limbo_ok t \<and> (gc_epoch t = 0 \<or> s_active s \<le> gc_epoch t \<and> gc_epoch t \<le> s_ge s))"

lemma sint_diff:
  assumes "(a :: u64) < 2 ^ 63" "b < 2 ^ 63"
  shows "sint (a - b) = uint a - uint b"
proof -
  have u: "uint x < 2 ^ 63" if "x < (2 ^ 63 :: u64)" for x
    using that by (simp add: word_less_def)
  have s: "sint x = uint x" if "uint (x :: u64) < 2 ^ 63" for x
  proof -
    have "0 \<le> uint x" by simp
    then have "signed_take_bit 63 (uint x) = uint x" using that by (intro signed_take_bit_int_eq_self) linarith+
    then show ?thesis by (simp add: sint_uint)
  qed
  have "sint (a - b) = signed_take_bit 63 (uint a - uint b)"
    by (simp add: sint_word_ariths s [OF u [OF assms(1)]] s [OF u [OF assms(2)]])
  also have "\<dots> = uint a - uint b"
  proof -
    have "0 \<le> uint a" "0 \<le> uint b" by simp_all
    then show ?thesis using u [OF assms(1)] u [OF assms(2)] by (intro signed_take_bit_int_eq_self) linarith+
  qed
  finally show ?thesis .
qed

lemma free_rcu_gc_epoch [simp]: "gc_epoch (free_rcu p t ti) = gc_epoch ti"
  by (simp add: free_rcu_def Let_def)

lemma free_retired_gc_epoch [simp]: "gc_epoch (free_retired fr ti) = gc_epoch ti"
  by (induction fr arbitrary: ti) auto

lemma quiesce_gc_epoch: "limbo_ok ti \<Longrightarrow> gc_epoch (hard_rcu_quiesce active ti) = gc_epoch ti"
  using hard_rcu_quiesce_frees [of ti active] by auto

lemma quiesce_keeps_limbo: "limbo_ok ti \<Longrightarrow> limbo_ok (hard_rcu_quiesce active ti)"
  using hard_rcu_quiesce_frees [of ti active] by auto

lemma limbo_ok_epoch [simp]: "limbo_ok (ti\<lparr>gc_epoch := e\<rparr>) = limbo_ok ti" "pending (ti\<lparr>gc_epoch := e\<rparr>) = pending ti"
  by (simp_all add: limbo_ok_def pending_def)

lemma min_active_loop_bounds:
  assumes "ae < 2 ^ 63" "\<forall>t\<in>set tis. gc_epoch t < 2 ^ 63" "lo \<le> ae" "\<forall>t\<in>set tis. gc_epoch t = 0 \<or> lo \<le> gc_epoch t"
  shows "lo \<le> min_active_loop ae tis \<and> min_active_loop ae tis \<le> ae
    \<and> (\<forall>t\<in>set tis. gc_epoch t = 0 \<or> min_active_loop ae tis \<le> gc_epoch t)"
  using assms
proof (induction tis arbitrary: ae)
  case (Cons t tis)
  let ?ae = "if gc_epoch t \<noteq> 0 \<and> sint (gc_epoch t - ae) < 0 then gc_epoch t else ae"
  have "sint (gc_epoch t - ae) < 0 \<longleftrightarrow> gc_epoch t < ae"
    using sint_diff [of "gc_epoch t" ae] Cons.prems by (simp add: word_less_def)
  then have *: "?ae \<le> ae" "gc_epoch t = 0 \<or> ?ae \<le> gc_epoch t" "lo \<le> ?ae" "?ae < 2 ^ 63"
    using Cons.prems by auto
  have "lo \<le> min_active_loop ?ae tis \<and> min_active_loop ?ae tis \<le> ?ae
      \<and> (\<forall>t\<in>set tis. gc_epoch t = 0 \<or> min_active_loop ?ae tis \<le> gc_epoch t)"
    using Cons.IH [of ?ae] * Cons.prems by auto
  then show ?case using * by (auto simp: Let_def intro: order_trans)
qed simp

lemma rcu_inv_thread:
  assumes "rcu_inv s" "i < length (s_threads s)" "limbo_ok t"
    "gc_epoch t = 0 \<or> s_active s \<le> gc_epoch t \<and> gc_epoch t \<le> s_ge s"
  shows "rcu_inv (upd_thread i t s)"
  using assms set_update_subset_insert [of "s_threads s" i t] by (fastforce simp: rcu_inv_def upd_thread_def)

lemma rcu_step_inv: "rcu_step s s' \<Longrightarrow> rcu_inv s \<Longrightarrow> rcu_inv s'"
proof (induction rule: rcu_step.induct)
  case (advance s)
  have "unat (s_ge s) + 1 < 2 ^ 64" using advance.prems by (simp add: rcu_inv_def word_less_nat_alt)
  then have "s_ge s < s_ge s + 1" by (simp add: word_less_nat_alt unat_word_ariths)
  then show ?case using advance by (auto simp: rcu_inv_def intro: order_trans less_imp_le)
next
  case (set_active s)
  have "gc_epoch t < 2 ^ 63" "gc_epoch t = 0 \<or> s_active s \<le> gc_epoch t" if "t \<in> set (s_threads s)" for t
    using set_active that by (auto simp: rcu_inv_def)
  then show ?case
    using set_active min_active_loop_bounds [of "s_ge s" "s_threads s" "s_active s"]
    by (auto simp: rcu_inv_def min_active_epoch_def)
next
  case (start i s)
  then show ?case by (intro rcu_inv_thread) (auto simp: rcu_start_def rcu_inv_def)
next
  case (stop i s)
  then have "limbo_ok (s_threads s ! i)" by (simp add: rcu_inv_def)
  then show ?case using stop by (intro rcu_inv_thread) (auto simp: rcu_stop_def Let_def quiesce_keeps_limbo)
next
  case (quiesce i s)
  then have "limbo_ok (rcu_start (s_ge s) (s_threads s ! i))" "gc_epoch (rcu_start (s_ge s) (s_threads s ! i)) = s_ge s"
    by (auto simp: rcu_inv_def rcu_start_def)
  then show ?case using quiesce
    by (intro rcu_inv_thread) (auto simp: rcu_quiesce_def Let_def quiesce_keeps_limbo quiesce_gc_epoch rcu_inv_def)
next
  case (retire i s p tag t)
  then have "limbo_ok (s_threads s ! i)"
    "gc_epoch (s_threads s ! i) = 0 \<or> s_active s \<le> gc_epoch (s_threads s ! i) \<and> gc_epoch (s_threads s ! i) \<le> s_ge s"
    by (auto simp: rcu_inv_def)
  then show ?case using retire record_rcu_pending [of "s_threads s ! i" p "s_ge s" tag] by (intro rcu_inv_thread) auto
qed

lemma rcu_reach_inv: "rcu_step\<^sup>*\<^sup>* s s' \<Longrightarrow> rcu_inv s \<Longrightarrow> rcu_inv s'"
  by (induction rule: rtranclp_induct) (auto intro: rcu_step_inv)

lemma quiesce_keeps_recent:
  assumes "limbo_ok ti" "(e, p, t) \<in> set (pending ti)" "active \<le> e" "0 < active" "e < 2 ^ 63"
  shows "(e, p, t) \<in> set (pending (hard_rcu_quiesce active ti))"
proof (rule ccontr)
  assume "\<not> ?thesis"
  then have "0 \<le> sint (active - 1 - e)" using hard_rcu_quiesce_frees [OF assms(1), of active] assms(2) by auto
  moreover have "active - 1 < active" using assms(4) by (simp add: word_less_nat_alt unat_sub_if' word_le_nat_alt)
  moreover have "active - 1 < 2 ^ 63" using assms(3,5) \<open>active - 1 < active\<close> by (meson less_trans order_le_less_trans)
  ultimately show False using sint_diff [of "active - 1" e] assms(3,5) by (auto simp: word_less_def word_le_def)
qed

text \<open>
  C37.  Grace periods: in every state the threads and the epoch timer can reach, a block that
  was retired at an epoch not before the read section some thread is in stays in limbo through
  every step, whichever thread makes it: no block is reused while a thread that
  may have seen it is still in its section.
\<close>

theorem rcu_grace_period:
  assumes "rcu_inv s0" "rcu_step\<^sup>*\<^sup>* s0 s" "rcu_step s s'"
    and "i < length (s_threads s)" "gc_epoch (s_threads s ! i) \<noteq> 0"
    and "j < length (s_threads s)" "(e, p, t) \<in> set (pending (s_threads s ! j))"
    and "gc_epoch (s_threads s ! i) \<le> e" "e \<le> s_ge s"
  shows "(e, p, t) \<in> set (pending (s_threads s' ! j)) \<and> rcu_inv s'"
proof -
  have inv: "rcu_inv s" using rcu_reach_inv assms(1,2) by blast
  then have "s_active s \<le> gc_epoch (s_threads s ! i)" "0 < s_active s" "s_ge s < 2 ^ 63"
    using assms(4,5) nth_mem by (auto simp: rcu_inv_def)
  then have e: "s_active s \<le> e" "e < 2 ^ 63" "0 < s_active s" using assms(8,9) by auto
  have ok: "limbo_ok (s_threads s ! k)" if "k < length (s_threads s)" for k using inv that by (simp add: rcu_inv_def)
  note keep = quiesce_keeps_recent [OF _ _ e(1,3,2)]
  from assms(3) have "(e, p, t) \<in> set (pending (s_threads s' ! j))"
  proof cases
    case (start k)
    then show ?thesis using assms(6,7) by (cases "k = j") (auto simp: upd_thread_def rcu_start_def)
  next
    case (stop k)
    then show ?thesis using assms(6,7) ok keep by (cases "k = j") (auto simp: upd_thread_def rcu_stop_def Let_def)
  next
    case (quiesce k)
    have "limbo_ok (rcu_start (s_ge s) (s_threads s ! j))" "pending (rcu_start (s_ge s) (s_threads s ! j)) = pending (s_threads s ! j)"
      using ok [OF assms(6)] by (simp_all add: rcu_start_def)
    then show ?thesis using quiesce assms(6,7) keep by (cases "k = j") (auto simp: upd_thread_def rcu_quiesce_def Let_def)
  next
    case (retire k q tag t')
    then show ?thesis using assms(6,7) record_rcu_pending [OF ok [OF retire(2)] retire(3), of "s_ge s" tag]
      by (cases "k = j") (auto simp: upd_thread_def)
  qed (use assms(7) in simp_all)
  then show ?thesis using rcu_step_inv [OF assms(3) inv] by blast
qed


definition demo_reader :: threadinfo where "demo_reader = rcu_start 5 demo_thread"

definition demo_rcu :: rcu_state where
  "demo_rcu = \<lparr>s_ge = 5, s_active = 3, s_threads = [demo_reader, the (record_rcu 5 0x1000 0x1007 demo_thread)]\<rparr>"

theorem rcu_grace_period_witness:
  "(5, 0x1000, 0x1007) \<in> set (pending (hard_rcu_quiesce 3 (rcu_start 5 (the (record_rcu 5 0x1000 0x1007 demo_thread)))))"
proof -
  let ?w = "the (record_rcu 5 0x1000 0x1007 demo_thread)"
  obtain ti where ti: "record_rcu 5 0x1000 0x1007 demo_thread = Some ti" "limbo_ok ti" "pending ti = [(5, 0x1000, 0x1007)]"
    "gc_epoch ti = 0"
    using record_rcu_pending [OF demo_thread_ok(1), of "0x1000" 5 "0x1007"] by (auto simp: demo_thread_ok(2,3))
  have w: "limbo_ok ?w" "pending ?w = [(5, 0x1000, 0x1007)]" "gc_epoch ?w = 0" using ti by simp_all
  have r: "limbo_ok demo_reader" "gc_epoch demo_reader = 5" using demo_thread_ok(1)
    by (simp_all add: demo_reader_def rcu_start_def demo_thread_def limbo_ok_def)
  have inv: "rcu_inv demo_rcu" using w r by (simp add: rcu_inv_def demo_rcu_def word_less_nat_alt)
  have len: "1 < length (s_threads demo_rcu)" by (simp add: demo_rcu_def)
  have step: "rcu_step demo_rcu (upd_thread 1 (rcu_quiesce (s_ge demo_rcu) (s_active demo_rcu) (s_threads demo_rcu ! 1)) demo_rcu)"
    by (rule rcu_step.quiesce [OF len])
  have "perform_gc_epoch ?w \<noteq> 3"
    by (simp add: record_rcu_def demo_thread_def limbo_new_def limbo_capacity_def push_back_def Let_def)
  then have "(s_threads (upd_thread 1 (rcu_quiesce (s_ge demo_rcu) (s_active demo_rcu) (s_threads demo_rcu ! 1)) demo_rcu)) ! 1
      = hard_rcu_quiesce 3 (rcu_start 5 ?w)"
    by (simp add: upd_thread_def demo_rcu_def rcu_quiesce_def rcu_start_def)
  then show ?thesis
    using rcu_grace_period [OF inv rtranclp.rtrancl_refl step, of 0 1 5 "0x1000" "0x1007"] r(2) w(2)
    by (simp add: demo_rcu_def)
qed

section \<open>Pools\<close>

lemma pool_chain_blocks:
  assumes "0 < unit"
  shows "pool_chain base sz unit (k * unit) = map (\<lambda>i. base + i * unit) [k..<sz div unit]"
proof (induction "sz div unit - k" arbitrary: k)
  case 0
  then have "\<not> k * unit + unit \<le> sz" using assms by (metis add.commute div_le_mono mult_Suc nonzero_mult_div_cancel_right not_less_eq_eq diff_is_0_eq not_gr_zero)
  then show ?case using 0 by (subst pool_chain.simps) simp
next
  case (Suc d)
  then have k: "k < sz div unit" by simp
  then have "Suc k * unit \<le> sz" by (metis Suc_leI div_times_less_eq_dividend mult_le_mono1 order_trans)
  moreover have "pool_chain base sz unit (Suc k * unit) = map (\<lambda>i. base + i * unit) [Suc k..<sz div unit]"
    using Suc by (intro Suc.hyps) simp
  ultimately show ?case
    using assms k by (subst pool_chain.simps) (simp add: upt_conv_Cons add.commute)
qed



end
