(* ===== verification/Tree_Heap.thy ===== *)
theory Tree_Heap
  imports Nodes Masstree_Key Ksearch Kvthread "HOL-Library.Monad_Syntax"
begin

text \<open>
  The nodes in memory and the operations of \<open>node_base\<close>, \<open>leaf\<close> and \<open>internode\<close> on them
  (\<open>masstree_struct.hh\<close>).  The heap maps addresses to nodes and to external suffix bags; it
  also holds the thread's pools, the durable region, the two epochs and the copies the
  external logger has taken.  An operation runs alone: it returns \<open>None\<close> where the code would
  spin forever on a lock or a dirty node, follow a null pointer or fail an assertion.
  Newly allocated memory is taken to be zero.
\<close>

section \<open>The heap\<close>

record heap =
  nodes :: "u64 \<Rightarrow> node option"
  bags :: "u64 \<Rightarrow> bag option"
  tinfo :: threadinfo
  region :: nvm
  superpage :: nat
  globalepoch :: u64
  failedepoch :: u64
  elog :: "(u64 \<times> node) list"
  gc_callbacks :: "(u64 \<times> u64 \<times> bytes) list"

definition put_node :: "u64 \<Rightarrow> node \<Rightarrow> heap \<Rightarrow> heap" where
  "put_node a n h = h\<lparr>nodes := (nodes h)(a \<mapsto> n)\<rparr>"

definition leaf_at :: "heap \<Rightarrow> u64 \<Rightarrow> leaf option" where
  "leaf_at h a = (case nodes h a of Some (Leaf l) \<Rightarrow> Some l | _ \<Rightarrow> None)"

definition inode_at :: "heap \<Rightarrow> u64 \<Rightarrow> internode option" where
  "inode_at h a = (case nodes h a of Some (Internode i) \<Rightarrow> Some i | _ \<Rightarrow> None)"

definition upd_leaf :: "(leaf \<Rightarrow> leaf) \<Rightarrow> u64 \<Rightarrow> heap \<Rightarrow> heap option" where
  "upd_leaf f a h = do { l \<leftarrow> leaf_at h a; Some (put_node a (Leaf (f l)) h) }"

definition upd_inode :: "(internode \<Rightarrow> internode) \<Rightarrow> u64 \<Rightarrow> heap \<Rightarrow> heap option" where
  "upd_inode f a h = do { i \<leftarrow> inode_at h a; Some (put_node a (Internode (f i)) h) }"

section \<open>Versions and locks\<close>

fun node_vword :: "node \<Rightarrow> u32" where
  "node_vword (Leaf l) = vword l"
| "node_vword (Internode i) = vword i"

fun map_vword :: "(u32 \<Rightarrow> u32) \<Rightarrow> node \<Rightarrow> node" where
  "map_vword f (Leaf l) = Leaf (l\<lparr>vword := f (vword l)\<rparr>)"
| "map_vword f (Internode i) = Internode (i\<lparr>vword := f (vword i)\<rparr>)"

definition node_version :: "heap \<Rightarrow> u64 \<Rightarrow> u32 option" where
  "node_version h a = map_option node_vword (nodes h a)"

definition upd_version :: "(u32 \<Rightarrow> u32) \<Rightarrow> u64 \<Rightarrow> heap \<Rightarrow> heap option" where
  "upd_version f a h = do { n \<leftarrow> nodes h a; Some (put_node a (map_vword f n) h) }"

definition node_stable :: "heap \<Rightarrow> u64 \<Rightarrow> u32 option" where
  "node_stable h a = do { v \<leftarrow> node_version h a; if dirty v then None else Some v }"

definition node_lock :: "u64 \<Rightarrow> heap \<Rightarrow> heap option" where
  "node_lock a h = do { v \<leftarrow> node_version h a; if locked v then None else upd_version (\<lambda>v. v OR lock_bit) a h }"

definition node_unlock :: "u64 \<Rightarrow> heap \<Rightarrow> heap option" where
  "node_unlock a h = upd_version unlock a h"

definition record_node_at :: "u64 \<Rightarrow> heap \<Rightarrow> heap option" where
  "record_node_at a h =
     do { n \<leftarrow> nodes h a;
          let (n', copy) = node_record (globalepoch h) n;
          let h1 = put_node a n' h;
          Some (h1\<lparr>elog := elog h1 @ (case copy of None \<Rightarrow> [] | Some c \<Rightarrow> [(a, c)])\<rparr>) }"

definition lock_persistent :: "u64 \<Rightarrow> heap \<Rightarrow> heap option" where
  "lock_persistent a h = do { h1 \<leftarrow> node_lock a h; record_node_at a h1 }"

definition log_persistent :: "u64 \<Rightarrow> heap \<Rightarrow> heap option" where
  "log_persistent a h = record_node_at a h"

section \<open>Parents\<close>

fun node_parent :: "node \<Rightarrow> u64" where
  "node_parent (Leaf l) = parent_ptr l"
| "node_parent (Internode i) = iparent i"

fun set_node_parent :: "u64 \<Rightarrow> node \<Rightarrow> node" where
  "set_node_parent p (Leaf l) = Leaf (l\<lparr>parent_ptr := p\<rparr>)"
| "set_node_parent p (Internode i) = Internode (i\<lparr>iparent := p\<rparr>)"

definition set_parent :: "u64 \<Rightarrow> u64 \<Rightarrow> heap \<Rightarrow> heap option" where
  "set_parent a p h = do { n \<leftarrow> nodes h a; Some (put_node a (set_node_parent p n) h) }"

definition make_layer_root :: "u64 \<Rightarrow> heap \<Rightarrow> heap option" where
  "make_layer_root a h = do { h1 \<leftarrow> set_parent a 0 h; upd_version mark_root a h1 }"

definition maybe_parent :: "heap \<Rightarrow> u64 \<Rightarrow> u64 option" where
  "maybe_parent h a = do { n \<leftarrow> nodes h a; let x = node_parent n; Some (if x \<noteq> 0 then x else a) }"

definition locked_parent :: "u64 \<Rightarrow> heap \<Rightarrow> (u64 \<times> heap) option" where
  "locked_parent a h =
     do { n \<leftarrow> nodes h a;
          let p = node_parent n;
          if p = 0 then Some (p, h) else do { h1 \<leftarrow> lock_persistent p h; Some (p, h1) } }"

section \<open>Allocation\<close>

definition blank_leaf :: leaf where
  "blank_leaf = \<lparr>vword = 0, not_logged = False, cl0_idx = 0, loggedepoch = 0, extrasize64 = 0, modstate = 0,
     keylenx = replicate leaf_width 0, permutation = 0, perm_cl0 = 0, ksuf = 0, ikey0 = replicate leaf_width 0,
     next_ptr = 0, prev_ptr = 0, parent_ptr = 0, lv_cl1 = 0, lv = replicate leaf_width 0, lv_cl2 = 0,
     iksuf = \<lparr>bsize = 0, bcapacity = 0, binfo = [], bmem = []\<rparr>\<rparr>"

definition blank_internode :: internode where
  "blank_internode = \<lparr>vword = 0, not_logged = False, cl0_idx = 0, loggedepoch = 0, nkeys = 0, height = 0,
     ikeys = replicate internode_width 0, child = replicate (internode_width + 1) 0, iparent = 0\<rparr>"

definition heap_allocate :: "nat \<Rightarrow> heap \<Rightarrow> (u64 \<times> heap) option" where
  "heap_allocate sz h =
     do { (p, ti, v) \<leftarrow> pool_allocate (superpage h) sz (tinfo h) (region h);
          Some (p, h\<lparr>tinfo := ti, region := v\<rparr>) }"

definition leaf_make :: "nat \<Rightarrow> heap \<Rightarrow> (u64 \<times> heap) option" where
  "leaf_make ksufsize h =
     do { let sz = leaf_alloc_request ksufsize;
          (p, h1) \<leftarrow> heap_allocate sz h;
          l \<leftarrow> leaf_new (globalepoch h1) sz blank_leaf;
          Some (p, put_node p (Leaf l) h1) }"

definition leaf_make_root :: "nat \<Rightarrow> heap \<Rightarrow> (u64 \<times> heap) option" where
  "leaf_make_root ksufsize h =
     do { (p, h1) \<leftarrow> leaf_make ksufsize h;
          h2 \<leftarrow> upd_leaf (\<lambda>l. l\<lparr>next_ptr := 0, prev_ptr := 0\<rparr>) p h1;
          h3 \<leftarrow> make_layer_root p h2;
          Some (p, h3) }"

definition internode_make :: "u32 \<Rightarrow> heap \<Rightarrow> (u64 \<times> heap) option" where
  "internode_make ht h =
     do { (p, h1) \<leftarrow> heap_allocate sizeof_internode h;
          Some (p, put_node p (Internode (internode_new (globalepoch h1) ht blank_internode)) h1) }"

definition deallocate_rcu :: "u64 \<Rightarrow> nat \<Rightarrow> u64 \<Rightarrow> heap \<Rightarrow> heap option" where
  "deallocate_rcu p sz tag h =
     do { ti \<leftarrow> pool_deallocate_rcu (globalepoch h) p sz tag (tinfo h); Some (h\<lparr>tinfo := ti\<rparr>) }"

definition memtag_masstree_leaf :: u64 where "memtag_masstree_leaf = 0x1000"
definition memtag_masstree_internode :: u64 where "memtag_masstree_internode = 0x1100"
definition memtag_masstree_ksuffixes :: u64 where "memtag_masstree_ksuffixes = 0x1200"

definition leaf_deallocate_rcu :: "u64 \<Rightarrow> heap \<Rightarrow> heap option" where
  "leaf_deallocate_rcu a h =
     do { l \<leftarrow> leaf_at h a;
          h1 \<leftarrow> (if ksuf l \<noteq> 0 then
                   do { b \<leftarrow> bags h (ksuf l); deallocate_rcu (ksuf l) (capacity b) memtag_masstree_ksuffixes h }
                 else Some h);
          deallocate_rcu a (leaf_allocated_size l) memtag_masstree_leaf h1 }"

definition internode_deallocate_rcu :: "u64 \<Rightarrow> heap \<Rightarrow> heap option" where
  "internode_deallocate_rcu a h = deallocate_rcu a sizeof_internode memtag_masstree_internode h"

section \<open>Internodes\<close>

definition internode_size :: "internode \<Rightarrow> nat" where
  "internode_size i = unat (nkeys i)"

definition internode_compare_key :: "internode \<Rightarrow> u64 \<Rightarrow> nat \<Rightarrow> int" where
  "internode_compare_key i a bp = compare_u64 a (ikeys i ! bp)"

definition internode_upper :: "internode \<Rightarrow> u64 \<Rightarrow> nat" where
  "internode_upper i a = key_upper_bound_by (\<lambda>p. p) (internode_size i) (internode_compare_key i a)"

fun find_child_loop :: "u64 list \<Rightarrow> u64 \<Rightarrow> nat \<Rightarrow> nat \<Rightarrow> nat option" where
  "find_child_loop cs c i 0 = None"
| "find_child_loop cs c i (Suc n) = (if cs ! i = c then Some i else find_child_loop cs c (Suc i) n)"

definition find_child_idx :: "internode \<Rightarrow> u64 \<Rightarrow> nat option" where
  "find_child_idx i c = find_child_loop (child i) c 0 (internode_size i + 1)"

definition internode_assign :: "u64 \<Rightarrow> nat \<Rightarrow> u64 \<Rightarrow> u64 \<Rightarrow> heap \<Rightarrow> heap option" where
  "internode_assign a p ikey c h =
     do { h1 \<leftarrow> set_parent c a h;
          upd_inode (\<lambda>i. i\<lparr>child := (child i)[p + 1 := c], ikeys := (ikeys i)[p := ikey]\<rparr>) a h1 }"

text \<open>\<open>memcpy\<close> and \<open>memmove\<close> of \<open>n\<close> elements between two arrays.\<close>

definition list_copy :: "'a list \<Rightarrow> nat \<Rightarrow> 'a list \<Rightarrow> nat \<Rightarrow> nat \<Rightarrow> 'a list" where
  "list_copy dst dp src sp n = take dp dst @ take n (drop sp src) @ drop (dp + n) dst"

definition shift_from :: "nat \<Rightarrow> internode \<Rightarrow> nat \<Rightarrow> nat \<Rightarrow> internode \<Rightarrow> internode" where
  "shift_from p x xp n i =
     (if n \<noteq> 0 then i\<lparr>ikeys := list_copy (ikeys i) p (ikeys x) xp n,
                       child := list_copy (child i) (p + 1) (child x) (xp + 1) n\<rparr>
      else i)"

fun copy_up_loop :: "nat \<Rightarrow> nat \<Rightarrow> nat \<Rightarrow> 'a list \<Rightarrow> 'a list" where
  "copy_up_loop p xp 0 cs = cs"
| "copy_up_loop p xp (Suc n) cs = copy_up_loop p xp n (cs[p + Suc n := cs ! (xp + Suc n)])"

fun copy_down_loop :: "nat \<Rightarrow> nat \<Rightarrow> nat \<Rightarrow> 'a list \<Rightarrow> 'a list" where
  "copy_down_loop p xp 0 cs = cs"
| "copy_down_loop p xp (Suc n) cs = copy_down_loop (Suc p) (Suc xp) n (cs[p + 1 := cs ! (xp + 1)])"

definition shift_up :: "nat \<Rightarrow> nat \<Rightarrow> nat \<Rightarrow> internode \<Rightarrow> internode" where
  "shift_up p xp n i = i\<lparr>ikeys := list_copy (ikeys i) p (ikeys i) xp n, child := copy_up_loop p xp n (child i)\<rparr>"

definition shift_down :: "nat \<Rightarrow> nat \<Rightarrow> nat \<Rightarrow> internode \<Rightarrow> internode" where
  "shift_down p xp n i = i\<lparr>ikeys := list_copy (ikeys i) p (ikeys i) xp n, child := copy_down_loop p xp n (child i)\<rparr>"

section \<open>Leaves\<close>

definition leaf_perm :: "leaf \<Rightarrow> nat \<Rightarrow> nat" where
  "leaf_perm l = kp_at (permutation l)"

definition leaf_compare_key :: "leaf \<Rightarrow> key \<Rightarrow> nat \<Rightarrow> int" where
  "leaf_compare_key l ka bp = compare_ikey ka (ikey0 l ! bp) (uint (keylenx l ! bp))"

definition leaf_lower :: "leaf \<Rightarrow> key \<Rightarrow> key_indexed_position" where
  "leaf_lower l ka = key_lower_bound_by (leaf_perm l) (leaf_size l) (leaf_compare_key l ka)"

definition ikey_bound :: "leaf \<Rightarrow> u64" where
  "ikey_bound l = ikey0 l ! 0"

definition is_layer :: "leaf \<Rightarrow> nat \<Rightarrow> bool" where
  "is_layer l p \<longleftrightarrow> keylenx_is_layer (keylenx l ! p)"

definition has_ksuf :: "leaf \<Rightarrow> nat \<Rightarrow> bool" where
  "has_ksuf l p \<longleftrightarrow> keylenx_has_ksuf (keylenx l ! p)"

definition ksuf_str :: "heap \<Rightarrow> leaf \<Rightarrow> nat \<Rightarrow> bytes option" where
  "ksuf_str h l p = (if ksuf l \<noteq> 0 then map_option (\<lambda>b. bag_get b p) (bags h (ksuf l)) else Some (bag_get (iksuf l) p))"

definition leaf_get_key :: "heap \<Rightarrow> leaf \<Rightarrow> nat \<Rightarrow> (u64 \<times> int \<times> bytes) option" where
  "leaf_get_key h l p =
     (if \<not> has_ksuf l p then
        let k = key_ikey_len (ikey0 l ! p) (uint (keylenx l ! p)) in Some (kikey k, klen k, [])
      else do { s \<leftarrow> ksuf_str h l p; Some (ikey0 l ! p, int ikey_size + int (length s), s) })"

definition ksuf_equals :: "heap \<Rightarrow> leaf \<Rightarrow> nat \<Rightarrow> key \<Rightarrow> bool option" where
  "ksuf_equals h l p ka =
     (if \<not> has_ksuf l p then Some True else do { s \<leftarrow> ksuf_str h l p; Some (s = key_suffix ka) })"

definition ksuf_matches :: "heap \<Rightarrow> leaf \<Rightarrow> nat \<Rightarrow> key \<Rightarrow> int option" where
  "ksuf_matches h l p ka =
     (let kl = keylenx l ! p
      in if kl < ksuf_keylenx then Some 1
         else if kl = layer_keylenx then Some (- int ikey_size)
         else do { s \<leftarrow> ksuf_str h l p; Some (of_bool (s = key_suffix ka)) })"

definition ksuf_compare :: "heap \<Rightarrow> leaf \<Rightarrow> nat \<Rightarrow> key \<Rightarrow> int option" where
  "ksuf_compare h l p ka =
     (if \<not> has_ksuf l p then Some 0 else do { s \<leftarrow> ksuf_str h l p; Some (str_compare s (key_suffix ka)) })"

definition ksuf_used_capacity :: "heap \<Rightarrow> leaf \<Rightarrow> nat option" where
  "ksuf_used_capacity h l =
     (if ksuf l \<noteq> 0 then map_option used_capacity (bags h (ksuf l))
      else if extrasize64 l > 0 then Some (used_capacity (iksuf l)) else Some 0)"

definition ksuf_capacity :: "heap \<Rightarrow> leaf \<Rightarrow> nat option" where
  "ksuf_capacity h l =
     (if ksuf l \<noteq> 0 then map_option capacity (bags h (ksuf l))
      else if extrasize64 l > 0 then Some (capacity (iksuf l)) else Some 0)"

definition ksuf_storage :: "heap \<Rightarrow> leaf \<Rightarrow> nat \<Rightarrow> bytes option" where
  "ksuf_storage h l p =
     (if ksuf l \<noteq> 0 then map_option (\<lambda>b. bag_get b p) (bags h (ksuf l))
      else if extrasize64 l > 0 then Some (bag_get (iksuf l) p) else Some [])"

definition deleted_layer :: "leaf \<Rightarrow> bool" where
  "deleted_layer l \<longleftrightarrow> modstate l = modstate_deleted_layer"

definition safe_next :: "leaf \<Rightarrow> u64" where
  "safe_next l = next_ptr l AND NOT 1"

definition mark_deleted_layer :: "leaf \<Rightarrow> leaf" where
  "mark_deleted_layer l = l\<lparr>modstate := modstate_deleted_layer\<rparr>"

subsection \<open>Key suffixes\<close>

fun bit_length :: "nat \<Rightarrow> nat" where
  "bit_length n = (if n = 0 then 0 else Suc (bit_length (n div 2)))"

declare bit_length.simps [simp del]

definition iceil_log2 :: "nat \<Rightarrow> nat" where
  "iceil_log2 x = 2 ^ (bit_length x - (if x AND (x - 1) = 0 then 1 else 0))"

text \<open>The slots whose suffixes move to a new bag: the active ones, or those already initialized.\<close>

definition ksuf_slots :: "bool \<Rightarrow> nat \<Rightarrow> leaf \<Rightarrow> nat list" where
  "ksuf_slots initializing p l =
     filter (\<lambda>mp. mp \<noteq> p \<and> has_ksuf l mp)
       (if initializing then [0..<p] else map (leaf_perm l) [0..<leaf_size l])"

fun ksuf_total :: "heap \<Rightarrow> leaf \<Rightarrow> nat list \<Rightarrow> nat option" where
  "ksuf_total h l [] = Some 0"
| "ksuf_total h l (mp # mps) = do { s \<leftarrow> ksuf_str h l mp; n \<leftarrow> ksuf_total h l mps; Some (length s + n) }"

fun ksuf_copy :: "heap \<Rightarrow> leaf \<Rightarrow> nat list \<Rightarrow> bag \<Rightarrow> bag option" where
  "ksuf_copy h l [] b = Some b"
| "ksuf_copy h l (mp # mps) b =
     do { s \<leftarrow> ksuf_str h l mp;
          let (ok, b1) = bag_assign 16 mp s b;
          if ok then ksuf_copy h l mps b1 else None }"

definition assign_ksuf_new :: "u64 \<Rightarrow> nat \<Rightarrow> bytes \<Rightarrow> bool \<Rightarrow> heap \<Rightarrow> heap option" where
  "assign_ksuf_new a p s initializing h =
     do { l \<leftarrow> leaf_at h a;
          let mps = ksuf_slots initializing p l;
          csz \<leftarrow> ksuf_total h l mps;
          let sz0 = iceil_log2 (safe_size 16 leaf_width (csz + length s));
          sz \<leftarrow> (if ksuf l \<noteq> 0 then do { ob \<leftarrow> bags h (ksuf l); Some (max sz0 (capacity ob)) } else Some sz0);
          (ptr, h1) \<leftarrow> heap_allocate sz h;
          b0 \<leftarrow> bag_make 16 leaf_width (replicate sz 0);
          b1 \<leftarrow> ksuf_copy h l mps b0;
          let (ok, b2) = bag_assign 16 p s b1;
          if ok then
            do { let h2 = h1\<lparr>bags := (bags h1)(ptr \<mapsto> b2)\<rparr>;
                 h3 \<leftarrow> upd_leaf (\<lambda>l. l\<lparr>ksuf := ptr, extrasize64 := (if extrasize64 l \<ge> 0 then - extrasize64 l - 1 else extrasize64 l)\<rparr>) a h2;
                 if ksuf l \<noteq> 0 then
                   do { ob \<leftarrow> bags h (ksuf l); deallocate_rcu (ksuf l) (capacity ob) memtag_masstree_ksuffixes h3 }
                 else Some h3 }
          else None }"

definition assign_ksuf :: "u64 \<Rightarrow> nat \<Rightarrow> bytes \<Rightarrow> bool \<Rightarrow> heap \<Rightarrow> heap option" where
  "assign_ksuf a p s initializing h =
     do { l \<leftarrow> leaf_at h a;
          ob \<leftarrow> (if ksuf l \<noteq> 0 then do { b \<leftarrow> bags h (ksuf l); Some (Some b) } else Some None);
          case ob of
            Some b \<Rightarrow>
              (let (ok, b1) = bag_assign 16 p s b
               in if ok then Some (h\<lparr>bags := (bags h)(ksuf l \<mapsto> b1)\<rparr>)
                  else if extrasize64 l > 0 then
                    (let (ok', b') = bag_assign 8 p s (iksuf l)
                     in if ok' then upd_leaf (\<lambda>l. l\<lparr>iksuf := b'\<rparr>) a h else assign_ksuf_new a p s initializing h)
                  else assign_ksuf_new a p s initializing h)
          | None \<Rightarrow>
              if extrasize64 l > 0 then
                (let (ok', b') = bag_assign 8 p s (iksuf l)
                 in if ok' then upd_leaf (\<lambda>l. l\<lparr>iksuf := b'\<rparr>) a h else assign_ksuf_new a p s initializing h)
              else assign_ksuf_new a p s initializing h }"

definition leaf_assign_with :: "bool \<Rightarrow> u64 \<Rightarrow> nat \<Rightarrow> key \<Rightarrow> heap \<Rightarrow> heap option" where
  "leaf_assign_with initializing a p ka h =
     do { h1 \<leftarrow> upd_leaf (\<lambda>l. l\<lparr>lv := (lv l)[p := 0], ikey0 := (ikey0 l)[p := kikey ka],
             keylenx := (keylenx l)[p := if \<not> has_suffix ka then word_of_int (klen ka) else ksuf_keylenx]\<rparr>) a h;
          if \<not> has_suffix ka then Some h1 else assign_ksuf a p (key_suffix ka) initializing h1 }"

definition leaf_assign :: "u64 \<Rightarrow> nat \<Rightarrow> key \<Rightarrow> heap \<Rightarrow> heap option" where
  "leaf_assign = leaf_assign_with False"

definition leaf_assign_initialize :: "u64 \<Rightarrow> nat \<Rightarrow> key \<Rightarrow> heap \<Rightarrow> heap option" where
  "leaf_assign_initialize = leaf_assign_with True"

definition leaf_assign_from :: "u64 \<Rightarrow> nat \<Rightarrow> u64 \<Rightarrow> nat \<Rightarrow> heap \<Rightarrow> heap option" where
  "leaf_assign_from a p x xp h =
     do { xl \<leftarrow> leaf_at h x;
          h1 \<leftarrow> upd_leaf (\<lambda>l. l\<lparr>lv := (lv l)[p := lv xl ! xp], ikey0 := (ikey0 l)[p := ikey0 xl ! xp],
             keylenx := (keylenx l)[p := keylenx xl ! xp]\<rparr>) a h;
          if has_ksuf xl xp then do { s \<leftarrow> ksuf_str h1 xl xp; assign_ksuf a p s True h1 } else Some h1 }"

definition assign_initialize_for_layer :: "nat \<Rightarrow> key \<Rightarrow> leaf \<Rightarrow> leaf option" where
  "assign_initialize_for_layer p ka l =
     (if has_suffix ka then Some (l\<lparr>ikey0 := (ikey0 l)[p := kikey ka], keylenx := (keylenx l)[p := layer_keylenx]\<rparr>)
      else None)"

section \<open>Neighbours through the parents\<close>

fun get_max_leaf :: "nat \<Rightarrow> heap \<Rightarrow> u64 \<Rightarrow> u64 option" where
  "get_max_leaf 0 h a = None"
| "get_max_leaf (Suc fuel) h a =
     (case nodes h a of
        None \<Rightarrow> None
      | Some (Leaf l) \<Rightarrow> Some a
      | Some (Internode i) \<Rightarrow>
          (let c = child i ! internode_size i in if c \<noteq> 0 then get_max_leaf fuel h c else None))"

fun get_min_leaf :: "nat \<Rightarrow> heap \<Rightarrow> u64 \<Rightarrow> u64 option" where
  "get_min_leaf 0 h a = None"
| "get_min_leaf (Suc fuel) h a =
     (case nodes h a of
        None \<Rightarrow> None
      | Some (Leaf l) \<Rightarrow> Some a
      | Some (Internode i) \<Rightarrow>
          (if child i ! 0 \<noteq> 0 then get_min_leaf fuel h (child i ! 0)
           else if child i ! 1 \<noteq> 0 then get_min_leaf fuel h (child i ! 1) else None))"

fun get_prev_loop :: "nat \<Rightarrow> heap \<Rightarrow> u64 \<Rightarrow> u64 option" where
  "get_prev_loop 0 h cn = None"
| "get_prev_loop (Suc fuel) h cn =
     do { n \<leftarrow> nodes h cn;
          let pn = node_parent n;
          if pn = 0 then Some 0
          else do { pin \<leftarrow> inode_at h pn;
                    idx \<leftarrow> find_child_idx pin cn;
                    if idx > 0 \<and> child pin ! (idx - 1) \<noteq> 0 then get_max_leaf fuel h (child pin ! (idx - 1))
                    else get_prev_loop fuel h pn } }"

definition get_prev_safe :: "nat \<Rightarrow> heap \<Rightarrow> u64 \<Rightarrow> u64 option" where
  "get_prev_safe fuel h a = get_prev_loop fuel h a"

fun get_next_loop :: "nat \<Rightarrow> heap \<Rightarrow> u64 \<Rightarrow> u64 option" where
  "get_next_loop 0 h cn = None"
| "get_next_loop (Suc fuel) h cn =
     do { n \<leftarrow> nodes h cn;
          let pn = node_parent n;
          if pn = 0 then Some 0
          else do { pin \<leftarrow> inode_at h pn;
                    idx \<leftarrow> find_child_idx pin cn;
                    if idx < internode_size pin then
                      (if child pin ! (idx + 1) \<noteq> 0 then get_min_leaf fuel h (child pin ! (idx + 1)) else None)
                    else get_next_loop fuel h pn } }"

definition get_next_safe :: "nat \<Rightarrow> heap \<Rightarrow> u64 \<Rightarrow> u64 option" where
  "get_next_safe fuel h a = get_next_loop fuel h a"

section \<open>The leaf list\<close>

definition link_split :: "u64 \<Rightarrow> u64 \<Rightarrow> heap \<Rightarrow> heap option" where
  "link_split n nr h =
     do { h1 \<leftarrow> upd_leaf (\<lambda>l. l\<lparr>prev_ptr := n\<rparr>) nr h;
          l \<leftarrow> leaf_at h1 n;
          let next = next_ptr l;
          h2 \<leftarrow> (if next = 0 then Some h1
                 else if next AND 1 \<noteq> 0 then None
                 else upd_leaf (\<lambda>l. l\<lparr>next_ptr := next + 1\<rparr>) n h1);
          h3 \<leftarrow> upd_leaf (\<lambda>l. l\<lparr>next_ptr := next\<rparr>) nr h2;
          h4 \<leftarrow> (if next \<noteq> 0 then upd_leaf (\<lambda>l. l\<lparr>prev_ptr := nr\<rparr>) next h3 else Some h3);
          upd_leaf (\<lambda>l. l\<lparr>next_ptr := nr\<rparr>) n h4 }"

definition unlink_leaf :: "u64 \<Rightarrow> heap \<Rightarrow> heap option" where
  "unlink_leaf n h =
     do { l \<leftarrow> leaf_at h n;
          let next = next_ptr l;
          h1 \<leftarrow> (if next = 0 then Some h
                 else if next AND 1 \<noteq> 0 then None
                 else upd_leaf (\<lambda>l. l\<lparr>next_ptr := next + 1\<rparr>) n h);
          let prev = prev_ptr l;
          pl \<leftarrow> leaf_at h1 prev;
          h2 \<leftarrow> (if next_ptr pl = n then upd_leaf (\<lambda>l. l\<lparr>next_ptr := n + 1\<rparr>) prev h1 else None);
          h3 \<leftarrow> (if next \<noteq> 0 then upd_leaf (\<lambda>l. l\<lparr>prev_ptr := prev\<rparr>) next h2 else Some h2);
          upd_leaf (\<lambda>l. l\<lparr>next_ptr := next\<rparr>) prev h3 }"

end
