(* ===== verification/Tree_Find.thy ===== *)
theory Tree_Find
  imports Tree_Heap
begin

text \<open>
  Descending to a leaf and searching it (\<open>reach_leaf\<close> and \<open>advance_to_key\<close> of
  \<open>masstree_struct.hh\<close>, \<open>masstree_get.hh\<close>, the cursors of \<open>masstree_tcursor.hh\<close>).  Every
  jump back (\<open>goto retry\<close>, \<open>goto forward\<close>) and every step down uses one unit of fuel.
\<close>

section \<open>Reaching a leaf\<close>

fun reach_root :: "nat \<Rightarrow> heap \<Rightarrow> u64 \<Rightarrow> (u64 \<times> u32) option" where
  "reach_root 0 h a = None"
| "reach_root (Suc fuel) h a =
     do { v \<leftarrow> node_stable h a;
          if is_root v then Some (a, v) else do { p \<leftarrow> maybe_parent h a; reach_root fuel h p } }"

definition internode_last_key_compare :: "heap \<Rightarrow> u64 \<Rightarrow> key \<Rightarrow> u32 \<Rightarrow> int option" where
  "internode_last_key_compare h a ka v =
     do { i \<leftarrow> inode_at h a;
          let cmp = internode_compare_key i (kikey ka) (internode_size i - 1);
          x \<leftarrow> node_version h a;
          if \<not> has_changed x v then Some cmp else do { v' \<leftarrow> node_stable h a; Some cmp } }"

definition leaf_last_key_compare :: "heap \<Rightarrow> u64 \<Rightarrow> key \<Rightarrow> u32 \<Rightarrow> int option" where
  "leaf_last_key_compare h a ka v =
     do { l \<leftarrow> leaf_at h a;
          let p = kp_at (permutation l) (kp_size (permutation l) - 1);
          let cmp = leaf_compare_key l ka p;
          if \<not> has_changed (vword l) v then Some cmp else do { v' \<leftarrow> node_stable h a; Some cmp } }"

fun reach_loop :: "nat \<Rightarrow> heap \<Rightarrow> key \<Rightarrow> u64 \<Rightarrow> u64 \<Rightarrow> u32 \<Rightarrow> (u64 \<times> u32) option" where
  "reach_loop 0 h ka this a v = None"
| "reach_loop (Suc fuel) h ka this a v =
     (if isleaf v then Some (a, v)
      else do { i \<leftarrow> inode_at h a;
                let c = child i ! internode_upper i (kikey ka);
                if c = 0 then do { (a', v') \<leftarrow> reach_root fuel h this; reach_loop fuel h ka this a' v' }
                else do { vc \<leftarrow> node_stable h c;
                          x \<leftarrow> node_version h a;
                          if \<not> has_changed x v then reach_loop fuel h ka this c vc
                          else do { v' \<leftarrow> node_stable h a;
                                    cmp \<leftarrow> internode_last_key_compare h a ka v';
                                    if has_split v v' \<and> cmp > 0
                                    then do { (a', v'') \<leftarrow> reach_root fuel h this; reach_loop fuel h ka this a' v'' }
                                    else reach_loop fuel h ka this a v' } } })"

definition reach_leaf :: "nat \<Rightarrow> heap \<Rightarrow> key \<Rightarrow> u64 \<Rightarrow> (u64 \<times> u32) option" where
  "reach_leaf fuel h ka this = do { (a, v) \<leftarrow> reach_root fuel h this; reach_loop fuel h ka this a v }"

fun advance_loop :: "nat \<Rightarrow> heap \<Rightarrow> key \<Rightarrow> u64 \<Rightarrow> u32 \<Rightarrow> (u64 \<times> u32) option" where
  "advance_loop 0 h ka n v = None"
| "advance_loop (Suc fuel) h ka n v =
     do { l \<leftarrow> leaf_at h n;
          let next = safe_next l;
          if deleted v \<or> next = 0 then Some (n, v)
          else do { nl \<leftarrow> leaf_at h next;
                    if compare_u64 (kikey ka) (ikey_bound nl) \<ge> 0
                    then do { v' \<leftarrow> node_stable h next; advance_loop fuel h ka next v' }
                    else Some (n, v) } }"

definition advance_to_key :: "nat \<Rightarrow> heap \<Rightarrow> key \<Rightarrow> u64 \<Rightarrow> u32 \<Rightarrow> (u64 \<times> u32) option" where
  "advance_to_key fuel h ka n oldv =
     do { v \<leftarrow> node_stable h n;
          if has_split v oldv then
            do { cmp \<leftarrow> leaf_last_key_compare h n ka v;
                 if cmp > 0 then advance_loop fuel h ka n v else Some (n, v) }
          else Some (n, v) }"

section \<open>Reading\<close>

definition recover_leaf :: "u64 \<Rightarrow> heap \<Rightarrow> heap option" where
  "recover_leaf a h = upd_leaf (lazy_recovery (globalepoch h) (failedepoch h)) a h"

fun find_unlocked :: "nat \<Rightarrow> key \<Rightarrow> u64 \<Rightarrow> heap \<Rightarrow> (int \<times> u64 \<times> heap) option"
  and find_unlocked_forward :: "nat \<Rightarrow> key \<Rightarrow> u64 \<Rightarrow> u64 \<Rightarrow> u32 \<Rightarrow> heap \<Rightarrow> (int \<times> u64 \<times> heap) option" where
  "find_unlocked 0 ka root h = None"
| "find_unlocked (Suc fuel) ka root h =
     do { (n, v) \<leftarrow> reach_leaf fuel h ka root;
          h1 \<leftarrow> recover_leaf n h;
          find_unlocked_forward fuel ka root n v h1 }"
| "find_unlocked_forward 0 ka root n v h = None"
| "find_unlocked_forward (Suc fuel) ka root n v h =
     (if deleted v then find_unlocked fuel ka root h
      else do { l \<leftarrow> leaf_at h n;
                let kx = leaf_lower l ka;
                (lvp, m) \<leftarrow> (if snd kx \<ge> 0 then do { m \<leftarrow> ksuf_matches h l (nat (snd kx)) ka; Some (lv l ! nat (snd kx), m) }
                            else Some (0, 0));
                if has_changed (vword l) v
                then do { (n', v') \<leftarrow> advance_to_key fuel h ka n v; find_unlocked_forward fuel ka root n' v' h }
                else if m < 0 then find_unlocked fuel (shift_by (nat (- m)) ka) lvp h
                else Some (m, lvp, h) })"

definition str_key :: "bytes \<Rightarrow> key" where
  "str_key s = key_string s 0 (int (length s))"

definition table_get :: "nat \<Rightarrow> u64 \<Rightarrow> bytes \<Rightarrow> heap \<Rightarrow> (u64 option \<times> heap) option" where
  "table_get fuel root s h =
     do { (m, lvp, h1) \<leftarrow> find_unlocked fuel (str_key s) root h; Some (if m \<noteq> 0 then Some lvp else None, h1) }"

definition fix_root :: "u64 \<Rightarrow> heap \<Rightarrow> u64 option" where
  "fix_root root h = do { v \<leftarrow> node_version h root; if is_root v then Some root else maybe_parent h root }"

section \<open>Locking cursor\<close>

record tcursor =
  tc_n :: u64
  tc_ka :: key
  tc_i :: nat
  tc_p :: int
  tc_root :: u64
  tc_state :: int
  original_n :: u64
  original_v :: u32
  updated_v :: u32
  new_nodes :: "(u64 \<times> u32) list"

definition tcursor_make :: "u64 \<Rightarrow> bytes \<Rightarrow> tcursor" where
  "tcursor_make root s = \<lparr>tc_n = 0, tc_ka = str_key s, tc_i = 0, tc_p = 0, tc_root = root, tc_state = 0,
     original_n = 0, original_v = 0, updated_v = 0, new_nodes = []\<rparr>"

definition has_value :: "tcursor \<Rightarrow> bool" where
  "has_value c \<longleftrightarrow> tc_p c \<ge> 0"

definition is_first_layer :: "tcursor \<Rightarrow> bool" where
  "is_first_layer c \<longleftrightarrow> \<not> is_shifted (tc_ka c)"

fun find_locked :: "nat \<Rightarrow> u64 \<Rightarrow> tcursor \<Rightarrow> heap \<Rightarrow> (tcursor \<times> heap) option"
  and find_locked_forward :: "nat \<Rightarrow> u64 \<Rightarrow> u32 \<Rightarrow> tcursor \<Rightarrow> heap \<Rightarrow> (tcursor \<times> heap) option" where
  "find_locked 0 root c h = None"
| "find_locked (Suc fuel) root c h =
     do { (n, v) \<leftarrow> reach_leaf fuel h (tc_ka c) root;
          h1 \<leftarrow> recover_leaf n h;
          find_locked_forward fuel root v (c\<lparr>tc_n := n\<rparr>) h1 }"
| "find_locked_forward 0 root v c h = None"
| "find_locked_forward (Suc fuel) root v c h =
     (if deleted v then find_locked fuel root c h
      else do { l \<leftarrow> leaf_at h (tc_n c);
                let kx = leaf_lower l (tc_ka c);
                let p = nat (snd kx);
                state \<leftarrow> (if snd kx \<ge> 0 then ksuf_matches h l p (tc_ka c) else Some 0);
                let c1 = c\<lparr>tc_i := fst kx, tc_p := snd kx, tc_state := state\<rparr>;
                lroot \<leftarrow> (if snd kx \<ge> 0 \<and> state < 0 \<and> \<not> has_changed (vword l) v
                          then do { lvv \<leftarrow> node_version h (lv l ! p); Some (is_root lvv) } else Some False);
                if lroot then find_locked fuel (lv l ! p) (c1\<lparr>tc_ka := shift_by (nat (- state)) (tc_ka c)\<rparr>) h
                else do { h1 \<leftarrow> node_lock (tc_n c) h;
                          l1 \<leftarrow> leaf_at h1 (tc_n c);
                          if has_changed (vword l1) v \<or> permutation l1 \<noteq> permutation l
                          then do { h2 \<leftarrow> node_unlock (tc_n c) h1;
                                    (n', v') \<leftarrow> advance_to_key fuel h2 (tc_ka c) (tc_n c) v;
                                    find_locked_forward fuel root v' (c1\<lparr>tc_n := n'\<rparr>) h2 }
                          else if state < 0
                          then do { newroot \<leftarrow> maybe_parent h1 (lv l1 ! p);
                                    h2 \<leftarrow> upd_leaf (\<lambda>l. l\<lparr>lv := (lv l)[p := newroot]\<rparr>) (tc_n c) h1;
                                    h3 \<leftarrow> node_unlock (tc_n c) h2;
                                    find_locked fuel newroot (c1\<lparr>tc_ka := shift_by (nat (- state)) (tc_ka c)\<rparr>) h3 }
                          else if deleted_layer l1
                          then find_locked fuel (tc_root c) (c1\<lparr>tc_ka := unshift_all (tc_ka c)\<rparr>) h1
                          else Some (c1, h1) } })"

definition previous_full_version_value :: "tcursor \<Rightarrow> heap \<Rightarrow> u32 option" where
  "previous_full_version_value c h =
     do { l \<leftarrow> leaf_at h (tc_n c); Some (push_bit 4 (unlocked_version_value (vword l)) + of_nat (leaf_size l)) }"

definition next_full_version_value :: "int \<Rightarrow> tcursor \<Rightarrow> heap \<Rightarrow> u32 option" where
  "next_full_version_value state c h =
     do { l \<leftarrow> leaf_at h (tc_n c);
          let result = push_bit 4 (unlock (vword l)) + of_nat (leaf_size l);
          Some (if state < 0 \<and> tc_state c AND 1 \<noteq> 0 then result - 1
                else if state > 0 \<and> tc_state c = 2 then result + 1 else result) }"

end
