(* ===== verification/Tree_Insert.thy ===== *)
theory Tree_Insert
  imports Tree_Find
begin

text \<open>
  Insertion (\<open>masstree_insert.hh\<close>, \<open>masstree_split.hh\<close>): finding the slot, creating a new
  layer for two keys with the same slice, splitting a full leaf and carrying the split up
  through the internodes, and publishing the new permutation.
\<close>

section \<open>Splitting a leaf\<close>

definition ikey_after_insert :: "leaf \<Rightarrow> u64 \<Rightarrow> nat \<Rightarrow> key \<Rightarrow> nat \<Rightarrow> u64" where
  "ikey_after_insert l perm i ka ka_i =
     (if i < ka_i then ikey0 l ! kp_at perm i
      else if i = ka_i then kikey ka
      else ikey0 l ! kp_at perm (i - 1))"

text \<open>The search for a split point between different slices; without one the loop would not end.\<close>

function mid_search :: "(nat \<Rightarrow> u64) \<Rightarrow> u64 \<Rightarrow> nat \<Rightarrow> int \<Rightarrow> nat \<Rightarrow> nat option" where
  "mid_search ik mid_ikey width midl midr =
     (if midr \<le> width \<and> mid_ikey \<noteq> ik midr then Some midr
      else if midl \<ge> 0 \<and> mid_ikey \<noteq> ik (nat midl) then Some (nat midl + 1)
      else if midr > width \<and> midl < 0 then None
      else mid_search ik mid_ikey width (midl - 1) (midr + 1))"
  by auto
termination by (relation "measure (\<lambda>(ik, mid_ikey, width, midl, midr). (width + 1 - midr) + nat (midl + 1))") auto

declare mid_search.simps [simp del]

definition leaf_split_mid :: "leaf \<Rightarrow> nat \<Rightarrow> key \<Rightarrow> nat option" where
  "leaf_split_mid l p ka =
     (let width = leaf_size l;
          mid = (if p = 0 \<and> prev_ptr l = 0 then 1
                 else if p = width \<and> next_ptr l = 0 then width
                 else leaf_width div 2 + 1);
          ik = (\<lambda>i. ikey_after_insert l (permutation l) i ka p)
      in if ik mid = ik (mid - 1) then mid_search ik (ik mid) width (int mid - 2) (mid + 1) else Some mid)"

fun split_copy_loop :: "u64 \<Rightarrow> u64 \<Rightarrow> nat \<Rightarrow> key \<Rightarrow> nat \<Rightarrow> nat \<Rightarrow> nat \<Rightarrow> u64 \<Rightarrow> heap \<Rightarrow> heap option" where
  "split_copy_loop n nr p ka mid x 0 pv h = Some h"
| "split_copy_loop n nr p ka mid x (Suc k) pv h =
     (if x = p then do { h1 \<leftarrow> leaf_assign_initialize nr (x - mid) ka h; split_copy_loop n nr p ka mid (x + 1) k pv h1 }
      else do { h1 \<leftarrow> leaf_assign_from nr (x - mid) n (unat (pv AND 15)) h;
                split_copy_loop n nr p ka mid (x + 1) k (drop_bit 4 pv) h1 })"

definition leaf_split_into :: "u64 \<Rightarrow> u64 \<Rightarrow> nat \<Rightarrow> key \<Rightarrow> heap \<Rightarrow> (int \<times> u64 \<times> heap) option" where
  "leaf_split_into n nr p ka h =
     do { l \<leftarrow> leaf_at h n;
          let width = leaf_size l;
          mid \<leftarrow> leaf_split_mid l p ka;
          let pv = value_from (permutation l) (mid - of_bool (p < mid));
          h1 \<leftarrow> split_copy_loop n nr p ka mid mid (width + 1 - mid) pv h;
          let permr = make_sorted leaf_width (width + 1 - mid);
          let permr' = (if p \<ge> mid then remove_to_back leaf_width (p - mid) permr else permr);
          h2 \<leftarrow> upd_leaf (\<lambda>l. l\<lparr>permutation := permr'\<rparr>) nr h1;
          h3 \<leftarrow> link_split n nr h2;
          lr \<leftarrow> leaf_at h3 nr;
          Some (if p \<ge> mid then 1 + of_bool (mid = width) else 0, ikey0 lr ! 0, h3) }"

section \<open>Splitting an internode\<close>

fun adopt_loop :: "u64 \<Rightarrow> u64 list \<Rightarrow> heap \<Rightarrow> heap option" where
  "adopt_loop nr [] h = Some h"
| "adopt_loop nr (c # cs) h =
     do { v \<leftarrow> node_version h c;
          h1 \<leftarrow> (if locked v then Some h else do { h0 \<leftarrow> lock_persistent c h; node_unlock c h0 });
          h2 \<leftarrow> set_parent c nr h1;
          adopt_loop nr cs h2 }"

definition internode_split_mid :: "int \<Rightarrow> nat" where
  "internode_split_mid split_type = (if split_type = 2 then internode_width else (internode_width + 1) div 2)"

definition internode_split_into :: "u64 \<Rightarrow> u64 \<Rightarrow> nat \<Rightarrow> u64 \<Rightarrow> u64 \<Rightarrow> int \<Rightarrow> heap \<Rightarrow> (int \<times> u64 \<times> heap) option" where
  "internode_split_into a nr p ka value split_type h =
     do { i \<leftarrow> inode_at h a;
          let mid = internode_split_mid split_type;
          h1 \<leftarrow> upd_inode (\<lambda>r. r\<lparr>nkeys := of_nat (internode_width + 1 - (mid + 1))\<rparr>) nr h;
          (split_ikey, h2) \<leftarrow>
            (if p < mid then
               do { h2 \<leftarrow> upd_inode (\<lambda>r. shift_from 0 i mid (internode_width - mid) (r\<lparr>child := (child r)[0 := child i ! mid]\<rparr>)) nr h1;
                    Some (ikeys i ! (mid - 1), h2) }
             else if p = mid then
               do { h2 \<leftarrow> upd_inode (\<lambda>r. shift_from 0 i mid (internode_width - mid) (r\<lparr>child := (child r)[0 := value]\<rparr>)) nr h1;
                    Some (ka, h2) }
             else
               do { h2 \<leftarrow> upd_inode (\<lambda>r. shift_from 0 i (mid + 1) (p - (mid + 1)) (r\<lparr>child := (child r)[0 := child i ! (mid + 1)]\<rparr>)) nr h1;
                    h3 \<leftarrow> internode_assign nr (p - (mid + 1)) ka value h2;
                    h4 \<leftarrow> upd_inode (shift_from (p + 1 - (mid + 1)) i p (internode_width - p)) nr h3;
                    Some (ikeys i ! mid, h4) });
          r \<leftarrow> inode_at h2 nr;
          h3 \<leftarrow> adopt_loop nr (take (internode_size r + 1) (child r)) h2;
          h4 \<leftarrow> upd_version mark_split a h3;
          if p < mid then do { h5 \<leftarrow> upd_inode (\<lambda>i. i\<lparr>nkeys := of_nat (mid - 1)\<rparr>) a h4; Some (int p, split_ikey, h5) }
          else do { h5 \<leftarrow> upd_inode (\<lambda>i. i\<lparr>nkeys := of_nat mid\<rparr>) a h4; Some (-1, split_ikey, h5) } }"

section \<open>Carrying a split up\<close>

text \<open>One round of the loop of \<open>make_split\<close>: hanging \<open>child\<close> beside \<open>n\<close> under the parent.\<close>

definition split_parent :: "u64 \<Rightarrow> u64 \<Rightarrow> u64 \<Rightarrow> int \<Rightarrow> u32 \<Rightarrow> heap \<Rightarrow> (u64 \<times> u64 \<times> u64 \<times> heap) option" where
  "split_parent n chld xikey split_type ht h =
     do { (p, h1) \<leftarrow> locked_parent n h;
          (kp, tall, h2) \<leftarrow>
            (if p \<noteq> 0 then
               do { pi \<leftarrow> inode_at h1 p;
                    h2 \<leftarrow> upd_version mark_insert p h1;
                    Some (int (internode_upper pi xikey), height pi > ht + 1, h2) }
             else Some (-1, False, h1));
          if kp < 0 \<or> tall then
            do { (nn, h3) \<leftarrow> internode_make (ht + 1) h2;
                 h4 \<leftarrow> upd_inode (\<lambda>i. i\<lparr>child := (child i)[0 := n]\<rparr>) nn h3;
                 h5 \<leftarrow> internode_assign nn 0 xikey chld h4;
                 h6 \<leftarrow> upd_inode (\<lambda>i. i\<lparr>nkeys := 1\<rparr>) nn h5;
                 h7 \<leftarrow> (if kp < 0 then make_layer_root nn h6
                        else do { h7 \<leftarrow> set_parent nn p h6; upd_inode (\<lambda>i. i\<lparr>child := (child i)[nat kp := nn]\<rparr>) p h7 });
                 h8 \<leftarrow> set_parent n nn h7;
                 Some (p, 0, 0, h8) }
          else
            do { pi \<leftarrow> inode_at h2 p;
                 (kp', next_child, next_ikey, h3) \<leftarrow>
                   (if internode_size pi \<ge> internode_width then
                      do { (nc, h3) \<leftarrow> internode_make (ht + 1) h2;
                           pv \<leftarrow> node_version h3 p;
                           h4 \<leftarrow> upd_version (\<lambda>_. mark_nonroot pv) nc h3;
                           (kp', ik, h5) \<leftarrow> internode_split_into p nc (nat kp) xikey chld split_type h4;
                           Some (kp', nc, ik, h5) }
                    else Some (kp, 0, 0, h2));
                 h4 \<leftarrow> (if kp' \<ge> 0 then
                          do { pi' \<leftarrow> inode_at h3 p;
                               h4 \<leftarrow> upd_inode (shift_up (nat kp' + 1) (nat kp') (internode_size pi' - nat kp')) p h3;
                               h5 \<leftarrow> internode_assign p (nat kp') xikey chld h4;
                               upd_inode (\<lambda>i. i\<lparr>nkeys := nkeys i + 1\<rparr>) p h5 }
                        else Some h3);
                 Some (p, next_child, next_ikey, h4) } }"

text \<open>The left leaf after the split and the cursor's new place.\<close>

definition split_leaf_finish :: "u64 \<Rightarrow> u64 \<Rightarrow> int \<Rightarrow> tcursor \<Rightarrow> heap \<Rightarrow> (tcursor \<times> heap) option" where
  "split_leaf_finish nl nr split_type c h =
     do { l \<leftarrow> leaf_at h nl;
          r \<leftarrow> leaf_at h nr;
          let width = kp_size (permutation l);
          let perml = set_size (permutation l) (width - leaf_size r);
          let perml' = (if width \<noteq> leaf_width then exchange (kp_size perml) (leaf_width - 1) perml else perml);
          h1 \<leftarrow> upd_version mark_split nl h;
          h2 \<leftarrow> upd_leaf (\<lambda>l. l\<lparr>permutation := perml'\<rparr>) nl h1;
          (c1, h3) \<leftarrow>
            (if split_type = 0 then
               do { let p = kp_back leaf_width perml';
                    h3 \<leftarrow> leaf_assign nl p (tc_ka c) h2;
                    Some (c\<lparr>tc_p := int p\<rparr>, h3) }
             else do { let i = tc_i c - kp_size perml'; Some (c\<lparr>tc_i := i, tc_p := int i, tc_n := nr\<rparr>, h2) });
          l2 \<leftarrow> leaf_at h3 nl;
          r2 \<leftarrow> leaf_at h3 nr;
          Some (if nl \<noteq> tc_n c1 then c1\<lparr>updated_v := full_unlocked_version_value l2\<rparr>
                else c1\<lparr>new_nodes := new_nodes c1 @ [(nr, full_unlocked_version_value r2)]\<rparr>, h3) }"

fun make_split_loop :: "nat \<Rightarrow> u64 \<Rightarrow> u64 \<Rightarrow> u64 \<Rightarrow> int \<Rightarrow> u32 \<Rightarrow> tcursor \<Rightarrow> heap \<Rightarrow> (tcursor \<times> heap) option" where
  "make_split_loop 0 n chld xikey split_type ht c h = None"
| "make_split_loop (Suc fuel) n chld xikey split_type ht c h =
     do { (p, next_child, next_ikey, h1) \<leftarrow> split_parent n chld xikey split_type ht h;
          v \<leftarrow> node_version h1 n;
          (c1, h2) \<leftarrow> (if isleaf v then split_leaf_finish n chld split_type c h1 else Some (c, h1));
          h3 \<leftarrow> (if n \<noteq> tc_n c1 then node_unlock n h2 else Some h2);
          h4 \<leftarrow> (if chld \<noteq> tc_n c1 then node_unlock chld h3 else Some h3);
          if next_child \<noteq> 0 then make_split_loop fuel p next_child next_ikey split_type (ht + 1) c1 h4
          else if p \<noteq> 0 then do { h5 \<leftarrow> node_unlock p h4; Some (c1, h5) }
          else Some (c1, h4) }"

definition make_split :: "nat \<Rightarrow> tcursor \<Rightarrow> heap \<Rightarrow> (tcursor \<times> heap) option" where
  "make_split fuel c h =
     do { l \<leftarrow> leaf_at h (tc_n c);
          let perm = exchange (kp_size (permutation l)) (leaf_width - 1) (permutation l);
          if leaf_size l < leaf_width \<and> kp_back leaf_width perm \<noteq> 0 then
            do { h1 \<leftarrow> upd_leaf (\<lambda>l. l\<lparr>permutation := perm\<rparr>) (tc_n c) h;
                 h2 \<leftarrow> leaf_assign (tc_n c) (kp_back leaf_width perm) (tc_ka c) h1;
                 Some (c\<lparr>tc_p := int (kp_back leaf_width perm)\<rparr>, h2) }
          else
            do { used \<leftarrow> ksuf_used_capacity h l;
                 (chld, h1) \<leftarrow> leaf_make used h;
                 h2 \<leftarrow> upd_version (\<lambda>_. vword l) chld h1;
                 (split_type, xikey, h3) \<leftarrow> leaf_split_into (tc_n c) chld (tc_i c) (tc_ka c) h2;
                 let c1 = (if leaf_size l < leaf_width then c\<lparr>tc_p := int (kp_back leaf_width perm)\<rparr> else c);
                 make_split_loop fuel (tc_n c) chld xikey split_type 0 c1 h3 } }"

section \<open>New layers\<close>

text \<open>The twig of one-entry layers for the slices the two keys share; \<open>head = n\<close> while it is empty.\<close>

fun twig_loop :: "nat \<Rightarrow> u64 \<Rightarrow> u64 \<Rightarrow> u64 \<Rightarrow> key \<Rightarrow> key \<Rightarrow> tcursor \<Rightarrow> heap \<Rightarrow> (u64 \<times> u64 \<times> key \<times> key \<times> tcursor \<times> heap) option" where
  "twig_loop 0 n head tail oka ka c h = None"
| "twig_loop (Suc fuel) n head tail oka ka c h =
     (if key_compare oka ka = 0 then
        do { (nl, h1) \<leftarrow> leaf_make_root 0 h;
             l \<leftarrow> leaf_at h1 nl;
             l1 \<leftarrow> assign_initialize_for_layer 0 oka l;
             let h2 = put_node nl (Leaf l1) h1;
             h3 \<leftarrow> (if head \<noteq> n then upd_leaf (\<lambda>l. l\<lparr>lv := (lv l)[0 := nl]\<rparr>) tail h2 else Some h2);
             let head' = (if head \<noteq> n then head else nl);
             h4 \<leftarrow> upd_leaf (\<lambda>l. l\<lparr>permutation := make_sorted leaf_width 1\<rparr>) nl h3;
             l2 \<leftarrow> leaf_at h4 nl;
             twig_loop fuel n head' nl (shift oka) (shift ka)
               (c\<lparr>new_nodes := new_nodes c @ [(nl, full_unlocked_version_value l2)]\<rparr>) h4 }
      else Some (head, tail, oka, ka, c, h))"

definition new_layer_ksufsize :: "key \<Rightarrow> key \<Rightarrow> nat" where
  "new_layer_ksufsize ka oka =
     (if has_suffix ka \<or> has_suffix oka
      then nat (max 0 (suffix_length ka) + max 0 (suffix_length oka)) * (leaf_width div 2) + overhead 8 leaf_width
      else 0)"

definition make_new_layer :: "nat \<Rightarrow> tcursor \<Rightarrow> heap \<Rightarrow> (tcursor \<times> heap) option" where
  "make_new_layer fuel c h =
     do { let n = tc_n c;
          l \<leftarrow> leaf_at h n;
          s \<leftarrow> ksuf_str h l (nat (tc_p c));
          (head, tail, oka, ka, c1, h1) \<leftarrow> twig_loop fuel n n n (str_key s) (shift (tc_ka c)) c h;
          let kcmp = key_compare oka ka;
          (nl, h2) \<leftarrow> leaf_make_root (new_layer_ksufsize ka oka) h1;
          h3 \<leftarrow> leaf_assign_initialize nl 0 (if kcmp < 0 then oka else ka) h2;
          h4 \<leftarrow> leaf_assign_initialize nl 1 (if kcmp < 0 then ka else oka) h3;
          h5 \<leftarrow> upd_leaf (\<lambda>r. r\<lparr>lv := (lv r)[of_bool (kcmp > 0) := lv l ! nat (tc_p c)]\<rparr>) nl h4;
          h6 \<leftarrow> lock_persistent nl h5;
          h7 \<leftarrow> upd_leaf (\<lambda>r. r\<lparr>permutation :=
                 (if kcmp < 0 then make_sorted leaf_width 1 else remove_to_back leaf_width 0 (make_sorted leaf_width 2))\<rparr>) nl h6;
          h8 \<leftarrow> upd_version mark_insert n h7;
          h9 \<leftarrow> (if tail \<noteq> n then upd_leaf (\<lambda>r. r\<lparr>lv := (lv r)[0 := nl]\<rparr>) tail h8 else Some h8);
          h10 \<leftarrow> upd_leaf (\<lambda>r. r\<lparr>lv := (lv r)[nat (tc_p c) := if head \<noteq> n then head else nl],
                  keylenx := (keylenx r)[nat (tc_p c) := layer_keylenx]\<rparr>) n h9;
          l' \<leftarrow> leaf_at h10 n;
          h11 \<leftarrow> node_unlock n h10;
          Some (c1\<lparr>tc_ka := ka, updated_v := full_unlocked_version_value l', tc_n := nl,
                   tc_i := of_bool (kcmp < 0), tc_p := of_bool (kcmp < 0)\<rparr>, h11) }"

section \<open>The insertion\<close>

definition apply_logged :: "(leaf \<Rightarrow> leaf \<times> leaf option) \<Rightarrow> u64 \<Rightarrow> heap \<Rightarrow> heap option" where
  "apply_logged f a h =
     do { l \<leftarrow> leaf_at h a;
          let (l', copy) = f l;
          let h1 = put_node a (Leaf l') h;
          Some (h1\<lparr>elog := elog h1 @ (case copy of None \<Rightarrow> [] | Some x \<Rightarrow> [(a, Leaf x)])\<rparr>) }"

definition find_insert :: "nat \<Rightarrow> tcursor \<Rightarrow> heap \<Rightarrow> (bool \<times> tcursor \<times> heap) option" where
  "find_insert fuel c h =
     do { (c1, h1) \<leftarrow> find_locked fuel (tc_root c) c h;
          let n = tc_n c1;
          l \<leftarrow> leaf_at h1 n;
          let c2 = c1\<lparr>original_n := n, original_v := full_unlocked_version_value l\<rparr>;
          if tc_state c2 \<noteq> 0 then
            do { h2 \<leftarrow> apply_logged (save_cl1_2_update (globalepoch h1) (nat (tc_p c2))) n h1; Some (True, c2, h2) }
          else
            do { let c3 = c2\<lparr>tc_state := 2\<rparr>;
                 if tc_p c3 \<ge> 0 then
                   do { h2 \<leftarrow> log_persistent n h1; (c4, h3) \<leftarrow> make_new_layer fuel c3 h2; Some (False, c4, h3) }
                 else
                   do { h2 \<leftarrow> (if modstate l \<noteq> modstate_insert
                              then do { h2 \<leftarrow> upd_version mark_insert n h1; upd_leaf (\<lambda>l. l\<lparr>modstate := modstate_insert\<rparr>) n h2 }
                              else Some h1);
                        let p = kp_back leaf_width (permutation l);
                        if leaf_size l < leaf_width \<and> (p \<noteq> 0 \<or> prev_ptr l = 0 \<or> ikey_bound l = kikey (tc_ka c3)) then
                          do { h3 \<leftarrow> apply_logged (save_cl0_insert (globalepoch h2)) n h2;
                               h4 \<leftarrow> leaf_assign n p (tc_ka c3) h3;
                               Some (False, c3\<lparr>tc_p := int p\<rparr>, h4) }
                        else
                          do { let c4 = (if leaf_size l < leaf_width then c3\<lparr>tc_p := int p\<rparr> else c3);
                               h3 \<leftarrow> log_persistent n h2;
                               (c5, h4) \<leftarrow> make_split fuel c4 h3;
                               Some (False, c5, h4) } } } }"

definition finish_insert :: "tcursor \<Rightarrow> heap \<Rightarrow> heap option" where
  "finish_insert c h =
     upd_leaf (\<lambda>l. l\<lparr>permutation := snd (insert_from_back leaf_width (tc_i c) (permutation l))\<rparr>) (tc_n c) h"

definition set_cursor_value :: "u64 \<Rightarrow> tcursor \<Rightarrow> heap \<Rightarrow> heap option" where
  "set_cursor_value x c h = upd_leaf (\<lambda>l. l\<lparr>lv := (lv l)[nat (tc_p c) := x]\<rparr>) (tc_n c) h"

end
