(* ===== verification/Tree_Remove.thy ===== *)
theory Tree_Remove
  imports Tree_Insert
begin

text \<open>
  Removal (\<open>masstree_remove.hh\<close>): taking a slot out of the permutation, deleting an empty
  leaf and the internodes that become trivial, rewriting separators, collecting an empty
  layer, and tearing down a whole tree.  \<open>tcursor_finish\<close> is \<open>tcursor::finish\<close>.
\<close>

definition memtag_masstree_gc :: u64 where "memtag_masstree_gc = 0x1300"

section \<open>Deleting a leaf\<close>

definition gc_layer_callback_make :: "u64 \<Rightarrow> bytes \<Rightarrow> heap \<Rightarrow> heap option" where
  "gc_layer_callback_make root prefix h =
     do { (cb, h1) \<leftarrow> heap_allocate (length prefix + 24) h;
          ti \<leftarrow> rcu_register (globalepoch h1) cb (tinfo h1);
          Some (h1\<lparr>tinfo := ti, gc_callbacks := gc_callbacks h1 @ [(cb, root, prefix)]\<rparr>) }"

fun redirect_loop :: "nat \<Rightarrow> bool \<Rightarrow> u64 \<Rightarrow> u64 \<Rightarrow> u64 \<Rightarrow> heap \<Rightarrow> heap option" where
  "redirect_loop 0 first n ikey replacement h = None"
| "redirect_loop (Suc fuel) first n ikey replacement h =
     do { (p, h1) \<leftarrow> locked_parent n h;
          h2 \<leftarrow> (if first then Some h1 else node_unlock n h1);
          i \<leftarrow> inode_at h2 p;
          let kp = internode_upper i ikey;
          h3 \<leftarrow> (if kp > 0 then upd_inode (\<lambda>i. i\<lparr>ikeys := (ikeys i)[kp - 1 := replacement]\<rparr>) p h2 else Some h2);
          if kp = 0 \<or> kp = 1 \<and> child i ! 0 = 0 then redirect_loop fuel False p ikey replacement h3
          else node_unlock p h3 }"

definition redirect :: "nat \<Rightarrow> u64 \<Rightarrow> u64 \<Rightarrow> u64 \<Rightarrow> heap \<Rightarrow> heap option" where
  "redirect fuel n ikey replacement h = redirect_loop fuel True n ikey replacement h"

fun remove_loop :: "nat \<Rightarrow> u64 \<Rightarrow> u64 \<Rightarrow> u64 \<Rightarrow> heap \<Rightarrow> heap option" where
  "remove_loop 0 n ikey replacement h = None"
| "remove_loop (Suc fuel) n ikey replacement h =
     do { (p, h1) \<leftarrow> locked_parent n h;
          h2 \<leftarrow> upd_version mark_insert p h1;
          i \<leftarrow> inode_at h2 p;
          let kp = internode_upper i ikey;
          h3 \<leftarrow> upd_inode (\<lambda>i. i\<lparr>child := (child i)[kp := replacement]\<rparr>) p h2;
          h4 \<leftarrow> (if replacement \<noteq> 0 then set_parent replacement p h3
                 else if kp > 0 then
                   do { h4 \<leftarrow> upd_inode (shift_down (kp - 1) kp (internode_size i - kp)) p h3;
                        upd_inode (\<lambda>i. i\<lparr>nkeys := nkeys i - 1\<rparr>) p h4 }
                 else Some h3);
          i4 \<leftarrow> inode_at h4 p;
          (ikey', h5) \<leftarrow> (if kp \<le> 1 \<and> internode_size i4 > 0 \<and> child i4 ! 0 = 0 then
                            do { h5 \<leftarrow> redirect fuel p ikey (ikeys i4 ! 0) h4; Some (ikeys i4 ! 0, h5) }
                          else Some (ikey, h4));
          h6 \<leftarrow> node_unlock n h5;
          i6 \<leftarrow> inode_at h6 p;
          if internode_size i6 > of_bool (child i6 ! 0 = 0) \<or> is_root (vword i6) then node_unlock p h6
          else do { h7 \<leftarrow> upd_version mark_deleted p h6;
                    h8 \<leftarrow> internode_deallocate_rcu p h7;
                    i8 \<leftarrow> inode_at h8 p;
                    h9 \<leftarrow> upd_inode (\<lambda>i. i\<lparr>child := (child i)[internode_size i := 0]\<rparr>) p h8;
                    remove_loop fuel p ikey' (child i8 ! internode_size i8) h9 } }"

definition remove_leaf :: "nat \<Rightarrow> u64 \<Rightarrow> u64 \<Rightarrow> bytes \<Rightarrow> heap \<Rightarrow> (bool \<times> heap) option" where
  "remove_leaf fuel a root prefix h =
     do { l \<leftarrow> leaf_at h a;
          if prev_ptr l = 0 then
            (if next_ptr l = 0 \<and> prefix \<noteq> []
             then do { h1 \<leftarrow> gc_layer_callback_make root prefix h; Some (False, h1) }
             else Some (False, h))
          else
            do { h1 \<leftarrow> upd_version mark_deleted a h;
                 h2 \<leftarrow> leaf_deallocate_rcu a h1;
                 h3 \<leftarrow> unlink_leaf a h2;
                 h4 \<leftarrow> remove_loop fuel a (ikey_bound l) 0 h3;
                 Some (True, h4) } }"

definition finish_remove :: "nat \<Rightarrow> tcursor \<Rightarrow> heap \<Rightarrow> (bool \<times> heap) option" where
  "finish_remove fuel c h =
     do { l \<leftarrow> leaf_at h (tc_n c);
          h1 \<leftarrow> (if modstate l = modstate_insert
                 then do { h1 \<leftarrow> upd_version mark_insert (tc_n c) h;
                           upd_leaf (\<lambda>l. l\<lparr>modstate := modstate_remove\<rparr>) (tc_n c) h1 }
                 else Some h);
          let perm = kp_remove (tc_i c) (permutation l);
          h2 \<leftarrow> upd_leaf (\<lambda>l. l\<lparr>permutation := perm\<rparr>) (tc_n c) h1;
          if kp_size perm \<noteq> 0 then Some (False, h2)
          else remove_leaf fuel (tc_n c) (tc_root c) (prefix_string (tc_ka c)) h2 }"

section \<open>Finishing an operation\<close>

definition tcursor_finish :: "nat \<Rightarrow> int \<Rightarrow> tcursor \<Rightarrow> heap \<Rightarrow> (tcursor \<times> heap) option" where
  "tcursor_finish fuel state c h =
     do { (gone, h1) \<leftarrow>
            (if state < 0 \<and> tc_state c = 1 then finish_remove fuel c h
             else if state > 0 \<and> tc_state c = 2 then do { h1 \<leftarrow> finish_insert c h; Some (False, h1) }
             else Some (False, h));
          if gone then Some (c, h1)
          else do { l \<leftarrow> leaf_at h1 (tc_n c);
                    let c1 = (if tc_n c = original_n c then c\<lparr>updated_v := full_unlocked_version_value l\<rparr>
                              else c\<lparr>new_nodes := new_nodes c @ [(tc_n c, full_unlocked_version_value l)]\<rparr>);
                    h2 \<leftarrow> node_unlock (tc_n c) h1;
                    Some (c1, h2) } }"

section \<open>Collecting an empty layer\<close>

datatype gc_result = GC_false | GC_leaf u64 | GC_unlock u64

fun gc_layer_loop :: "nat \<Rightarrow> u64 \<Rightarrow> nat \<Rightarrow> heap \<Rightarrow> (gc_result \<times> heap) option" where
  "gc_layer_loop 0 n p h = None"
| "gc_layer_loop (Suc fuel) n p h =
     do { l \<leftarrow> leaf_at h n;
          let layer = lv l ! p;
          v \<leftarrow> node_version h layer;
          if \<not> is_root v then
            do { mp \<leftarrow> maybe_parent h layer;
                 h1 \<leftarrow> upd_leaf (\<lambda>l. l\<lparr>lv := (lv l)[p := mp]\<rparr>) n h;
                 gc_layer_loop fuel n p h1 }
          else if isleaf v then Some (GC_leaf layer, h)
          else
            do { i \<leftarrow> inode_at h layer;
                 if internode_size i > 0 then Some (GC_false, h)
                 else
                   do { h1 \<leftarrow> lock_persistent layer h;
                        i1 \<leftarrow> inode_at h1 layer;
                        if \<not> is_root (vword i1) \<or> internode_size i1 > 0 then Some (GC_unlock layer, h1)
                        else
                          do { let c = child i1 ! 0;
                               h2 \<leftarrow> make_layer_root c h1;
                               h3 \<leftarrow> upd_leaf (\<lambda>l. l\<lparr>lv := (lv l)[p := c]\<rparr>) n h2;
                               h4 \<leftarrow> upd_version mark_split layer h3;
                               h5 \<leftarrow> set_parent layer c h4;
                               h6 \<leftarrow> node_unlock layer h5;
                               h7 \<leftarrow> internode_deallocate_rcu layer h6;
                               gc_layer_loop fuel n p h7 } } } }"

definition gc_layer :: "nat \<Rightarrow> tcursor \<Rightarrow> heap \<Rightarrow> (bool \<times> tcursor \<times> heap) option" where
  "gc_layer fuel c h =
     do { (c1, h1) \<leftarrow> find_locked fuel (tc_root c) c h;
          h2 \<leftarrow> log_persistent (tc_n c1) h1;
          if has_suffix (tc_ka c1) then Some (False, c1, h2)
          else
            do { let c2 = c1\<lparr>tc_i := tc_i c1 + of_bool (has_value c1)\<rparr>;
                 l \<leftarrow> leaf_at h2 (tc_n c2);
                 if tc_i c2 \<ge> leaf_size l then Some (False, c2, h2)
                 else
                   do { let p = kp_at (permutation l) (tc_i c2);
                        let c3 = c2\<lparr>tc_p := int p\<rparr>;
                        if ikey0 l ! p \<noteq> kikey (tc_ka c3) \<or> \<not> is_layer l p then Some (False, c3, h2)
                        else
                          do { (r, h3) \<leftarrow> gc_layer_loop fuel (tc_n c3) p h2;
                               case r of
                                 GC_false \<Rightarrow> Some (False, c3, h3)
                               | GC_unlock layer \<Rightarrow> do { h4 \<leftarrow> node_unlock layer h3; Some (False, c3, h4) }
                               | GC_leaf lf \<Rightarrow>
                                   do { ll \<leftarrow> leaf_at h3 lf;
                                        if leaf_size ll > 0 then Some (False, c3, h3)
                                        else
                                          do { h4 \<leftarrow> lock_persistent lf h3;
                                               ll1 \<leftarrow> leaf_at h4 lf;
                                               if \<not> is_root (vword ll1) \<or> leaf_size ll1 > 0
                                               then do { h5 \<leftarrow> node_unlock lf h4; Some (False, c3, h5) }
                                               else
                                                 do { h5 \<leftarrow> upd_leaf mark_deleted_layer lf h4;
                                                      h6 \<leftarrow> node_unlock lf h5;
                                                      h7 \<leftarrow> leaf_deallocate_rcu lf h6;
                                                      Some (True, c3, h7) } } } } } } }"

fun climb_root :: "nat \<Rightarrow> heap \<Rightarrow> u64 \<Rightarrow> u64 option" where
  "climb_root 0 h a = None"
| "climb_root (Suc fuel) h a =
     do { v \<leftarrow> node_version h a;
          if is_root v then Some a else do { p \<leftarrow> maybe_parent h a; climb_root fuel h p } }"

definition gc_layer_callback_run :: "nat \<Rightarrow> u64 \<Rightarrow> u64 \<Rightarrow> bytes \<Rightarrow> heap \<Rightarrow> heap option" where
  "gc_layer_callback_run fuel cb root0 prefix h =
     do { root \<leftarrow> climb_root fuel h root0;
          v \<leftarrow> node_version h root;
          if deleted v then Some h
          else
            do { (do_remove, c, h1) \<leftarrow> gc_layer fuel (tcursor_make root prefix) h;
                 (gone, h2) \<leftarrow> (if do_remove then finish_remove fuel c h1 else Some (False, h1));
                 h3 \<leftarrow> (if gone then Some h2 else node_unlock (tc_n c) h2);
                 ti \<leftarrow> pool_deallocate cb (length prefix + 24) (tinfo h3);
                 Some (h3\<lparr>tinfo := ti\<rparr>) } }"

section \<open>Tearing down a tree\<close>

definition leaf_deallocate :: "u64 \<Rightarrow> heap \<Rightarrow> heap option" where
  "leaf_deallocate a h =
     do { l \<leftarrow> leaf_at h a;
          ti \<leftarrow> (if ksuf l \<noteq> 0 then do { b \<leftarrow> bags h (ksuf l); pool_deallocate (ksuf l) (capacity b) (tinfo h) }
                 else Some (tinfo h));
          ti' \<leftarrow> pool_deallocate a (leaf_allocated_size l) ti;
          Some (h\<lparr>tinfo := ti'\<rparr>) }"

definition internode_deallocate :: "u64 \<Rightarrow> heap \<Rightarrow> heap option" where
  "internode_deallocate a h = do { ti \<leftarrow> pool_deallocate a sizeof_internode (tinfo h); Some (h\<lparr>tinfo := ti\<rparr>) }"

text \<open>What a node puts on the work queue of the destructor (the queue is linked through the nodes' parent fields).\<close>

definition destroy_children :: "node \<Rightarrow> u64 list" where
  "destroy_children n =
     (case n of
        Leaf l \<Rightarrow> map ((!) (lv l)) (filter (is_layer l) (map (leaf_perm l) [0..<leaf_size l]))
      | Internode i \<Rightarrow> filter (\<lambda>c. c \<noteq> 0) (take (internode_size i + 1) (child i)))"

fun destroy_loop :: "nat \<Rightarrow> u64 list \<Rightarrow> heap \<Rightarrow> heap option" where
  "destroy_loop 0 workq h = None"
| "destroy_loop (Suc fuel) [] h = Some h"
| "destroy_loop (Suc fuel) (a # workq) h =
     do { n \<leftarrow> nodes h a;
          h1 \<leftarrow> (case n of Leaf l \<Rightarrow> leaf_deallocate a h | Internode i \<Rightarrow> internode_deallocate a h);
          destroy_loop fuel (workq @ destroy_children n) h1 }"

definition destroy_callback_run :: "nat \<Rightarrow> u64 \<Rightarrow> nat \<Rightarrow> u64 \<Rightarrow> heap \<Rightarrow> (nat \<times> u64 \<times> heap) option" where
  "destroy_callback_run fuel cb cnt root0 h =
     (if cnt + 1 = 1 then
        do { root \<leftarrow> climb_root fuel h root0;
             h1 \<leftarrow> lock_persistent root h;
             h2 \<leftarrow> upd_version mark_deleted_tree root h1;
             h3 \<leftarrow> node_unlock root h2;
             ti \<leftarrow> rcu_register (globalepoch h3) cb (tinfo h3);
             Some (cnt + 1, root, h3\<lparr>tinfo := ti\<rparr>) }
      else
        do { h1 \<leftarrow> destroy_loop fuel [root0] h;
             ti \<leftarrow> pool_deallocate cb 8 (tinfo h1);
             Some (cnt + 1, root0, h1\<lparr>tinfo := ti\<rparr>) })"

definition table_destroy :: "u64 \<Rightarrow> heap \<Rightarrow> (u64 \<times> heap) option" where
  "table_destroy root h =
     (if root \<noteq> 0 then
        do { (cb, h1) \<leftarrow> heap_allocate 24 h;
             ti \<leftarrow> rcu_register (globalepoch h1) cb (tinfo h1);
             Some (0, h1\<lparr>tinfo := ti\<rparr>) }
      else Some (root, h))"

end
