(* ===== verification/Tree_Scan.thy ===== *)
theory Tree_Scan
  imports Tree_Find
begin

text \<open>
  Range scans (\<open>masstree_scan.hh\<close>) in both directions.  A scan keeps the leaf, a snapshot of
  its version and permutation, a position and the stack of enclosing layers; the key buffer
  is rewritten as the scan moves.  What the scanner does with a leaf or a value is a
  parameter, a function on the scanner's own state.
\<close>

section \<open>Helpers for the two directions\<close>

datatype scan_helper = Forward | Reverse bool

datatype scan_state = Scan_emit | Scan_find_next | Scan_down | Scan_up | Scan_retry

record scanstackelt =
  sc_root :: u64
  sc_n :: u64
  sc_v :: u32
  sc_perm :: u64
  sc_ki :: int
  sc_stack :: "u64 list"

fun initial_ksuf_match :: "scan_helper \<Rightarrow> int \<Rightarrow> bool \<Rightarrow> bool" where
  "initial_ksuf_match Forward cmp emit_equal \<longleftrightarrow> cmp > 0 \<or> cmp = 0 \<and> emit_equal"
| "initial_ksuf_match (Reverse ub) cmp emit_equal \<longleftrightarrow> cmp < 0 \<or> cmp = 0 \<and> emit_equal"

fun is_duplicate :: "scan_helper \<Rightarrow> key \<Rightarrow> u64 \<Rightarrow> int \<Rightarrow> bool" where
  "is_duplicate Forward k ikey kl \<longleftrightarrow> compare_ikey k ikey kl \<ge> 0"
| "is_duplicate (Reverse ub) k ikey kl \<longleftrightarrow> compare_ikey k ikey kl \<le> 0 \<and> \<not> ub"

definition stack_lower_by :: "heap \<Rightarrow> key \<Rightarrow> scanstackelt \<Rightarrow> key_indexed_position option" where
  "stack_lower_by h ka s =
     do { l \<leftarrow> leaf_at h (sc_n s);
          Some (key_lower_bound_by (kp_at (sc_perm s)) (kp_size (sc_perm s)) (leaf_compare_key l ka)) }"

fun lower_with_position :: "scan_helper \<Rightarrow> heap \<Rightarrow> key \<Rightarrow> scanstackelt \<Rightarrow> (int \<times> int) option" where
  "lower_with_position Forward h ka s = do { (i, p) \<leftarrow> stack_lower_by h ka s; Some (int i, p) }"
| "lower_with_position (Reverse ub) h ka s = do { (i, p) \<leftarrow> stack_lower_by h ka s; Some (int i - of_bool (p < 0), p) }"

fun helper_lower :: "scan_helper \<Rightarrow> heap \<Rightarrow> key \<Rightarrow> scanstackelt \<Rightarrow> int option" where
  "helper_lower Forward h ka s = do { (i, p) \<leftarrow> stack_lower_by h ka s; Some (int i) }"
| "helper_lower (Reverse ub) h ka s =
     (if ub then Some (int (kp_size (sc_perm s)) - 1)
      else do { (i, p) \<leftarrow> stack_lower_by h ka s; Some (int i - of_bool (p < 0)) })"

fun helper_next :: "scan_helper \<Rightarrow> int \<Rightarrow> int" where
  "helper_next Forward ki = ki + 1"
| "helper_next (Reverse ub) ki = ki - 1"

fun helper_found :: "scan_helper \<Rightarrow> scan_helper" where
  "helper_found Forward = Forward"
| "helper_found (Reverse ub) = Reverse False"

fun helper_advance :: "scan_helper \<Rightarrow> leaf \<Rightarrow> key \<Rightarrow> u64 \<times> key" where
  "helper_advance Forward l ka = (safe_next l, ka)"
| "helper_advance (Reverse ub) l ka = (prev_ptr l, assign_store_length 0 (assign_store_ikey (ikey_bound l) ka))"

fun reverse_stable_loop :: "nat \<Rightarrow> heap \<Rightarrow> u64 \<Rightarrow> key \<Rightarrow> (u64 \<times> u32) option" where
  "reverse_stable_loop 0 h n k = None"
| "reverse_stable_loop (Suc fuel) h n k =
     do { v \<leftarrow> node_stable h n;
          l \<leftarrow> leaf_at h n;
          let next = safe_next l;
          if next = 0 then Some (n, v)
          else do { nl \<leftarrow> leaf_at h next;
                    let cmp = compare_u64 (kikey k) (ikey_bound nl);
                    if cmp < 0 \<or> cmp = 0 \<and> klen k = 0 then Some (n, v) else reverse_stable_loop fuel h next k } }"

fun helper_stable :: "nat \<Rightarrow> scan_helper \<Rightarrow> heap \<Rightarrow> u64 \<Rightarrow> key \<Rightarrow> (u64 \<times> u32) option" where
  "helper_stable fuel Forward h n k = do { v \<leftarrow> node_stable h n; Some (n, v) }"
| "helper_stable fuel (Reverse ub) h n k = reverse_stable_loop fuel h n k"

fun helper_shift_clear :: "scan_helper \<Rightarrow> key \<Rightarrow> scan_helper \<times> key" where
  "helper_shift_clear Forward ka = (Forward, shift_clear ka)"
| "helper_shift_clear (Reverse ub) ka = (Reverse True, shift_clear_reverse ka)"

section \<open>Positioning\<close>

definition stack_kp :: "scanstackelt \<Rightarrow> int" where
  "stack_kp s = (if 0 \<le> sc_ki s \<and> sc_ki s < int (kp_size (sc_perm s)) then int (kp_at (sc_perm s) (nat (sc_ki s))) else -1)"

fun find_initial :: "nat \<Rightarrow> scan_helper \<Rightarrow> key \<Rightarrow> bool \<Rightarrow> scanstackelt \<Rightarrow> heap \<Rightarrow> (scan_state \<times> key \<times> u64 \<times> scanstackelt) option"
  and find_initial_node :: "nat \<Rightarrow> scan_helper \<Rightarrow> key \<Rightarrow> bool \<Rightarrow> scanstackelt \<Rightarrow> heap \<Rightarrow> (scan_state \<times> key \<times> u64 \<times> scanstackelt) option" where
  "find_initial 0 hp ka emit_equal s h = None"
| "find_initial (Suc fuel) hp ka emit_equal s h =
     do { (n, v) \<leftarrow> reach_leaf fuel h ka (sc_root s);
          find_initial_node fuel hp ka emit_equal (s\<lparr>sc_n := n, sc_v := v\<rparr>) h }"
| "find_initial_node 0 hp ka emit_equal s h = None"
| "find_initial_node (Suc fuel) hp ka emit_equal s h =
     (if deleted (sc_v s) then find_initial fuel hp ka emit_equal s h
      else do { l \<leftarrow> leaf_at h (sc_n s);
                let s1 = s\<lparr>sc_perm := permutation l\<rparr>;
                (i, p) \<leftarrow> lower_with_position hp h ka s1;
                if has_changed (vword l) (sc_v s1) then
                  do { (n', v') \<leftarrow> advance_to_key fuel h ka (sc_n s1) (sc_v s1);
                       find_initial_node fuel hp ka emit_equal (s1\<lparr>sc_n := n', sc_v := v'\<rparr>) h }
                else
                  do { let s2 = s1\<lparr>sc_ki := i\<rparr>;
                       if p \<ge> 0 then
                         do { let kl = keylenx l ! nat p;
                              let entry = lv l ! nat p;
                              let skip = s2\<lparr>sc_ki := helper_next hp i\<rparr>;
                              if keylenx_is_layer kl then
                                Some (Scan_down, ka, entry, s2\<lparr>sc_stack := sc_n s2 # sc_root s2 # sc_stack s2, sc_root := entry\<rparr>)
                              else if keylenx_has_ksuf kl then
                                do { suffix \<leftarrow> ksuf_str h l (nat p);
                                     if initial_ksuf_match hp (str_compare suffix (key_suffix ka)) emit_equal then
                                       (let (keylen, ka1) = assign_store_suffix suffix ka
                                        in Some (Scan_emit, assign_store_length keylen ka1, entry, s2))
                                     else Some (Scan_find_next, ka, entry, skip) }
                              else if emit_equal then Some (Scan_emit, ka, entry, s2)
                              else Some (Scan_find_next, ka, entry, skip) }
                       else Some (Scan_find_next, ka, 0, s2) } })"

fun find_retry :: "nat \<Rightarrow> scan_helper \<Rightarrow> key \<Rightarrow> scanstackelt \<Rightarrow> heap \<Rightarrow> (scan_state \<times> scanstackelt) option" where
  "find_retry 0 hp ka s h = None"
| "find_retry (Suc fuel) hp ka s h =
     do { (n, v) \<leftarrow> reach_leaf fuel h ka (sc_root s);
          let s1 = s\<lparr>sc_n := n, sc_v := v\<rparr>;
          if deleted v then find_retry fuel hp ka s1 h
          else do { l \<leftarrow> leaf_at h n;
                    let s2 = s1\<lparr>sc_perm := permutation l\<rparr>;
                    ki \<leftarrow> helper_lower hp h ka s2;
                    Some (Scan_find_next, s2\<lparr>sc_ki := ki\<rparr>) } }"

definition find_next_changed :: "nat \<Rightarrow> scan_helper \<Rightarrow> key \<Rightarrow> u64 \<Rightarrow> scanstackelt \<Rightarrow> heap
    \<Rightarrow> (scan_state \<times> scan_helper \<times> key \<times> u64 \<times> scanstackelt) option" where
  "find_next_changed fuel hp ka entry s h =
     do { (n, v) \<leftarrow> helper_stable fuel hp h (sc_n s) ka;
          l \<leftarrow> leaf_at h n;
          let s1 = s\<lparr>sc_n := n, sc_v := v, sc_perm := permutation l\<rparr>;
          ki \<leftarrow> helper_lower hp h ka s1;
          Some (Scan_find_next, hp, ka, entry, s1\<lparr>sc_ki := ki\<rparr>) }"

fun find_next_entry :: "nat \<Rightarrow> scan_helper \<Rightarrow> key \<Rightarrow> u64 \<Rightarrow> scanstackelt \<Rightarrow> heap
    \<Rightarrow> (scan_state \<times> scan_helper \<times> key \<times> u64 \<times> scanstackelt) option" where
  "find_next_entry 0 hp ka entry0 s h = None"
| "find_next_entry (Suc fuel) hp ka entry0 s h =
     do { l \<leftarrow> leaf_at h (sc_n s);
          let kp = stack_kp s;
          if kp \<ge> 0 then
            do { let ikey = ikey0 l ! nat kp;
                 let kl = keylenx l ! nat kp;
                 let entry = lv l ! nat kp;
                 (keylen, ka1) \<leftarrow> (if keylenx_has_ksuf kl then do { sf \<leftarrow> ksuf_str h l (nat kp); Some (assign_store_suffix sf ka) }
                                  else Some (uint kl, ka));
                 if has_changed (vword l) (sc_v s) then find_next_changed fuel hp ka1 entry s h
                 else if is_duplicate hp ka1 ikey (uint kl) then
                   find_next_entry fuel hp ka1 entry (s\<lparr>sc_ki := helper_next hp (sc_ki s)\<rparr>) h
                 else
                   do { let ka2 = assign_store_ikey ikey ka1;
                        let hp1 = helper_found hp;
                        if keylenx_is_layer kl then
                          Some (Scan_down, hp1, ka2, entry, s\<lparr>sc_stack := sc_n s # sc_root s # sc_stack s, sc_root := entry\<rparr>)
                        else Some (Scan_emit, hp1, assign_store_length keylen ka2, entry, s) } }
          else if \<not> has_changed (vword l) (sc_v s) then
            (let (n', ka1) = helper_advance hp l ka
             in if n' = 0 then Some (Scan_up, hp, ka1, entry0, s\<lparr>sc_n := n'\<rparr>)
                else find_next_changed fuel hp ka1 entry0 (s\<lparr>sc_n := n'\<rparr>) h)
          else find_next_changed fuel hp ka entry0 s h }"

definition find_next :: "nat \<Rightarrow> scan_helper \<Rightarrow> key \<Rightarrow> u64 \<Rightarrow> scanstackelt \<Rightarrow> heap
    \<Rightarrow> (scan_state \<times> scan_helper \<times> key \<times> u64 \<times> scanstackelt) option" where
  "find_next fuel hp ka entry s h =
     (if deleted (sc_v s) then Some (Scan_retry, hp, ka, entry, s) else find_next_entry fuel hp ka entry s h)"

section \<open>The scan\<close>

record 's scan_config =
  g_helper :: scan_helper
  g_key :: key
  g_entry :: u64
  g_stack :: scanstackelt
  g_count :: nat
  g_heap :: heap
  g_user :: 's

fun scan_pop_loop :: "nat \<Rightarrow> 's scan_config \<Rightarrow> ('s scan_config \<times> bool) option" where
  "scan_pop_loop 0 g = None"
| "scan_pop_loop (Suc fuel) g =
     (case sc_stack (g_stack g) of
        n # r # rest \<Rightarrow>
          do { h1 \<leftarrow> recover_leaf n (g_heap g);
               let g1 = g\<lparr>g_heap := h1, g_stack := (g_stack g)\<lparr>sc_n := n, sc_root := r, sc_stack := rest\<rparr>, g_key := unshift (g_key g)\<rparr>;
               if key_empty (g_key g1) then scan_pop_loop fuel g1 else Some (g1, True) }
      | _ \<Rightarrow> Some (g, False))"

definition scan_find_next_step :: "nat \<Rightarrow> ('s \<Rightarrow> scanstackelt \<Rightarrow> key \<Rightarrow> 's) \<Rightarrow> 's scan_config \<Rightarrow> (scan_state \<times> 's scan_config) option" where
  "scan_find_next_step fuel visit_leaf g =
     do { (st, hp, ka, entry, s) \<leftarrow> find_next fuel (g_helper g) (g_key g) (g_entry g) (g_stack g) (g_heap g);
          let g1 = g\<lparr>g_helper := hp, g_key := ka, g_entry := entry, g_stack := s\<rparr>;
          Some (st, if st \<noteq> Scan_up then g1\<lparr>g_user := visit_leaf (g_user g1) s ka\<rparr> else g1) }"

fun scan_loop :: "nat \<Rightarrow> ('s \<Rightarrow> scanstackelt \<Rightarrow> key \<Rightarrow> 's) \<Rightarrow> ('s \<Rightarrow> key \<Rightarrow> u64 \<Rightarrow> bool \<times> 's) \<Rightarrow> scan_state \<Rightarrow> 's scan_config
    \<Rightarrow> 's scan_config option" where
  "scan_loop 0 visit_leaf visit_value st g = None"
| "scan_loop (Suc fuel) visit_leaf visit_value st g =
     (case st of
        Scan_emit \<Rightarrow>
          (let (more, u) = visit_value (g_user g) (g_key g) (g_entry g);
               g1 = g\<lparr>g_count := g_count g + 1, g_user := u\<rparr>
           in if \<not> more then Some g1
              else do { let s = g_stack g1;
                        (st', hp, ka, entry, s') \<leftarrow>
                          find_next fuel (g_helper g1) (g_key g1) (g_entry g1) (s\<lparr>sc_ki := helper_next (g_helper g1) (sc_ki s)\<rparr>) (g_heap g1);
                        scan_loop fuel visit_leaf visit_value st' (g1\<lparr>g_helper := hp, g_key := ka, g_entry := entry, g_stack := s'\<rparr>) })
      | Scan_find_next \<Rightarrow>
          do { (st', g1) \<leftarrow> scan_find_next_step fuel visit_leaf g; scan_loop fuel visit_leaf visit_value st' g1 }
      | Scan_up \<Rightarrow>
          do { (g1, more) \<leftarrow> scan_pop_loop fuel g;
               if \<not> more then Some g1
               else do { (n, v) \<leftarrow> helper_stable fuel (g_helper g1) (g_heap g1) (sc_n (g_stack g1)) (g_key g1);
                         l \<leftarrow> leaf_at (g_heap g1) n;
                         let s = (g_stack g1)\<lparr>sc_n := n, sc_v := v, sc_perm := permutation l\<rparr>;
                         ki \<leftarrow> helper_lower (g_helper g1) (g_heap g1) (g_key g1) s;
                         (st', g2) \<leftarrow> scan_find_next_step fuel visit_leaf (g1\<lparr>g_stack := s\<lparr>sc_ki := ki\<rparr>\<rparr>);
                         scan_loop fuel visit_leaf visit_value st' g2 } }
      | Scan_down \<Rightarrow>
          (let (hp, ka) = helper_shift_clear (g_helper g) (g_key g)
           in do { (st', s) \<leftarrow> find_retry fuel hp ka (g_stack g) (g_heap g);
                   scan_loop fuel visit_leaf visit_value st' (g\<lparr>g_helper := hp, g_key := ka, g_stack := s\<rparr>) })
      | Scan_retry \<Rightarrow>
          do { (st', s) \<leftarrow> find_retry fuel (g_helper g) (g_key g) (g_stack g) (g_heap g);
               scan_loop fuel visit_leaf visit_value st' (g\<lparr>g_stack := s\<rparr>) })"

fun scan_initial_loop :: "nat \<Rightarrow> ('s \<Rightarrow> scanstackelt \<Rightarrow> key \<Rightarrow> 's) \<Rightarrow> bool \<Rightarrow> 's scan_config \<Rightarrow> (scan_state \<times> 's scan_config) option" where
  "scan_initial_loop 0 visit_leaf emit_firstkey g = None"
| "scan_initial_loop (Suc fuel) visit_leaf emit_firstkey g =
     do { (st, ka, entry, s) \<leftarrow> find_initial fuel (g_helper g) (g_key g) emit_firstkey (g_stack g) (g_heap g);
          let g1 = g\<lparr>g_key := ka, g_entry := entry, g_stack := s, g_user := visit_leaf (g_user g) s ka\<rparr>;
          if st \<noteq> Scan_down then Some (st, g1)
          else scan_initial_loop fuel visit_leaf emit_firstkey (g1\<lparr>g_key := shift (g_key g1)\<rparr>) }"

definition masstree_maxkeylen :: nat where "masstree_maxkeylen = 255"
definition keybuf_size :: nat where "keybuf_size = (masstree_maxkeylen + 7) div 8 * 8"

definition scan_key :: "bytes \<Rightarrow> key" where
  "scan_key firstkey = key_string (firstkey @ replicate (keybuf_size - length firstkey) 0) 0 (int (length firstkey))"

definition table_scan_with :: "nat \<Rightarrow> scan_helper \<Rightarrow> ('s \<Rightarrow> scanstackelt \<Rightarrow> key \<Rightarrow> 's) \<Rightarrow> ('s \<Rightarrow> key \<Rightarrow> u64 \<Rightarrow> bool \<times> 's)
    \<Rightarrow> u64 \<Rightarrow> bytes \<Rightarrow> bool \<Rightarrow> 's \<Rightarrow> heap \<Rightarrow> (nat \<times> 's \<times> heap) option" where
  "table_scan_with fuel hp visit_leaf visit_value root firstkey emit_firstkey u h =
     do { let s = \<lparr>sc_root = root, sc_n = 0, sc_v = 0, sc_perm = 0, sc_ki = 0, sc_stack = []\<rparr>;
          (st, g) \<leftarrow> scan_initial_loop fuel visit_leaf emit_firstkey
             \<lparr>g_helper = hp, g_key = scan_key firstkey, g_entry = 0, g_stack = s, g_count = 0, g_heap = h, g_user = u\<rparr>;
          g1 \<leftarrow> scan_loop fuel visit_leaf visit_value st g;
          Some (g_count g1, g_user g1, g_heap g1) }"

definition table_scan :: "nat \<Rightarrow> ('s \<Rightarrow> scanstackelt \<Rightarrow> key \<Rightarrow> 's) \<Rightarrow> ('s \<Rightarrow> key \<Rightarrow> u64 \<Rightarrow> bool \<times> 's)
    \<Rightarrow> u64 \<Rightarrow> bytes \<Rightarrow> bool \<Rightarrow> 's \<Rightarrow> heap \<Rightarrow> (nat \<times> 's \<times> heap) option" where
  "table_scan fuel = table_scan_with fuel Forward"

definition table_rscan :: "nat \<Rightarrow> ('s \<Rightarrow> scanstackelt \<Rightarrow> key \<Rightarrow> 's) \<Rightarrow> ('s \<Rightarrow> key \<Rightarrow> u64 \<Rightarrow> bool \<times> 's)
    \<Rightarrow> u64 \<Rightarrow> bytes \<Rightarrow> bool \<Rightarrow> 's \<Rightarrow> heap \<Rightarrow> (nat \<times> 's \<times> heap) option" where
  "table_rscan fuel = table_scan_with fuel (Reverse False)"

end
