(* ===== verification/Tree_Map.thy ===== *)
theory Tree_Map
  imports Tree_Scan
begin

text \<open>
  What a tree stores.  A quiescent tree in memory is well formed when its nodes are neither
  dirty nor deleted, the slices of an internode separate its children and the entries of a
  leaf are sorted; its contents are the strings and values found by walking through all
  children, leaves, active slots and layers.  A lookup finds exactly these contents, and
  it finds the recovered contents when it runs on leaves that a crash left to be repaired.
\<close>

section \<open>Entries of a leaf\<close>

definition ikey_bytes :: "u64 \<Rightarrow> bytes" where
  "ikey_bytes ik = le_store (host_to_net_order ik)"

text \<open>The place of an entry, and of a key, in the order of a layer: slice, then length, long keys last.\<close>

definition ent_rank :: "leaf \<Rightarrow> nat \<Rightarrow> nat" where
  "ent_rank l p = unat (ikey0 l ! p) * 10 + min (unat (keylenx l ! p)) 9"

definition key_rank :: "key \<Rightarrow> nat" where
  "key_rank ka = unat (kikey ka) * 10 + min (nat (klen ka)) 9"

definition leaf_active :: "leaf \<Rightarrow> nat list" where
  "leaf_active l = map (leaf_perm l) [0..<leaf_size l]"

definition leaf_sorted :: "leaf \<Rightarrow> bool" where
  "leaf_sorted l \<longleftrightarrow> sorted_wrt (<) (map (ent_rank l) (leaf_active l))"

definition slot_ok :: "bool \<Rightarrow> heap \<Rightarrow> leaf \<Rightarrow> nat \<Rightarrow> bool" where
  "slot_ok outer h l p \<longleftrightarrow>
     (let ik = ikey0 l ! p; kl = keylenx l ! p
      in if kl = layer_keylenx then True
         else if kl = ksuf_keylenx then (case ksuf_str h l p of Some s \<Rightarrow> s \<noteq> [] | None \<Rightarrow> False)
         else unat kl \<le> 8 \<and> (kl = 0 \<longrightarrow> outer) \<and> ik = ikey_of (take (unat kl) (ikey_bytes ik)))"

definition leaf_typed :: "leaf \<Rightarrow> bool" where
  "leaf_typed l \<longleftrightarrow> kp_wf leaf_width (permutation l) \<and> length (ikey0 l) = leaf_width
     \<and> length (keylenx l) = leaf_width \<and> length (lv l) = leaf_width"

definition leaf_ok :: "bool \<Rightarrow> heap \<Rightarrow> nat \<Rightarrow> nat \<Rightarrow> leaf \<Rightarrow> bool" where
  "leaf_ok outer h lo hi l \<longleftrightarrow> isleaf (vword l) \<and> \<not> dirty (vword l) \<and> \<not> deleted (vword l) \<and> leaf_typed l \<and> leaf_sorted l
     \<and> (\<forall>p \<in> set (leaf_active l). lo \<le> unat (ikey0 l ! p) \<and> unat (ikey0 l ! p) < hi \<and> slot_ok outer h l p)"

section \<open>Layers and the trie of layers\<close>

definition inode_bound :: "nat \<Rightarrow> nat \<Rightarrow> internode \<Rightarrow> nat \<Rightarrow> nat" where
  "inode_bound lo hi i k = (if k = 0 then lo else if k \<le> internode_size i then unat (ikeys i ! (k - 1)) else hi)"

definition inode_ok :: "nat \<Rightarrow> nat \<Rightarrow> internode \<Rightarrow> bool" where
  "inode_ok lo hi i \<longleftrightarrow> \<not> isleaf (vword i) \<and> \<not> dirty (vword i) \<and> internode_size i \<le> internode_width
     \<and> length (ikeys i) = internode_width \<and> length (child i) = internode_width + 1
     \<and> sorted_wrt (\<le>) (map (inode_bound lo hi i) [0..<internode_size i + 2])
     \<and> sorted_wrt (<) (take (internode_size i) (ikeys i))"

fun layer_ok :: "bool \<Rightarrow> nat \<Rightarrow> heap \<Rightarrow> nat \<Rightarrow> nat \<Rightarrow> u64 \<Rightarrow> bool" where
  "layer_ok outer ht h lo hi a =
     (case nodes h a of
        None \<Rightarrow> False
      | Some (Leaf l) \<Rightarrow> leaf_ok outer h lo hi l
      | Some (Internode i) \<Rightarrow>
          (case ht of 0 \<Rightarrow> False
           | Suc ht' \<Rightarrow> inode_ok lo hi i
               \<and> (\<forall>k \<in> set [0..<internode_size i + 1]. child i ! k \<noteq> 0
                    \<and> layer_ok outer ht' h (inode_bound lo hi i k) (inode_bound lo hi i (k + 1)) (child i ! k))))"

fun leaves :: "nat \<Rightarrow> heap \<Rightarrow> u64 \<Rightarrow> u64 list" where
  "leaves ht h a =
     (case nodes h a of
        None \<Rightarrow> []
      | Some (Leaf l) \<Rightarrow> [a]
      | Some (Internode i) \<Rightarrow>
          (case ht of 0 \<Rightarrow> []
           | Suc ht' \<Rightarrow> concat (map (leaves ht' h) (take (internode_size i + 1) (child i)))))"

declare layer_ok.simps [simp del] leaves.simps [simp del]

definition slot_entries :: "(u64 \<Rightarrow> (bytes \<times> u64) list) \<Rightarrow> heap \<Rightarrow> leaf \<Rightarrow> nat \<Rightarrow> (bytes \<times> u64) list" where
  "slot_entries sub h l p =
     (let b = ikey_bytes (ikey0 l ! p); kl = keylenx l ! p
      in if kl = layer_keylenx then map (map_prod ((@) b) id) (sub (lv l ! p))
         else if kl = ksuf_keylenx then (case ksuf_str h l p of Some s \<Rightarrow> [(b @ s, lv l ! p)] | None \<Rightarrow> [])
         else [(take (unat kl) b, lv l ! p)])"

definition leaf_entries :: "(u64 \<Rightarrow> (bytes \<times> u64) list) \<Rightarrow> heap \<Rightarrow> u64 \<Rightarrow> (bytes \<times> u64) list" where
  "leaf_entries sub h b =
     (case leaf_at h b of None \<Rightarrow> [] | Some l \<Rightarrow> concat (map (slot_entries sub h l) (leaf_active l)))"

text \<open>The layers below a root; \<open>d\<close> bounds the number of layers, \<open>ht\<close> the height of each.\<close>

fun trie_ok :: "nat \<Rightarrow> nat \<Rightarrow> bool \<Rightarrow> heap \<Rightarrow> u64 \<Rightarrow> bool" where
  "trie_ok 0 ht outer h a = False"
| "trie_ok (Suc d) ht outer h a =
     (case reach_root (Suc ht) h a of
        None \<Rightarrow> False
      | Some (r, v) \<Rightarrow> layer_ok outer ht h 0 (2 ^ 64) r
          \<and> (\<forall>b \<in> set (leaves ht h r).
               case leaf_at h b of
                 None \<Rightarrow> False
               | Some l \<Rightarrow> (\<forall>p \<in> set (leaf_active l). keylenx l ! p = layer_keylenx \<longrightarrow> trie_ok d ht False h (lv l ! p))))"

fun trie_entries :: "nat \<Rightarrow> nat \<Rightarrow> heap \<Rightarrow> u64 \<Rightarrow> (bytes \<times> u64) list" where
  "trie_entries 0 ht h a = []"
| "trie_entries (Suc d) ht h a =
     (case reach_root (Suc ht) h a of
        None \<Rightarrow> []
      | Some (r, v) \<Rightarrow> concat (map (leaf_entries (trie_entries d ht h) h) (leaves ht h r)))"

text \<open>The heap with every leaf recovered.\<close>

fun recover_node :: "u64 \<Rightarrow> u64 \<Rightarrow> node \<Rightarrow> node" where
  "recover_node ge fe (Leaf l) = Leaf (lazy_recovery ge fe l)"
| "recover_node ge fe (Internode i) = Internode i"

definition recovered :: "heap \<Rightarrow> heap" where
  "recovered h = h\<lparr>nodes := \<lambda>a. map_option (recover_node (globalepoch h) (failedepoch h)) (nodes h a)\<rparr>"

section \<open>Recovery does not disturb the descent\<close>

lemma lazy_recovery_fields [simp]:
  "vword (lazy_recovery ge fe l) = vword l" "parent_ptr (lazy_recovery ge fe l) = parent_ptr l"
  by (simp_all add: lazy_recovery_def undo_incll_def recover_final_def update_epochs_def invalidate_cls_def
      recover_cl0_def recover_cl1_def recover_cl2_def)

lemma undo_incll_idem: "undo_incll ge fe (undo_incll ge fe l) = undo_incll ge fe l"
proof -
  have idle: "undo_incll ge fe (recover_final ge x) = recover_final ge x" for x
    by (simp add: undo_incll_def recover_final_def update_epochs_def invalidate_cls_def )
  show ?thesis by (simp add: undo_incll_def [of ge fe l] idle)
qed

lemma lazy_recovery_idem: "lazy_recovery ge fe (lazy_recovery ge fe l) = lazy_recovery ge fe l"
proof (cases "loggedepoch l \<le> fe \<and> loggedepoch (undo_incll ge fe l) \<le> fe")
  case True
  then show ?thesis by (simp add: lazy_recovery_def undo_incll_idem)
qed (auto simp: lazy_recovery_def)


lemma recover_node_fields [simp]:
  "node_vword (recover_node ge fe n) = node_vword n" "node_parent (recover_node ge fe n) = node_parent n"
  by (cases n; simp)+

lemma recovered_fields [simp]:
  "bags (recovered h) = bags h" "globalepoch (recovered h) = globalepoch h" "failedepoch (recovered h) = failedepoch h"
  "nodes (recovered h) a = map_option (recover_node (globalepoch h) (failedepoch h)) (nodes h a)"
  by (simp_all add: recovered_def)

lemma recovered_version [simp]: "node_version (recovered h) a = node_version h a"
  by (simp add: node_version_def option.map_comp comp_def)

lemma recovered_stable [simp]: "node_stable (recovered h) a = node_stable h a"
  by (simp add: node_stable_def)

lemma recovered_inode [simp]: "inode_at (recovered h) a = inode_at h a"
  by (simp add: inode_at_def split: option.split node.split)

lemma recovered_leaf: "leaf_at (recovered h) a = map_option (lazy_recovery (globalepoch h) (failedepoch h)) (leaf_at h a)"
  by (simp add: leaf_at_def split: option.split node.split)

lemma recovered_parent [simp]: "maybe_parent (recovered h) a = maybe_parent h a"
  by (cases "nodes h a") (simp_all add: maybe_parent_def)

lemma recovered_reach_root [simp]: "reach_root fuel (recovered h) = reach_root fuel h"
  by (induction fuel) (intro ext; simp cong: if_cong)+

lemma recovered_last_key [simp]: "internode_last_key_compare (recovered h) a ka v = internode_last_key_compare h a ka v"
  by (simp add: internode_last_key_compare_def Let_def cong: if_cong)

lemma recovered_reach_loop [simp]: "reach_loop fuel (recovered h) ka this = reach_loop fuel h ka this"
  by (induction fuel) (intro ext; simp add: Let_def cong: if_cong)+

lemma recovered_reach_leaf [simp]: "reach_leaf fuel (recovered h) ka this = reach_leaf fuel h ka this"
  by (simp add: reach_leaf_def)

lemma recovered_suffix [simp]: "ksuf_str (recovered h) l p = ksuf_str h l p"
  by (simp add: ksuf_str_def)

lemma recover_leaf_recovered:
  assumes "leaf_at (recovered h) b = Some l"
  shows "\<exists>h'. recover_leaf b h = Some h' \<and> leaf_at h' b = Some l \<and> bags h' = bags h \<and> recovered h' = recovered h"
proof -
  obtain l0 where l0: "leaf_at h b = Some l0" "l = lazy_recovery (globalepoch h) (failedepoch h) l0"
    using assms by (auto simp: recovered_leaf)
  then have n: "nodes h b = Some (Leaf l0)" by (auto simp: leaf_at_def split: option.splits node.splits)
  let ?h = "put_node b (Leaf l) h"
  have "recover_leaf b h = Some ?h" using l0 by (simp add: recover_leaf_def upd_leaf_def)
  moreover have "recovered ?h = recovered h"
    using n l0(2) by (auto simp: recovered_def put_node_def lazy_recovery_idem intro!: heap.equality)
  ultimately show ?thesis by (auto simp: put_node_def leaf_at_def)
qed

section \<open>Searching a leaf\<close>

lemma leaf_compare_rank:
  assumes "0 \<le> klen ka"
  shows "leaf_compare_key l ka p < 0 \<longleftrightarrow> key_rank ka < ent_rank l p"
    "leaf_compare_key l ka p = 0 \<longleftrightarrow> key_rank ka = ent_rank l p"
proof -
  let ?k = "unat (kikey ka)" and ?e = "unat (ikey0 l ! p)"
  have u: "uint (keylenx l ! p) = int (unat (keylenx l ! p))" by simp
  have u8: "uint (keylenx l ! p) \<le> 8 \<longleftrightarrow> unat (keylenx l ! p) \<le> 8" unfolding u by linarith
  have eq: "kikey ka = ikey0 l ! p \<longleftrightarrow> ?k = ?e" and less: "kikey ka < ikey0 l ! p \<longleftrightarrow> ?k < ?e"
    by (simp_all add: word_eq_iff_unsigned word_less_nat_alt)
  have "leaf_compare_key l ka p = (if ?k = ?e
      then if klen ka > 8 then of_bool (unat (keylenx l ! p) \<le> 8) else klen ka - int (unat (keylenx l ! p))
      else compare_u64 (kikey ka) (ikey0 l ! p))"
    by (simp only: leaf_compare_key_def compare_ikey_def Let_def compare_u64_sign(2) ikey_size_def eq) (simp add: u8)
  then have cmp: "leaf_compare_key l ka p = (if ?k < ?e then -1 else if ?e < ?k then 1
      else if klen ka > 8 then of_bool (unat (keylenx l ! p) \<le> 8) else klen ka - int (unat (keylenx l ! p)))"
    by (simp add: compare_u64_def eq less)
  consider "?k < ?e" | "?e < ?k" | "?k = ?e" by linarith
  then have "(leaf_compare_key l ka p < 0 \<longleftrightarrow> key_rank ka < ent_rank l p)
      \<and> (leaf_compare_key l ka p = 0 \<longleftrightarrow> key_rank ka = ent_rank l p)"
  proof cases
    case 1
    moreover have "key_rank ka < ent_rank l p" using 1 unfolding key_rank_def ent_rank_def by linarith
    ultimately show ?thesis by (simp add: cmp)
  next
    case 2
    moreover have "ent_rank l p < key_rank ka" using 2 unfolding key_rank_def ent_rank_def by linarith
    ultimately show ?thesis by (simp add: cmp)
  next
    case 3
    define n where "n = unat (keylenx l ! p)"
    show ?thesis unfolding cmp key_rank_def ent_rank_def n_def [symmetric] using 3 assms by (auto simp: of_bool_def split: if_splits)
  qed
  then show "leaf_compare_key l ka p < 0 \<longleftrightarrow> key_rank ka < ent_rank l p"
    "leaf_compare_key l ka p = 0 \<longleftrightarrow> key_rank ka = ent_rank l p" by blast+
qed

lemma leaf_sorted_for:
  assumes "leaf_sorted l" "0 \<le> klen ka"
  shows "sorted_for (leaf_perm l) (leaf_size l) (leaf_compare_key l ka)"
proof -
  have "ent_rank l (leaf_perm l i) < ent_rank l (leaf_perm l j)" if "i < j" "j < leaf_size l" for i j
    using assms(1) that by (auto simp: leaf_sorted_def leaf_active_def sorted_wrt_iff_nth_less)
  moreover have "leaf_compare_key l ka p \<le> 0 \<longleftrightarrow> key_rank ka \<le> ent_rank l p" for p
    using leaf_compare_rank [OF assms(2), of l p] by (auto simp: order_le_less)
  ultimately show ?thesis by (auto simp: sorted_for_def leaf_compare_rank [OF assms(2)] dest: order_le_less_trans)
qed

lemma leaf_lower_cases:
  assumes "leaf_sorted l" "0 \<le> klen ka"
  obtains i p where "leaf_lower l ka = (i, int p)" "i < leaf_size l" "p = leaf_perm l i" "p \<in> set (leaf_active l)"
      "ent_rank l p = key_rank ka" "\<And>q. q \<in> set (leaf_active l) \<Longrightarrow> ent_rank l q = key_rank ka \<Longrightarrow> q = p"
  | i where "leaf_lower l ka = (i, -1)" "i \<le> leaf_size l" "\<And>j. j < i \<Longrightarrow> ent_rank l (leaf_perm l j) < key_rank ka"
      "\<And>j. i \<le> j \<Longrightarrow> j < leaf_size l \<Longrightarrow> key_rank ka < ent_rank l (leaf_perm l j)"
      "\<And>q. q \<in> set (leaf_active l) \<Longrightarrow> ent_rank l q \<noteq> key_rank ka"
proof -
  note rank = leaf_compare_rank [OF assms(2), of l]
  have pos: "0 < leaf_compare_key l ka p \<longleftrightarrow> ent_rank l p < key_rank ka" for p
    using rank [of p] by linarith
  obtain i x where ix: "leaf_lower l ka = (i, x)" by fastforce
  have at: "lower_at (leaf_perm l) (leaf_size l) (leaf_compare_key l ka) (i, x)"
    using binary.lower_law [OF leaf_sorted_for [OF assms]] ix by (simp add: leaf_lower_def)
  have act: "q \<in> set (leaf_active l) \<longleftrightarrow> (\<exists>j<leaf_size l. q = leaf_perm l j)" for q
    by (auto simp: leaf_active_def)
  show ?thesis
  proof (cases "x < 0")
    case True
    then have x: "x = -1" and b: "\<And>j. j < i \<Longrightarrow> ent_rank l (leaf_perm l j) < key_rank ka"
      and a: "\<And>j. i \<le> j \<Longrightarrow> j < leaf_size l \<Longrightarrow> key_rank ka < ent_rank l (leaf_perm l j)" and il: "i \<le> leaf_size l"
      using at rank pos by (auto simp: lower_at_def)
    have ne: "ent_rank l q \<noteq> key_rank ka" if q: "q \<in> set (leaf_active l)" for q
    proof -
      obtain j where "j < leaf_size l" "q = leaf_perm l j" using q act [of q] by blast
      then show ?thesis using a [of j] b [of j] by (cases "j < i") auto
    qed
    show ?thesis by (rule that(2) [OF _ il b a ne]) (simp_all add: ix x)
  next
    case False
    then have x: "x = int (leaf_perm l i)" "i < leaf_size l" "ent_rank l (leaf_perm l i) = key_rank ka"
      and b: "\<And>j. j < i \<Longrightarrow> ent_rank l (leaf_perm l j) < key_rank ka"
      and a: "\<And>j. i < j \<Longrightarrow> j < leaf_size l \<Longrightarrow> key_rank ka < ent_rank l (leaf_perm l j)"
      using at rank pos by (auto simp: lower_at_def)
    have un: "q = leaf_perm l i" if q: "q \<in> set (leaf_active l)" "ent_rank l q = key_rank ka" for q
    proof -
      obtain j where "j < leaf_size l" "q = leaf_perm l j" using q act [of q] by blast
      then show ?thesis using a [of j] b [of j] q(2) by (cases j i rule: linorder_cases) auto
    qed
    show ?thesis by (rule that(1) [OF _ x(2) refl _ x(3) un]) (use ix x act in auto)
  qed
qed

section \<open>Descending a layer\<close>

lemma leaf_at_iff: "leaf_at h a = Some l \<longleftrightarrow> nodes h a = Some (Leaf l)"
  by (auto simp: leaf_at_def split: option.splits node.splits)

lemma inode_at_iff: "inode_at h a = Some i \<longleftrightarrow> nodes h a = Some (Internode i)"
  by (auto simp: inode_at_def split: option.splits node.splits)

lemma has_changed_same [simp]: "\<not> has_changed v v"
  by (simp add: has_changed_def)

lemma inode_keys_less:
  assumes "inode_ok lo hi i" "j < k" "k < internode_size i"
  shows "ikeys i ! j < ikeys i ! k"
  using assms by (auto simp: inode_ok_def sorted_wrt_iff_nth_less)

lemma inode_bound_mono:
  assumes "inode_ok lo hi i" "j \<le> k" "k \<le> internode_size i + 1"
  shows "inode_bound lo hi i j \<le> inode_bound lo hi i k"
proof (cases "j = k")
  case False
  then show ?thesis using assms
    by (auto simp: inode_ok_def sorted_wrt_iff_nth_less simp del: upt_Suc dest!: spec [of _ j] spec [of _ k])
qed simp

lemma inode_bounds:
  assumes "inode_ok lo hi i" "k \<le> internode_size i"
  shows "lo \<le> inode_bound lo hi i k" "inode_bound lo hi i (k + 1) \<le> hi"
  using inode_bound_mono [OF assms(1), of 0 k] inode_bound_mono [OF assms(1), of "k + 1" "internode_size i + 1"] assms(2)
  by (auto simp: inode_bound_def)

text \<open>The child an internode sends a key to, and no other, has the key in its range.\<close>

lemma internode_upper_child:
  assumes "inode_ok lo hi i" "lo \<le> unat a" "unat a < hi"
  shows "internode_upper i a \<le> internode_size i"
    "k \<le> internode_size i \<Longrightarrow>
       inode_bound lo hi i k \<le> unat a \<and> unat a < inode_bound lo hi i (k + 1) \<longleftrightarrow> k = internode_upper i a"
proof -
  let ?u = "internode_upper i a" and ?n = "internode_size i"
  have cmp: "internode_compare_key i a p < 0 \<longleftrightarrow> unat a < unat (ikeys i ! p)"
    "internode_compare_key i a p \<le> 0 \<longleftrightarrow> unat a \<le> unat (ikeys i ! p)" for p
    by (auto simp: internode_compare_key_def compare_u64_def word_less_nat_alt word_le_nat_alt simp flip: word_unat_eq_iff)
  have "sorted_for (\<lambda>p. p) ?n (internode_compare_key i a)"
    using inode_keys_less [OF assms(1)] by (auto simp: sorted_for_def cmp word_less_nat_alt dest: order_le_less_trans)
  then have "upper_at (\<lambda>p. p) ?n (internode_compare_key i a) ?u"
    using binary.upper_law by (simp add: internode_upper_def)
  then have u: "?u \<le> ?n" and below: "\<And>p. p < ?u \<Longrightarrow> unat (ikeys i ! p) \<le> unat a"
    and above: "\<And>p. ?u \<le> p \<Longrightarrow> p < ?n \<Longrightarrow> unat a < unat (ikeys i ! p)"
    by (auto simp: upper_at_def cmp not_less simp flip: not_less)
  show "?u \<le> ?n" by (rule u)
  assume k: "k \<le> ?n"
  have "inode_bound lo hi i k \<le> unat a" if "k \<le> ?u"
    using that u assms(2) below [of "k - 1"] by (auto simp: inode_bound_def)
  moreover have "unat a < inode_bound lo hi i k" if "?u < k"
    using that k above [of "k - 1"] by (auto simp: inode_bound_def)
  moreover have "unat a < inode_bound lo hi i (k + 1)" if "?u \<le> k"
    using that k above [of k] assms(3) by (auto simp: inode_bound_def)
  moreover have "inode_bound lo hi i (k + 1) \<le> unat a" if "k < ?u"
    using that u below [of k] by (auto simp: inode_bound_def)
  ultimately show "inode_bound lo hi i k \<le> unat a \<and> unat a < inode_bound lo hi i (k + 1) \<longleftrightarrow> k = ?u"
    by (metis linorder_neqE_nat linorder_not_less order_refl)
qed

lemma leaf_ok_mono: "leaf_ok outer h lo hi l \<Longrightarrow> lo' \<le> lo \<Longrightarrow> hi \<le> hi' \<Longrightarrow> leaf_ok outer h lo' hi' l"
  by (fastforce simp: leaf_ok_def)

lemma layer_ok_leaf: "nodes h a = Some (Leaf l) \<Longrightarrow> layer_ok outer ht h lo hi a = leaf_ok outer h lo hi l"
  "nodes h a = Some (Leaf l) \<Longrightarrow> leaves ht h a = [a]"
  by (simp_all add: layer_ok.simps leaves.simps)

lemma layer_ok_inode:
  assumes "nodes h a = Some (Internode i)" "layer_ok outer ht h lo hi a"
  obtains ht' where "ht = Suc ht'" "inode_ok lo hi i"
    "\<And>k. k \<le> internode_size i \<Longrightarrow> child i ! k \<noteq> 0
       \<and> layer_ok outer ht' h (inode_bound lo hi i k) (inode_bound lo hi i (k + 1)) (child i ! k)"
    "set (leaves ht h a) = (\<Union>k \<le> internode_size i. set (leaves ht' h (child i ! k)))"
proof -
  obtain ht' where ht: "ht = Suc ht'" using assms by (auto simp: layer_ok.simps split: nat.splits)
  have ok: "inode_ok lo hi i" using assms ht by (simp add: layer_ok.simps)
  then have "length (child i) > internode_size i" by (auto simp: inode_ok_def)
  then have "set (take (internode_size i + 1) (child i)) = (\<lambda>k. child i ! k) ` {..internode_size i}"
    by (auto simp: nth_image [symmetric] take_map atMost_atLeast0 simp flip: atLeastLessThanSuc_atLeastAtMost)
  then have "set (leaves ht h a) = (\<Union>k \<le> internode_size i. set (leaves ht' h (child i ! k)))"
    using assms(1) ht by (simp add: leaves.simps [of "Suc ht'" h a])
  moreover have "\<forall>k \<in> set [0..<internode_size i + 1]. child i ! k \<noteq> 0
      \<and> layer_ok outer ht' h (inode_bound lo hi i k) (inode_bound lo hi i (k + 1)) (child i ! k)"
    using assms ht by (simp add: layer_ok.simps [of outer "Suc ht'" h lo hi a] del: upt_Suc)
  ultimately show ?thesis using that [OF ht ok] by (simp add: less_Suc_eq_le del: upt_Suc)
qed

lemma layer_ok_cases:
  assumes "layer_ok outer ht h lo hi a"
  obtains l where "nodes h a = Some (Leaf l)" "leaf_ok outer h lo hi l" | i where "nodes h a = Some (Internode i)"
proof (cases "nodes h a")
  case None
  then show ?thesis using assms by (simp add: layer_ok.simps [of outer ht h lo hi a])
next
  case (Some n)
  then show ?thesis using assms that by (cases n) (simp_all add: layer_ok_leaf)
qed

lemma layer_ok_stable:
  assumes "layer_ok outer ht h lo hi a"
  shows "\<exists>v. node_version h a = Some v \<and> node_stable h a = Some v"
  using layer_ok_cases [OF assms]
proof cases
  case (1 l)
  then show ?thesis by (simp add: node_stable_def node_version_def leaf_ok_def)
next
  case (2 i)
  then have "\<not> dirty (vword i)" using layer_ok_inode [OF 2 assms] by (auto simp: inode_ok_def)
  then show ?thesis using 2 by (simp add: node_stable_def node_version_def)
qed

lemma layer_leaf_ok:
  assumes "layer_ok outer ht h lo hi a" "b \<in> set (leaves ht h a)"
  shows "\<exists>l. leaf_at h b = Some l \<and> leaf_ok outer h lo hi l"
  using assms
proof (induction ht arbitrary: a lo hi)
  case 0
  show ?case
    using layer_ok_cases [OF 0(1)]
  proof cases
    case 1
    then show ?thesis using 0(2) by (auto simp: layer_ok_leaf leaf_at_iff)
  next
    case (2 i)
    then show ?thesis using 0(1) layer_ok_inode by blast
  qed
next
  case (Suc ht)
  show ?case
    using layer_ok_cases [OF Suc.prems(1)]
  proof cases
    case 1
    then show ?thesis using Suc.prems(2) by (auto simp: layer_ok_leaf leaf_at_iff)
  next
    case (2 i)
    note i = this
    obtain ok: "inode_ok lo hi i" and sub: "\<And>k. k \<le> internode_size i \<Longrightarrow>
        layer_ok outer ht h (inode_bound lo hi i k) (inode_bound lo hi i (k + 1)) (child i ! k)"
      and ls: "set (leaves (Suc ht) h a) = (\<Union>k \<le> internode_size i. set (leaves ht h (child i ! k)))"
      by (rule layer_ok_inode [OF i Suc.prems(1)]) blast
    then obtain k where k: "k \<le> internode_size i" "b \<in> set (leaves ht h (child i ! k))" using Suc.prems(2) by auto
    show ?thesis using Suc.IH [OF sub [OF k(1)] k(2)] inode_bounds [OF ok k(1)] leaf_ok_mono by blast
  qed
qed

lemma reach_loop_inode:
  assumes "nodes h a = Some (Internode i)" "inode_ok lo hi i" "child i ! internode_upper i (kikey ka) \<noteq> 0"
    "node_stable h (child i ! internode_upper i (kikey ka)) = Some vc"
  shows "reach_loop (Suc fuel) h ka this a (vword i) = reach_loop fuel h ka this (child i ! internode_upper i (kikey ka)) vc"
proof -
  have "inode_at h a = Some i" "node_version h a = Some (vword i)" "\<not> isleaf (vword i)"
    using assms(1,2) by (simp_all add: inode_at_iff node_version_def inode_ok_def)
  then show ?thesis using assms(3,4) by (simp add: Let_def)
qed

lemma reach_loop_leaf:
  assumes "layer_ok outer ht h lo hi a" "node_version h a = Some v"
    "lo \<le> unat (kikey ka)" "unat (kikey ka) < hi" "ht < fuel"
  shows "\<exists>b l. reach_loop fuel h ka this a v = Some (b, vword l) \<and> leaf_at h b = Some l \<and> b \<in> set (leaves ht h a)
    \<and> (\<forall>c lc p. c \<in> set (leaves ht h a) \<longrightarrow> leaf_at h c = Some lc \<longrightarrow> p \<in> set (leaf_active lc)
        \<longrightarrow> ikey0 lc ! p = kikey ka \<longrightarrow> c = b)"
  using assms
proof (induction fuel arbitrary: ht a v lo hi)
  case (Suc fuel)
  show ?case
    using layer_ok_cases [OF Suc.prems(1)]
  proof cases
    case (1 l)
    then have "v = vword l" "isleaf (vword l)" using Suc.prems(1,2) by (auto simp: node_version_def leaf_ok_def)
    then show ?thesis using 1 by (auto simp: layer_ok_leaf leaf_at_iff)
  next
    case (2 i)
    note i = this
    obtain ht' where ht: "ht = Suc ht'" and ok: "inode_ok lo hi i" and sub: "\<And>k. k \<le> internode_size i \<Longrightarrow> child i ! k \<noteq> 0
        \<and> layer_ok outer ht' h (inode_bound lo hi i k) (inode_bound lo hi i (k + 1)) (child i ! k)"
      and ls: "set (leaves ht h a) = (\<Union>k \<le> internode_size i. set (leaves ht' h (child i ! k)))"
      by (erule layer_ok_inode [OF i Suc.prems(1)])
    let ?u = "internode_upper i (kikey ka)"
    note up = internode_upper_child [OF ok Suc.prems(3,4)]
    have u: "?u \<le> internode_size i" "inode_bound lo hi i ?u \<le> unat (kikey ka)" "unat (kikey ka) < inode_bound lo hi i (?u + 1)"
      using up by auto
    let ?c = "child i ! ?u"
    have c: "?c \<noteq> 0" "layer_ok outer ht' h (inode_bound lo hi i ?u) (inode_bound lo hi i (?u + 1)) ?c" using sub [OF u(1)] by auto
    then obtain vc where vc: "node_version h ?c = Some vc" "node_stable h ?c = Some vc" using layer_ok_stable by blast
    have "v = vword i" using Suc.prems(2) i by (simp add: node_version_def)
    then have step: "reach_loop (Suc fuel) h ka this a v = reach_loop fuel h ka this ?c vc"
      using reach_loop_inode [OF i ok c(1) vc(2)] by simp
    have "ht' < fuel" using Suc.prems(5) ht by simp
    from Suc.IH [OF c(2) vc(1) u(2,3) this]
    obtain b l where b: "reach_loop fuel h ka this ?c vc = Some (b, vword l)" "leaf_at h b = Some l" "b \<in> set (leaves ht' h ?c)"
      and un: "\<forall>x lc p. x \<in> set (leaves ht' h ?c) \<longrightarrow> leaf_at h x = Some lc \<longrightarrow> p \<in> set (leaf_active lc)
        \<longrightarrow> ikey0 lc ! p = kikey ka \<longrightarrow> x = b"
      by (elim exE conjE)
    have "x = b" if x: "x \<in> set (leaves ht h a)" "leaf_at h x = Some lc" "p \<in> set (leaf_active lc)" "ikey0 lc ! p = kikey ka"
      for x lc p
    proof -
      obtain k where k: "k \<le> internode_size i" "x \<in> set (leaves ht' h (child i ! k))" using x(1) ls by auto
      then have "leaf_ok outer h (inode_bound lo hi i k) (inode_bound lo hi i (k + 1)) lc"
        using layer_leaf_ok [OF conjunct2 [OF sub [OF k(1)]] k(2)] x(2) by simp
      then have "inode_bound lo hi i k \<le> unat (kikey ka) \<and> unat (kikey ka) < inode_bound lo hi i (k + 1)"
        unfolding leaf_ok_def x(4) [symmetric] using x(3) by blast
      then have "k = ?u" using up(2) [OF k(1)] by blast
      then show ?thesis using un [rule_format, OF _ x(2-4)] k(2) by simp
    qed
    moreover have "b \<in> set (leaves ht h a)" using b(3) ls u(1) by auto
    ultimately show ?thesis unfolding step using b(1,2) by (intro exI conjI allI impI)
  qed
qed simp

section \<open>The strings of a slot\<close>

lemma ikey_bytes_length [simp]: "length (ikey_bytes ik) = 8"
  by (simp add: ikey_bytes_def)

lemma pad8_append [simp]: "length b = 8 \<Longrightarrow> pad8 (b @ s) = b"
  by (simp add: pad8_def)

lemma ikey_of_bytes [simp]: "ikey_of (ikey_bytes ik @ s) = ik" "ikey_of (ikey_bytes ik) = ik"
proof -
  have "ikey_of (ikey_bytes ik @ s) = ik" for s
    by (simp add: ikey_of_eq ikey_bytes_def flip: swap_load)
      (metis host_net_roundtrip host_to_net_order_def net_to_host_order_def)
  then show "ikey_of (ikey_bytes ik @ s) = ik" "ikey_of (ikey_bytes ik) = ik" by (metis, metis append_Nil2)
qed

lemma ikey_bytes_of [simp]: "ikey_bytes (ikey_of s) = pad8 s"
  by (simp add: ikey_bytes_def le_store_ikey)

definition str_rank :: "bytes \<Rightarrow> nat" where
  "str_rank s = unat (ikey_of s) * 10 + min (length s) 9"

lemma str_rank_eq: "str_rank s = str_rank t \<longleftrightarrow> ikey_of s = ikey_of t \<and> min (length s) 9 = min (length t) 9"
proof
  assume eq: "str_rank s = str_rank t"
  have "unat (ikey_of s) = str_rank s div 10" "unat (ikey_of t) = str_rank t div 10"
    "min (length s) 9 = str_rank s mod 10" "min (length t) 9 = str_rank t mod 10" by (simp_all add: str_rank_def)
  then show "ikey_of s = ikey_of t \<and> min (length s) 9 = min (length t) 9" using eq by (simp add: word_unat_eq_iff)
qed (simp add: str_rank_def)

lemma str_rank_short: "str_rank s = str_rank t \<Longrightarrow> length s \<le> 8 \<Longrightarrow> s = t"
proof -
  assume a: "str_rank s = str_rank t" "length s \<le> 8"
  then have l: "length t = length s" "pad8 s = pad8 t" by (auto simp: str_rank_eq ikey_of_inj min_def split: if_splits)
  then show "s = t" using a(2) pad_eq_prefix [of s t] by auto
qed

lemma str_rank_long: "str_rank s = str_rank t \<Longrightarrow> 8 < length s \<Longrightarrow> 8 < length t \<and> take 8 s = take 8 t"
  by (auto simp: str_rank_eq ikey_of_inj pad8_long min_def split: if_splits)

lemma key_rank_str: "key_wf ka \<Longrightarrow> key_rank ka = str_rank (key_str ka)"
  by (simp add: key_rank_def str_rank_def length_key_str) (simp add: key_wf_def)

definition long_sub :: "(u64 \<Rightarrow> (bytes \<times> u64) list) \<Rightarrow> leaf \<Rightarrow> nat \<Rightarrow> bool" where
  "long_sub sub l p \<longleftrightarrow> (keylenx l ! p = layer_keylenx \<longrightarrow> [] \<notin> fst ` set (sub (lv l ! p)))"

text \<open>A slot has only strings of its own rank.\<close>

lemma slot_entries_rank:
  assumes "slot_ok outer h l p" "long_sub sub l p" "(s, v) \<in> set (slot_entries sub h l p)"
  shows "str_rank s = ent_rank l p"
proof -
  let ?ik = "ikey0 l ! p" and ?kl = "keylenx l ! p"
  consider "?kl = layer_keylenx" | "?kl = ksuf_keylenx" "?kl \<noteq> layer_keylenx" | "?kl \<noteq> layer_keylenx" "?kl \<noteq> ksuf_keylenx" by blast
  then show ?thesis
  proof cases
    case 1
    then obtain t where "s = ikey_bytes ?ik @ t" "t \<noteq> []"
      using assms by (auto simp: slot_entries_def Let_def long_sub_def image_iff)
    then show ?thesis using 1 by (simp add: str_rank_def ent_rank_def layer_keylenx_def Suc_le_eq)
  next
    case 2
    then obtain t where "s = ikey_bytes ?ik @ t" "t \<noteq> []"
      using assms by (auto simp: slot_entries_def slot_ok_def Let_def split: option.splits)
    then show ?thesis using 2 by (simp add: str_rank_def ent_rank_def ksuf_keylenx_def Suc_le_eq)
  next
    case 3
    then have s: "s = take (unat ?kl) (ikey_bytes ?ik)" "unat ?kl \<le> 8" "?ik = ikey_of s"
      using assms by (auto simp: slot_entries_def slot_ok_def Let_def)
    then have "length s = unat ?kl" by (metis ikey_bytes_length length_take min.absorb2)
    then show ?thesis using s(3) by (simp add: str_rank_def ent_rank_def)
  qed
qed

lemma slot_entries_other:
  assumes "slot_ok outer h l p" "long_sub sub l p" "str_rank t \<noteq> ent_rank l p"
  shows "map_of (slot_entries sub h l p) t = None"
  using slot_entries_rank [OF assms(1,2), of t] assms(3) by (metis map_of_SomeD option.exhaust)

lemma map_of_prefix: "map_of (map (map_prod ((@) b) id) xs) (b @ u) = map_of xs u"
  by (induction xs) auto

lemma slot_entries_same:
  assumes "slot_ok outer h l p" "str_rank t = ent_rank l p" "key_wf ka" "key_str ka = t"
  shows "\<exists>m. ksuf_matches h l p ka = Some m
    \<and> (m < 0 \<longleftrightarrow> keylenx l ! p = layer_keylenx) \<and> (m < 0 \<longrightarrow> m = -8 \<and> has_suffix ka)
    \<and> map_of (slot_entries sub h l p) t
        = (if m < 0 then map_of (sub (lv l ! p)) (drop 8 t) else if m \<noteq> 0 then Some (lv l ! p) else None)"
proof -
  let ?ik = "ikey0 l ! p" and ?kl = "keylenx l ! p"
  have rk: "unat ?kl > 8 \<Longrightarrow> str_rank t = str_rank (ikey_bytes ?ik @ [0])"
    using assms(2) by (simp add: ent_rank_def str_rank_def)
  have long: "8 < length t \<and> t = ikey_bytes ?ik @ drop 8 t" if "unat ?kl > 8"
    using str_rank_long [OF rk [OF that, symmetric]] append_take_drop_id [of 8 t] by simp
  have suf: "key_suffix ka = drop 8 t"
    unfolding assms(4) [symmetric] by (simp add: key_suffix_def key_str_def drop_take ikey_size_def add.commute)
  consider "?kl = layer_keylenx" | "?kl = ksuf_keylenx" "?kl \<noteq> layer_keylenx" | "?kl \<noteq> layer_keylenx" "?kl \<noteq> ksuf_keylenx" by blast
  then show ?thesis
  proof cases
    case 1
    then have l: "8 < length t" "t = ikey_bytes ?ik @ drop 8 t" using long by (auto simp: layer_keylenx_def)
    have "map_of (slot_entries sub h l p) t = map_of (sub (lv l ! p)) (drop 8 t)"
      using 1 map_of_prefix [of "ikey_bytes ?ik" "sub (lv l ! p)" "drop 8 t"] l(2) by (simp add: slot_entries_def)
    moreover have "ksuf_matches h l p ka = Some (- 8)" using 1
      by (simp add: ksuf_matches_def layer_keylenx_def ksuf_keylenx_def ikey_size_def)
    ultimately show ?thesis using 1 l(1) has_suffix_str [OF assms(3)] assms(4) by simp
  next
    case 2
    then obtain s where s: "ksuf_str h l p = Some s" using assms(1) by (auto simp: slot_ok_def split: option.splits)
    have l: "t = ikey_bytes ?ik @ drop 8 t" using 2 long by (auto simp: ksuf_keylenx_def)
    have "map_of (slot_entries sub h l p) t = (if s = drop 8 t then Some (lv l ! p) else None)"
      using 2 s by (subst l) (auto simp: slot_entries_def)
    moreover have "ksuf_matches h l p ka = Some (of_bool (s = drop 8 t))"
      using 2 s suf by (simp add: ksuf_matches_def layer_keylenx_def ksuf_keylenx_def)
    ultimately show ?thesis using 2 by simp
  next
    case 3
    then have k: "unat ?kl \<le> 8" "?ik = ikey_of (take (unat ?kl) (ikey_bytes ?ik))"
      using assms(1) by (auto simp: slot_ok_def Let_def)
    have "str_rank (take (unat ?kl) (ikey_bytes ?ik)) = str_rank t"
      unfolding assms(2) using k by (simp add: str_rank_def ent_rank_def)
    then have "t = take (unat ?kl) (ikey_bytes ?ik)" by (metis str_rank_short length_take min.cobounded1 ikey_bytes_length)
    moreover have "?kl < ksuf_keylenx" using k(1) by (simp add: ksuf_keylenx_def word_less_nat_alt)
    ultimately show ?thesis using 3 by (simp add: slot_entries_def ksuf_matches_def)
  qed
qed

section \<open>Lookup\<close>

lemma reach_root_mono: "reach_root n h a = Some x \<Longrightarrow> n \<le> m \<Longrightarrow> reach_root m h a = Some x"
proof (induction n arbitrary: a m)
  case (Suc n)
  then obtain m' where "m = Suc m'" "n \<le> m'" by (cases m) auto
  then show ?case using Suc by (auto split: bind_splits if_splits)
qed simp

lemma reach_root_version: "reach_root n h a = Some (r, v) \<Longrightarrow> node_version h r = Some v"
  by (induction n arbitrary: a) (auto simp: node_stable_def split: bind_splits if_splits)

text \<open>What \<open>trie_ok\<close> says of the layer at a root.\<close>

lemma trie_okE:
  assumes "trie_ok d ht outer h a"
  obtains d' r v where "d = Suc d'" "reach_root (Suc ht) h a = Some (r, v)" "node_version h r = Some v"
    "layer_ok outer ht h 0 (2 ^ 64) r"
    "\<And>b l p. b \<in> set (leaves ht h r) \<Longrightarrow> leaf_at h b = Some l \<Longrightarrow> p \<in> set (leaf_active l)
       \<Longrightarrow> keylenx l ! p = layer_keylenx \<Longrightarrow> trie_ok d' ht False h (lv l ! p)"
proof (cases d)
  case (Suc d')
  then obtain r v where r: "reach_root (Suc ht) h a = Some (r, v)" using assms by (auto simp del: reach_root.simps split: option.splits)
  show ?thesis
    by (rule that [OF Suc r reach_root_version [OF r]])
      (use assms Suc r in \<open>auto simp del: reach_root.simps split: option.splits\<close>)
qed (use assms in simp)

lemma trie_entries_Suc: "reach_root (Suc ht) h a = Some (r, v) \<Longrightarrow>
    trie_entries (Suc d) ht h a = concat (map (leaf_entries (trie_entries d ht h) h) (leaves ht h r))"
  by (simp del: reach_root.simps)

lemma slot_nonempty:
  assumes "slot_ok False h l p" "s \<in> fst ` set (slot_entries sub h l p)"
  shows "s \<noteq> []"
proof -
  have "take (unat (keylenx l ! p)) (ikey_bytes ik) \<noteq> []" if "keylenx l ! p \<noteq> 0" for ik
    using that by (metis ikey_bytes_length length_0_conv list.size(3) take_eq_Nil unat_eq_zero zero_neq_numeral)
  moreover have "ikey_bytes ik \<noteq> []" for ik by (metis ikey_bytes_length list.size(3) zero_neq_numeral)
  ultimately show ?thesis using assms
    by (auto simp: slot_entries_def slot_ok_def Let_def split: if_splits option.splits)
qed

lemma layer_entry:
  assumes "layer_ok outer ht h 0 (2 ^ 64) r" "s \<in> fst ` set (concat (map (leaf_entries sub h) (leaves ht h r)))"
  obtains b l p where "b \<in> set (leaves ht h r)" "leaf_at h b = Some l" "p \<in> set (leaf_active l)" "slot_ok outer h l p"
    "s \<in> fst ` set (slot_entries sub h l p)"
proof -
  obtain b where b: "b \<in> set (leaves ht h r)" "s \<in> fst ` set (leaf_entries sub h b)" using assms(2) by auto
  then obtain l where l: "leaf_at h b = Some l" "leaf_ok outer h 0 (2 ^ 64) l" using layer_leaf_ok [OF assms(1)] by blast
  then obtain p where "p \<in> set (leaf_active l)" "s \<in> fst ` set (slot_entries sub h l p)"
    using b(2) by (auto simp: leaf_entries_def)
  then show ?thesis using that b(1) l by (simp add: leaf_ok_def)
qed

lemma trie_entries_nonempty:
  assumes "trie_ok d ht False h a" shows "[] \<notin> fst ` set (trie_entries d ht h a)"
proof
  assume e: "[] \<in> fst ` set (trie_entries d ht h a)"
  obtain d' r v where t: "d = Suc d'" "reach_root (Suc ht) h a = Some (r, v)" "layer_ok False ht h 0 (2 ^ 64) r"
    using trie_okE [OF assms] by metis
  show False
    by (rule layer_entry [OF t(3) e [unfolded t(1) trie_entries_Suc [OF t(2)]]]) (use slot_nonempty in blast)
qed

lemma map_of_concat_other:
  "(\<And>x. x \<in> set xs \<Longrightarrow> map_of (f x) t = None) \<Longrightarrow> map_of (concat (map f xs)) t = None"
  by (induction xs) (auto simp: map_add_def)

lemma map_of_concat_single:
  assumes "y \<in> set xs" "\<And>x. x \<in> set xs \<Longrightarrow> x \<noteq> y \<Longrightarrow> map_of (f x) t = None"
  shows "map_of (concat (map f xs)) t = map_of (f y) t"
  using assms
proof (induction xs)
  case (Cons x xs)
  show ?case
  proof (cases "y \<in> set xs")
    case True
    then show ?thesis using Cons by (cases "x = y") (auto simp: map_add_def split: option.splits)
  next
    case False
    then have "x = y" "map_of (concat (map f xs)) t = None" using Cons.prems map_of_concat_other [of xs f t] by auto
    then show ?thesis by (simp add: map_add_def split: option.split)
  qed
qed simp

text \<open>The contents of a layer at a key are those of the leaf the descent ends in.\<close>

lemma layer_lookup:
  assumes "layer_ok outer ht h 0 (2 ^ 64) r" "node_version h r = Some v" "ht < fuel" "key_wf ka"
    and long: "\<forall>b \<in> set (leaves ht h r). \<forall>l. leaf_at h b = Some l \<longrightarrow> (\<forall>p \<in> set (leaf_active l). long_sub sub l p)"
  obtains b l where "reach_loop fuel h ka this r v = Some (b, vword l)" "leaf_at h b = Some l" "b \<in> set (leaves ht h r)"
    "leaf_ok outer h 0 (2 ^ 64) l"
    "map_of (concat (map (leaf_entries sub h) (leaves ht h r))) (key_str ka)
      = map_of (concat (map (slot_entries sub h l) (leaf_active l))) (key_str ka)"
    "\<forall>c \<in> set (leaves ht h r). c \<noteq> b \<longrightarrow> map_of (leaf_entries sub h c) (key_str ka) = None"
proof -
  have hi: "unat (kikey ka) < 2 ^ 64" using unsigned_less [of "kikey ka", where 'a = nat] by simp
  obtain b l where b: "reach_loop fuel h ka this r v = Some (b, vword l)" "leaf_at h b = Some l" "b \<in> set (leaves ht h r)"
    and un: "\<forall>c lc p. c \<in> set (leaves ht h r) \<longrightarrow> leaf_at h c = Some lc \<longrightarrow> p \<in> set (leaf_active lc)
        \<longrightarrow> ikey0 lc ! p = kikey ka \<longrightarrow> c = b"
    using reach_loop_leaf [OF assms(1,2) _ hi assms(3), where this = this] by blast
  have ik: "kikey ka = ikey_of (key_str ka)" using assms(4) by (simp add: key_wf_def)
  have none: "map_of (leaf_entries sub h c) (key_str ka) = None" if c: "c \<in> set (leaves ht h r)" "c \<noteq> b" for c
  proof -
    obtain lc where lc: "leaf_at h c = Some lc" "leaf_ok outer h 0 (2 ^ 64) lc" using layer_leaf_ok [OF assms(1) c(1)] by blast
    have "map_of (slot_entries sub h lc p) (key_str ka) = None" if p: "p \<in> set (leaf_active lc)" for p
    proof (rule slot_entries_other)
      show "slot_ok outer h lc p" using lc(2) p by (simp add: leaf_ok_def)
      show "long_sub sub lc p" using long c(1) lc(1) p by blast
      have "ikey0 lc ! p \<noteq> kikey ka" using un c lc(1) p by blast
      then show "str_rank (key_str ka) \<noteq> ent_rank lc p" unfolding ik
        by (auto simp: str_rank_def ent_rank_def word_unat_eq_iff)
    qed
    then show ?thesis using lc(1) by (simp add: leaf_entries_def map_of_concat_other)
  qed
  have "map_of (concat (map (leaf_entries sub h) (leaves ht h r))) (key_str ka) = map_of (leaf_entries sub h b) (key_str ka)"
    by (rule map_of_concat_single [OF b(3) none])
  moreover have "leaf_ok outer h 0 (2 ^ 64) l" using layer_leaf_ok [OF assms(1) b(3)] b(2) by simp
  ultimately show ?thesis using that [OF b] none b(2) by (simp add: leaf_entries_def)
qed

text \<open>Looking a key up in a leaf: the slot found decides.\<close>

lemma leaf_lookup:
  assumes "leaf_ok outer h lo hi l" "key_wf ka" "\<forall>p \<in> set (leaf_active l). long_sub sub l p"
  defines "res \<equiv> map_of (concat (map (slot_entries sub h l) (leaf_active l))) (key_str ka)"
  obtains i where "leaf_lower l ka = (i, -1)" "res = None"
  | i p m where "leaf_lower l ka = (i, int p)" "p \<in> set (leaf_active l)" "ksuf_matches h l p ka = Some m"
      "m < 0 \<longleftrightarrow> keylenx l ! p = layer_keylenx" "m < 0 \<Longrightarrow> m = -8 \<and> has_suffix ka"
      "res = (if m < 0 then map_of (sub (lv l ! p)) (drop 8 (key_str ka)) else if m \<noteq> 0 then Some (lv l ! p) else None)"
proof -
  have l: "leaf_sorted l" "\<And>p. p \<in> set (leaf_active l) \<Longrightarrow> slot_ok outer h l p" using assms(1) by (simp_all add: leaf_ok_def)
  have rk: "key_rank ka = str_rank (key_str ka)" by (rule key_rank_str [OF assms(2)])
  have other: "map_of (slot_entries sub h l q) (key_str ka) = None"
    if "q \<in> set (leaf_active l)" "ent_rank l q \<noteq> key_rank ka" for q
    using slot_entries_other [OF l(2), of q sub "key_str ka"] assms(3) that rk by simp
  have "0 \<le> klen ka" using assms(2) by (simp add: key_wf_def)
  from leaf_lower_cases [OF l(1) this] show ?thesis
  proof cases
    case (1 i p)
    have "res = map_of (slot_entries sub h l p) (key_str ka)" unfolding res_def
      by (rule map_of_concat_single [OF 1(4)]) (use 1(6) other in blast)
    moreover obtain m where "ksuf_matches h l p ka = Some m" "m < 0 \<longleftrightarrow> keylenx l ! p = layer_keylenx"
      "m < 0 \<longrightarrow> m = -8 \<and> has_suffix ka" "map_of (slot_entries sub h l p) (key_str ka)
        = (if m < 0 then map_of (sub (lv l ! p)) (drop 8 (key_str ka)) else if m \<noteq> 0 then Some (lv l ! p) else None)"
      using slot_entries_same [OF l(2) [OF 1(4)] _ assms(2) refl, of sub] 1(5) rk by metis
    ultimately show ?thesis using that(2) 1(1,4) by auto
  next
    case (2 i)
    then show ?thesis using that(1) other unfolding res_def by (simp add: map_of_concat_other)
  qed
qed

lemma find_forward:
  assumes "leaf_at h b = Some l" "\<not> deleted (vword l)"
  shows "leaf_lower l ka = (i, -1) \<Longrightarrow> find_unlocked_forward (Suc f) ka root b (vword l) h = Some (0, 0, h)"
    "leaf_lower l ka = (i, int p) \<Longrightarrow> ksuf_matches h l p ka = Some m \<Longrightarrow>
       find_unlocked_forward (Suc f) ka root b (vword l) h
         = (if m < 0 then find_unlocked f (shift_by (nat (- m)) ka) (lv l ! p) h else Some (m, lv l ! p, h))"
  using assms by simp_all

lemma find_unlocked_lookup:
  assumes "trie_ok d ht outer (recovered h) root" "key_wf ka" "2 * d + ht + 1 \<le> fuel"
  shows "\<exists>m x h'. find_unlocked fuel ka root h = Some (m, x, h') \<and> recovered h' = recovered h
    \<and> (if m \<noteq> 0 then Some x else None) = map_of (trie_entries d ht (recovered h) root) (key_str ka)"
  using assms
proof (induction d arbitrary: fuel outer h root ka)
  case (Suc d)
  let ?R = "recovered h" and ?sub = "trie_entries d ht (recovered h)"
  obtain r v where root: "reach_root (Suc ht) ?R root = Some (r, v)" and ver: "node_version ?R r = Some v"
    and layer: "layer_ok outer ht ?R 0 (2 ^ 64) r"
    and below: "\<And>b l p. b \<in> set (leaves ht ?R r) \<Longrightarrow> leaf_at ?R b = Some l \<Longrightarrow> p \<in> set (leaf_active l)
       \<Longrightarrow> keylenx l ! p = layer_keylenx \<Longrightarrow> trie_ok d ht False ?R (lv l ! p)"
    by (rule trie_okE [OF Suc.prems(1)]) (metis Suc_inject)
  have long: "\<forall>b \<in> set (leaves ht ?R r). \<forall>l. leaf_at ?R b = Some l \<longrightarrow> (\<forall>p \<in> set (leaf_active l). long_sub ?sub l p)"
    using trie_entries_nonempty [OF below] by (simp add: long_sub_def)
  obtain f where f: "fuel = Suc (Suc f)" "Suc ht \<le> Suc f" "2 * d + ht + 1 \<le> f"
    using Suc.prems(3) by (cases fuel; cases "fuel - 1") auto
  obtain b l where b: "reach_loop (Suc f) ?R ka root r v = Some (b, vword l)" "leaf_at ?R b = Some l" "b \<in> set (leaves ht ?R r)"
      "leaf_ok outer ?R 0 (2 ^ 64) l"
    and res: "map_of (concat (map (leaf_entries ?sub ?R) (leaves ht ?R r))) (key_str ka)
      = map_of (concat (map (slot_entries ?sub ?R l) (leaf_active l))) (key_str ka)"
    by (rule layer_lookup [OF layer ver _ Suc.prems(2) long, of "Suc f"]) (use f in auto)
  have reach: "reach_leaf (Suc f) h ka root = Some (b, vword l)"
    using reach_root_mono [OF root f(2)] b(1) by (simp add: reach_leaf_def del: reach_root.simps reach_loop.simps)
  obtain h1 where h1: "recover_leaf b h = Some h1" "leaf_at h1 b = Some l" "bags h1 = bags h" "recovered h1 = ?R"
    using recover_leaf_recovered [OF b(2)] by blast
  have suf: "ksuf_matches h1 l p ka = ksuf_matches ?R l p ka" for p
    using h1(3) by (simp add: ksuf_matches_def ksuf_str_def Let_def cong: if_cong)
  have step: "find_unlocked fuel ka root h = find_unlocked_forward (Suc f) ka root b (vword l) h1"
    using reach h1(1) f(1) by simp
  have nd: "\<not> deleted (vword l)" using b(4) by (simp add: leaf_ok_def)
  have goal: "map_of (trie_entries (Suc d) ht ?R root) (key_str ka)
      = map_of (concat (map (slot_entries ?sub ?R l) (leaf_active l))) (key_str ka)"
    using trie_entries_Suc [OF root, of d] res by simp
  have "\<forall>p \<in> set (leaf_active l). long_sub ?sub l p" using long b(3,2) by blast
  from leaf_lookup [OF b(4) Suc.prems(2) this] show ?case
  proof cases
    case (1 i)
    then show ?thesis unfolding step goal by (simp add: find_forward [OF h1(2) nd] h1(4) del: find_unlocked_forward.simps)
  next
    case (2 i p m)
    show ?thesis
    proof (cases "m < 0")
      case False
      then show ?thesis unfolding step goal
        using 2(6) by (simp add: find_forward(2) [OF h1(2) nd 2(1)] suf 2(3) h1(4) del: find_unlocked_forward.simps)
    next
      case True
      then have m: "m = -8" "has_suffix ka" using 2(5) by auto
      note sh = shift_wf [OF Suc.prems(2) m(2)]
      have "find_unlocked_forward (Suc f) ka root b (vword l) h1 = find_unlocked f (shift ka) (lv l ! p) h1"
        using m(1) by (simp add: find_forward(2) [OF h1(2) nd 2(1)] suf 2(3) shift_by_8 del: find_unlocked_forward.simps)
      moreover have sub: "trie_ok d ht False (recovered h1) (lv l ! p)" using below [OF b(3,2) 2(2)] 2(4) True h1(4) by simp
      from Suc.IH [OF sub sh(1) f(3)] obtain m' x h' where "find_unlocked f (shift ka) (lv l ! p) h1 = Some (m', x, h')"
        "recovered h' = recovered h1"
        "(if m' \<noteq> 0 then Some x else None) = map_of (trie_entries d ht (recovered h1) (lv l ! p)) (key_str (shift ka))" by blast
      ultimately show ?thesis unfolding step goal using 2(6) True h1(4) sh(2) by (simp del: find_unlocked_forward.simps)
    qed
  qed
qed simp

text \<open>
  C1.  A lookup finds what the tree stores.  On any heap whose recovered form is a
  well-formed quiescent tree of layers, \<open>get\<close> returns, with enough fuel, the value stored
  under the string, and no value when there is none; the leaves it repairs on its way are
  repaired the way the recovery of the whole tree would.
\<close>

theorem table_get_refines_map:
  assumes "trie_ok d ht True (recovered h) root" "2 * d + ht + 1 \<le> fuel"
  shows "\<exists>h'. table_get fuel root s h = Some (map_of (trie_entries d ht (recovered h) root) s, h') \<and> recovered h' = recovered h"
proof -
  have k: "key_wf (str_key s)" "key_str (str_key s) = s" using key_string_wf [of 0 "length s" s] by (simp_all add: str_key_def)
  show ?thesis using find_unlocked_lookup [OF assms(1) k(1) assms(2)] k(2) by (fastforce simp: table_get_def)
qed

section \<open>A small tree\<close>

definition demo_leaf :: "bool \<Rightarrow> bytes list \<Rightarrow> u8 list \<Rightarrow> u64 list \<Rightarrow> leaf" where
  "demo_leaf rt ss kls vs = blank_leaf\<lparr>vword := (if rt then mark_root (nodeversion True) else nodeversion True),
     cl0_idx := invalid_idx, lv_cl1 := incll_lv_init 3, lv_cl2 := incll_lv_init 3, loggedepoch := 3,
     permutation := make_sorted leaf_width (length ss), ikey0 := map ikey_of ss @ replicate (leaf_width - length ss) 0,
     keylenx := kls @ replicate (leaf_width - length ss) 0, lv := vs @ replicate (leaf_width - length ss) 0\<rparr>"

definition demo_root :: internode where
  "demo_root = blank_internode\<lparr>vword := mark_root (nodeversion False), nkeys := 1, height := 1,
     ikeys := ikey_of [109] # replicate 14 0, child := [0x1000, 0x2000] @ replicate 14 0\<rparr>"

text \<open>The strings \<open>a\<close>, \<open>bbbbbbbbc\<close> and \<open>z\<close>; the value of \<open>z\<close> was changed in the failed epoch 5.\<close>

definition demo_a :: leaf where
  "demo_a = demo_leaf False [[97], [98, 98, 98, 98, 98, 98, 98, 98]] [1, 128] [0x10, 0x3000]"
definition demo_z :: leaf where
  "demo_z = demo_leaf False [[122]] [1] [0x20]"
definition demo_c :: leaf where
  "demo_c = demo_leaf True [[99]] [1] [0x30]"

definition demo_failed :: leaf where
  "demo_failed = (fst (save_cl1_2_update 5 0 demo_z))\<lparr>lv := 0x50 # replicate 13 0\<rparr>"

definition demo_heap :: heap where
  "demo_heap = \<lparr>nodes = [0x4000 \<mapsto> Internode demo_root, 0x1000 \<mapsto> Leaf demo_a, 0x2000 \<mapsto> Leaf demo_failed, 0x3000 \<mapsto> Leaf demo_c],
    bags = Map.empty, tinfo = demo_thread, region = pdata_init False 0, superpage = 0, globalepoch = 6, failedepoch = 5,
    elog = [], gc_callbacks = []\<rparr>"

lemma demo_leaf_fields:
  assumes "length ss \<le> 14" "length kls = length ss" "length vs = length ss"
  shows "leaf_active (demo_leaf rt ss kls vs) = [0..<length ss]" "leaf_typed (demo_leaf rt ss kls vs)"
    "p < length ss \<Longrightarrow> ikey0 (demo_leaf rt ss kls vs) ! p = ikey_of (ss ! p)"
    "p < length ss \<Longrightarrow> keylenx (demo_leaf rt ss kls vs) ! p = kls ! p"
    "p < length ss \<Longrightarrow> lv (demo_leaf rt ss kls vs) ! p = vs ! p"
proof -
  have sz: "kp_size (make_sorted 14 (length ss)) = length ss" using assms(1) by simp
  have "leaf_active (demo_leaf rt ss kls vs) = take (length ss) (slots 14 (make_sorted 14 (length ss)))"
    using assms(1) by (auto simp: leaf_active_def leaf_size_def leaf_perm_def demo_leaf_def leaf_width_def sz kp_at_slots intro!: nth_equalityI)
  then show "leaf_active (demo_leaf rt ss kls vs) = [0..<length ss]"
    using assms(1) by (simp add: slots_make_sorted)
qed (use assms in \<open>auto simp: demo_leaf_def leaf_typed_def leaf_width_def kp_wf_make nth_append\<close>)

lemma demo_leaf_version: "isleaf (vword (demo_leaf rt ss kls vs))" "\<not> dirty (vword (demo_leaf rt ss kls vs))"
   "\<not> deleted (vword (demo_leaf rt ss kls vs))"
  by (cases rt; simp add: demo_leaf_def; code_simp)+


lemma demo_incll: "recover_lv (lv_cl1 demo_failed) (lv demo_failed) = 0x20 # replicate 13 0"
  "cl_loggedepoch (lv_cl1 demo_failed) = 5" "is_cl_valid (lv_cl1 demo_failed)"
  by (simp add: demo_failed_def save_cl1_2_update_def demo_z_def demo_leaf_def Let_def update_epochs_def leaf_width_def key_mid_def,
      code_simp)+

lemma demo_recovered:
  defines "z \<equiv> lazy_recovery 6 5 demo_failed"
  shows "vword z = vword demo_z" "ikey0 z = ikey0 demo_z" "keylenx z = keylenx demo_z" "permutation z = permutation demo_z"
    "lv z = lv demo_z" "ksuf z = ksuf demo_z" "iksuf z = iksuf demo_z" "lazy_recovery 6 5 demo_a = demo_a" "lazy_recovery 6 5 demo_c = demo_c"
proof -
  have e: "loggedepoch demo_failed = 5" "cl0_idx demo_failed = invalid_idx"
    by (simp_all add: demo_failed_def save_cl1_2_update_def demo_z_def demo_leaf_def Let_def update_epochs_def leaf_width_def key_mid_def)
  have z: "z = recover_final 6 (recover_cl1 demo_failed)" 
    by (simp add: z_def lazy_recovery_def undo_incll_def e demo_incll)
  show "lv z = lv demo_z" by (simp add: z recover_final_def update_epochs_def invalidate_cls_def recover_cl1_def demo_incll demo_z_def demo_leaf_def leaf_width_def)
  show "vword z = vword demo_z" "ikey0 z = ikey0 demo_z" "keylenx z = keylenx demo_z"
    "permutation z = permutation demo_z" "ksuf z = ksuf demo_z" "iksuf z = iksuf demo_z"
    by (simp_all add: z recover_final_def update_epochs_def invalidate_cls_def recover_cl1_def demo_failed_def save_cl1_2_update_def Let_def demo_z_def demo_leaf_def)
  have i: "\<not> is_cl_valid (incll_lv_init 3)" by code_simp
  show "lazy_recovery 6 5 demo_a = demo_a" "lazy_recovery 6 5 demo_c = demo_c"
    using i by (simp_all add: lazy_recovery_def undo_incll_def demo_a_def demo_c_def demo_leaf_def)
qed

lemma demo_nodes:
  "nodes (recovered demo_heap) 0x4000 = Some (Internode demo_root)" "nodes (recovered demo_heap) 0x1000 = Some (Leaf demo_a)"
  "nodes (recovered demo_heap) 0x2000 = Some (Leaf (lazy_recovery 6 5 demo_failed))"
  "nodes (recovered demo_heap) 0x3000 = Some (Leaf demo_c)"
  by (simp_all add: demo_heap_def demo_recovered)

lemma ent_rank_less: "ikey0 l ! p < ikey0 l ! q \<Longrightarrow> ent_rank l p < ent_rank l q"
  unfolding ent_rank_def word_less_nat_alt by linarith

lemma leaf_ok_view:
  assumes "vword l = vword m" "ikey0 l = ikey0 m" "keylenx l = keylenx m" "permutation l = permutation m" "lv l = lv m"
    "ksuf l = ksuf m" "iksuf l = iksuf m"
  shows "leaf_ok outer h lo hi l = leaf_ok outer h lo hi m" "slot_entries sub h l = slot_entries sub h m"
    "leaf_active l = leaf_active m"
proof -
  show act: "leaf_active l = leaf_active m" using assms by (simp add: leaf_active_def leaf_perm_def leaf_size_def)
  have f: "ksuf_str h l = ksuf_str h m" "ent_rank l = ent_rank m" using assms by (auto simp: ksuf_str_def ent_rank_def)
  show "leaf_ok outer h lo hi l = leaf_ok outer h lo hi m"
    unfolding leaf_ok_def leaf_typed_def leaf_sorted_def slot_ok_def f act assms ..
  show "slot_entries sub h l = slot_entries sub h m" unfolding slot_entries_def f assms ..
qed

lemma demo_leaves:
  "leaf_ok True h 0 (unat (ikey_of [109])) demo_a"
  "leaf_ok True h (unat (ikey_of [109])) (2 ^ 64) demo_z"
  "leaf_ok False h 0 (2 ^ 64) demo_c"
proof -
  have top: "unat (x :: u64) < 2 ^ 64" for x using unsigned_less [of x, where 'a = nat] by simp
  have a: "leaf_active demo_a = [0, Suc 0]" "leaf_active demo_z = [0]" "leaf_active demo_c = [0]"
    by (simp_all add: demo_a_def demo_z_def demo_c_def demo_leaf_fields)
  have s: "slot_ok True h demo_a 0" "slot_ok True h demo_a (Suc 0)" "slot_ok True h demo_z 0" "slot_ok False h demo_c 0"
    by (simp_all add: demo_a_def demo_z_def demo_c_def demo_leaf_fields slot_ok_def Let_def layer_keylenx_def ksuf_keylenx_def
        ikey_of_inj pad8_def)
  have i: "ikey0 demo_a ! 0 = ikey_of [97]" "ikey0 demo_a ! Suc 0 = ikey_of ([98, 98, 98, 98, 98, 98, 98, 98])" "ikey0 demo_z ! 0 = ikey_of [122]"
    by (simp_all add: demo_a_def demo_z_def demo_leaf_fields)
  have o: "ikey_of [97] < ikey_of ([98, 98, 98, 98, 98, 98, 98, 98])" "ikey_of [97] < ikey_of [109]" "ikey_of ([98, 98, 98, 98, 98, 98, 98, 98]) < ikey_of [109]"
     "ikey_of [109] < ikey_of [122]" by (simp_all add: ikey_of_less pad8_def)
  have t: "leaf_typed l \<and> isleaf (vword l) \<and> \<not> dirty (vword l) \<and> \<not> deleted (vword l)" if "l \<in> {demo_a, demo_z, demo_c}" for l
    using that by (auto simp: demo_a_def demo_z_def demo_c_def demo_leaf_fields demo_leaf_version)
  show "leaf_ok True h 0 (unat (ikey_of [109])) demo_a" using t [of demo_a] o ent_rank_less [of demo_a 0 "Suc 0"]
    by (simp add: leaf_ok_def leaf_sorted_def a s i word_less_nat_alt)
  show "leaf_ok True h (unat (ikey_of [109])) (2 ^ 64) demo_z" using t [of demo_z] o(4) top [of "ikey_of [122]"]
    by (simp add: leaf_ok_def leaf_sorted_def a s i word_less_nat_alt)
  show "leaf_ok False h 0 (2 ^ 64) demo_c" using t [of demo_c] top [of "ikey0 demo_c ! 0"] by (simp add: leaf_ok_def leaf_sorted_def a s)
qed

text \<open>The shape of the small tree in any heap that holds its nodes.\<close>

lemma demo_inode:
  "is_root (vword demo_root)" "\<not> dirty (vword demo_root)" "\<not> isleaf (vword demo_root)" "is_root (vword demo_c)"
  "internode_size demo_root = 1" "child demo_root ! 0 = 0x1000" "child demo_root ! Suc 0 = 0x2000" "ikeys demo_root ! 0 = ikey_of [109]"
  "take (Suc (Suc 0)) (child demo_root) = [0x1000, 0x2000]"
  "length (ikeys demo_root) = 15" "length (child demo_root) = 16" "take (Suc 0) (ikeys demo_root) = [ikey_of [109]]"
proof -
  show "is_root (vword demo_root)" "\<not> dirty (vword demo_root)" "\<not> isleaf (vword demo_root)" "is_root (vword demo_c)"
    by (simp add: demo_root_def, code_simp)+ (simp add: demo_c_def demo_leaf_def, code_simp)
qed (simp_all add: demo_root_def internode_size_def)

lemma demo_slots:
  "leaf_active demo_a = [0, Suc 0]" "leaf_active (lazy_recovery 6 5 demo_failed) = [0]" "leaf_active demo_c = [0]"
  "keylenx demo_a ! 0 = 1" "keylenx demo_a ! Suc 0 = 128" "keylenx (lazy_recovery 6 5 demo_failed) ! 0 = 1" "keylenx demo_c ! 0 = 1"
  "lv demo_a ! Suc 0 = 0x3000"
  by (simp_all add: leaf_ok_view(3) [OF demo_recovered(1-7)] demo_recovered(3))
    (simp_all add: demo_a_def demo_z_def demo_c_def demo_leaf_fields)

lemma demo_shape:
  assumes demo_nodes: "nodes h 0x4000 = Some (Internode demo_root)" "nodes h 0x1000 = Some (Leaf demo_a)"
    "nodes h 0x2000 = Some (Leaf (lazy_recovery 6 5 demo_failed))" "nodes h 0x3000 = Some (Leaf demo_c)"
  shows "reach_root (Suc (Suc 0)) h 0x4000 = Some (0x4000, vword demo_root)"
    "reach_root (Suc (Suc 0)) h 0x3000 = Some (0x3000, vword demo_c)"
    "leaves (Suc 0) h 0x4000 = [0x1000, 0x2000]" "leaves (Suc 0) h 0x3000 = [0x3000]"
    "leaf_at h 0x1000 = Some demo_a" "leaf_at h 0x2000 = Some (lazy_recovery 6 5 demo_failed)" "leaf_at h 0x3000 = Some demo_c"
proof -
  have "node_stable h 0x4000 = Some (vword demo_root)" "node_stable h 0x3000 = Some (vword demo_c)"
    using demo_inode demo_leaves(3) [of h]
    by (simp_all add: node_stable_def node_version_def demo_nodes leaf_ok_def)
  then show "reach_root (Suc (Suc 0)) h 0x4000 = Some (0x4000, vword demo_root)"
    "reach_root (Suc (Suc 0)) h 0x3000 = Some (0x3000, vword demo_c)"
    using demo_inode by simp_all
  show "leaves (Suc 0) h 0x4000 = [0x1000, 0x2000]" "leaves (Suc 0) h 0x3000 = [0x3000]"
    by (simp_all add: leaves.simps [of "Suc 0"] demo_nodes demo_inode layer_ok_leaf)
qed (simp_all add: leaf_at_iff demo_nodes)

lemma demo_trie_at:
  assumes demo_nodes: "nodes h 0x4000 = Some (Internode demo_root)" "nodes h 0x1000 = Some (Leaf demo_a)"
    "nodes h 0x2000 = Some (Leaf (lazy_recovery 6 5 demo_failed))" "nodes h 0x3000 = Some (Leaf demo_c)"
  shows "trie_ok (Suc (Suc 0)) (Suc 0) True h 0x4000"
    "trie_entries (Suc (Suc 0)) (Suc 0) h 0x4000 = [([97], 0x10), ([98, 98, 98, 98, 98, 98, 98, 98, 99], 0x30), ([122], 0x20)]"
proof -
  let ?m = "unat (ikey_of [109])"
  note v = leaf_ok_view [OF demo_recovered(1-7)] and shape = demo_shape [OF assms]
  have b: "inode_bound lo hi demo_root 0 = lo" "inode_bound lo hi demo_root (Suc 0) = ?m"
    "inode_bound lo hi demo_root (Suc (Suc 0)) = hi" for lo hi
    using demo_inode by (auto simp: inode_bound_def)
  have "?m < 2 ^ 64" using unsigned_less [of "ikey_of [109]", where 'a = nat] by simp
  then have "inode_ok 0 (2 ^ 64) demo_root" using demo_inode by (simp add: inode_ok_def b internode_width_def)
  then have layer: "layer_ok True (Suc 0) h 0 (2 ^ 64) 0x4000"
    using demo_leaves v(1) by (simp add: layer_ok.simps [of True "Suc 0"] demo_nodes demo_inode b layer_ok_leaf)
  have "trie_ok (Suc 0) (Suc 0) False h 0x3000"
    using shape(2,4) demo_leaves(3) [of h] by (simp add: shape demo_slots layer_keylenx_def demo_nodes layer_ok_leaf del: reach_root.simps)
  then show "trie_ok (Suc (Suc 0)) (Suc 0) True h 0x4000"
    using shape(1) layer by (simp add: shape(3-7) demo_slots layer_keylenx_def del: reach_root.simps)
  have e: "slot_entries sub h demo_a 0 = [([97], 0x10)]" "slot_entries sub h demo_z 0 = [([122], 0x20)]"
    "slot_entries sub h demo_c 0 = [([99], 0x30)]"
    "slot_entries sub h demo_a (Suc 0) = map (map_prod ((@) [98, 98, 98, 98, 98, 98, 98, 98]) id) (sub 0x3000)" for sub
    by (simp_all add: slot_entries_def demo_a_def demo_z_def demo_c_def demo_leaf_fields layer_keylenx_def ksuf_keylenx_def Let_def pad8_def)
  show "trie_entries (Suc (Suc 0)) (Suc 0) h 0x4000 = [([97], 0x10), ([98, 98, 98, 98, 98, 98, 98, 98, 99], 0x30), ([122], 0x20)]"
    using shape(1,2) by (simp add: shape(3-7) leaf_entries_def demo_slots v(2) e del: reach_root.simps)
qed

lemmas demo_trie = demo_trie_at [OF demo_nodes]

theorem table_get_refines_map_witness:
  "(\<exists>h'. table_get 6 0x4000 [98, 98, 98, 98, 98, 98, 98, 98, 99] demo_heap = Some (Some 0x30, h'))
   \<and> (\<exists>h'. table_get 6 0x4000 [122] demo_heap = Some (Some 0x20, h'))"
proof -
  have f: "2 * Suc (Suc 0) + Suc 0 + 1 \<le> 6" by simp
  note get = table_get_refines_map [OF demo_trie(1) f, unfolded demo_trie(2)]
  show ?thesis using get [of "[122]"] get [of "[98, 98, 98, 98, 98, 98, 98, 98, 99]"] by auto
qed

end
