(* ===== verification/Tree_Update.thy ===== *)
theory Tree_Update
  imports Tree_Map
begin

text \<open>
  Changing one leaf.  An update, an insertion into a leaf with room and a removal that
  leaves the leaf non-empty store to one leaf only.  In a well-formed tree whose leaves are
  all different this changes the contents at exactly the sought string, and it keeps the
  tree well formed.
\<close>

section \<open>The leaves of a trie\<close>

definition slot_layers :: "(u64 \<Rightarrow> u64 list) \<Rightarrow> leaf \<Rightarrow> nat \<Rightarrow> u64 list" where
  "slot_layers sub l p = (if keylenx l ! p = layer_keylenx then sub (lv l ! p) else [])"

definition leaf_and_below :: "(u64 \<Rightarrow> u64 list) \<Rightarrow> heap \<Rightarrow> u64 \<Rightarrow> u64 list" where
  "leaf_and_below sub h b =
     b # (case leaf_at h b of None \<Rightarrow> [] | Some l \<Rightarrow> concat (map (slot_layers sub l) (leaf_active l)))"

fun trie_leaves :: "nat \<Rightarrow> nat \<Rightarrow> heap \<Rightarrow> u64 \<Rightarrow> u64 list" where
  "trie_leaves 0 ht h a = []"
| "trie_leaves (Suc d) ht h a =
     (case reach_root (Suc ht) h a of
        None \<Rightarrow> []
      | Some (r, v) \<Rightarrow> concat (map (leaf_and_below (trie_leaves d ht h) h) (leaves ht h r)))"

text \<open>The leaf a key ends in, the rest of the key there and the rank and slot found in it.\<close>

fun trie_find :: "nat \<Rightarrow> nat \<Rightarrow> heap \<Rightarrow> u64 \<Rightarrow> key \<Rightarrow> (u64 \<times> key) option" where
  "trie_find 0 ht h a ka = None"
| "trie_find (Suc d) ht h a ka =
     do { (b, v) \<leftarrow> reach_leaf (Suc ht) h ka a;
          l \<leftarrow> leaf_at h b;
          let p = snd (leaf_lower l ka);
          if p \<ge> 0 \<and> keylenx l ! nat p = layer_keylenx then trie_find d ht h (lv l ! nat p) (shift ka)
          else Some (b, ka) }"

section \<open>Lists\<close>

lemma map_of_concat_update:
  assumes "distinct xs" "y \<in> set xs" "\<And>x. x \<in> set xs \<Longrightarrow> x \<noteq> y \<Longrightarrow> g x = f x \<and> map_of (f x) t = None"
    "map_of (g y) = (map_of (f y))(t := r)"
  shows "map_of (concat (map g xs)) = (map_of (concat (map f xs)))(t := r)"
  using assms
proof (induction xs)
  case (Cons x xs)
  show ?case
  proof (cases "x = y")
    case True
    then have "map g xs = map f xs" using Cons.prems by (intro map_cong) auto
    then have eq: "concat (map g xs) = concat (map f xs)" by (simp only:)
    have no: "map_of (concat (map f xs)) t = None" by (rule map_of_concat_other) (use Cons.prems True in auto)
    show ?thesis
    proof
      fix u
      show "map_of (concat (map g (x # xs))) u = ((map_of (concat (map f (x # xs))))(t := r)) u"
        using eq no Cons.prems(4) True by (cases "u = t") (auto simp: map_add_def split: option.split)
    qed
  next
    case False
    then have "g x = f x" "map_of (f x) t = None" using Cons.prems(3) [of x] by auto
    moreover have "map_of (concat (map g xs)) = (map_of (concat (map f xs)))(t := r)"
      by (rule Cons.IH) (use Cons.prems False in auto)
    ultimately show ?thesis by (auto simp: map_add_def fun_eq_iff split: option.split)
  qed
qed simp

lemma map_of_concat_insert:
  assumes "\<And>x. x \<in> set (xs @ ys) \<Longrightarrow> map_of (f x) t = None" "f p = [(t, v)]"
  shows "map_of (concat (map f (xs @ p # ys))) = (map_of (concat (map f (xs @ ys))))(t \<mapsto> v)"
proof -
  have "map_of (concat (map f xs)) t = None" using map_of_concat_other [of xs f t] assms(1) by simp
  then show ?thesis using assms(2) by (auto simp: map_add_def fun_eq_iff split: option.split)
qed

lemma map_of_concat_delete:
  assumes "\<And>x. x \<in> set (xs @ ys) \<Longrightarrow> map_of (f x) t = None" "\<And>u. u \<noteq> t \<Longrightarrow> map_of (f p) u = None"
  shows "map_of (concat (map f (xs @ ys))) = (map_of (concat (map f (xs @ p # ys))))(t := None)"
proof -
  have "map_of (concat (map f xs)) t = None" "map_of (concat (map f ys)) t = None"
    using map_of_concat_other [of xs f t] map_of_concat_other [of ys f t] assms(1) by simp_all
  then show ?thesis using assms(2) by (auto simp: map_add_def fun_eq_iff split: option.split)
qed

lemma distinct_concat_other:
  assumes "distinct (concat (map f xs))" "y \<in> set xs" "n \<in> set (f y)" "x \<in> set xs" "x \<noteq> y"
  shows "n \<notin> set (f x)"
  using assms by (induction xs) auto

lemma distinct_concat_elem: "distinct (concat (map f xs)) \<Longrightarrow> x \<in> set xs \<Longrightarrow> distinct (f x)"
  by (induction xs) auto

lemma distinct_concat_nth:
  assumes "distinct (concat (map f xs))" "i < length xs" "j < length xs" "i \<noteq> j"
  shows "set (f (xs ! i)) \<inter> set (f (xs ! j)) = {}"
  using assms
proof (induction xs arbitrary: i j)
  case (Cons x xs)
  show ?case
  proof (cases i; cases j)
    fix k assume "i = 0" "j = Suc k"
    then show ?thesis using Cons.prems by (auto simp: disjoint_iff dest!: bspec [OF _ nth_mem])
  next
    fix k assume "i = Suc k" "j = 0"
    then show ?thesis using Cons.prems by (auto simp: disjoint_iff dest!: bspec [OF _ nth_mem])
  qed (use Cons in auto)
qed simp

lemma distinct_concat_keys:
  "distinct (concat (map f xs)) \<Longrightarrow> (\<And>x. x \<in> set xs \<Longrightarrow> f x \<noteq> []) \<Longrightarrow> distinct xs"
  by (induction xs) (auto, metis Int_iff empty_iff list.set_sel(1) UN_I)

section \<open>Storing to one leaf\<close>

text \<open>Two heaps that differ in the leaf \<open>n\<close> only, which keeps its place in the tree.\<close>

definition leaf_change :: "u64 \<Rightarrow> leaf \<Rightarrow> leaf \<Rightarrow> heap \<Rightarrow> heap \<Rightarrow> bool" where
  "leaf_change n l l' h g \<longleftrightarrow> nodes h n = Some (Leaf l) \<and> nodes g = (nodes h)(n \<mapsto> Leaf l') \<and> bags g = bags h
     \<and> is_root (vword l') = is_root (vword l) \<and> \<not> dirty (vword l) \<and> \<not> dirty (vword l') \<and> parent_ptr l' = parent_ptr l"

lemma leaf_change_nodes:
  assumes "leaf_change n l l' h g"
  shows "nodes h n = Some (Leaf l)" "nodes g n = Some (Leaf l')" "a \<noteq> n \<Longrightarrow> nodes g a = nodes h a"
    "inode_at g a = inode_at h a" "a \<noteq> n \<Longrightarrow> leaf_at g a = leaf_at h a" "leaf_at g n = Some l'" "leaf_at h n = Some l"
    "maybe_parent g a = maybe_parent h a" "ksuf_str g x p = ksuf_str h x p"
  using assms by (auto simp: leaf_change_def inode_at_def leaf_at_def maybe_parent_def ksuf_str_def)

lemma leaf_change_slot_ok [simp]:
  assumes "leaf_change n l l' h g" shows "slot_ok outer g x p = slot_ok outer h x p" "slot_entries sub g x = slot_entries sub h x"
    "leaf_ok outer g lo hi x = leaf_ok outer h lo hi x"
proof -
  have k: "ksuf_str g x = ksuf_str h x" using leaf_change_nodes(9) [OF assms] by blast
  show s: "slot_ok outer g x p = slot_ok outer h x p" for p unfolding slot_ok_def k ..
  show "slot_entries sub g x = slot_entries sub h x" unfolding slot_entries_def k ..
  show "leaf_ok outer g lo hi x = leaf_ok outer h lo hi x" by (simp add: leaf_ok_def s)
qed

lemma leaf_change_stable:
  assumes "leaf_change n l l' h g" "node_stable h a = Some v"
  shows "\<exists>v'. node_stable g a = Some v' \<and> is_root v' = is_root v"
  using assms by (cases "a = n") (auto simp: leaf_change_def node_stable_def node_version_def split: bind_splits if_splits)

lemma leaf_change_root:
  assumes "leaf_change n l l' h g" "reach_root m h a = Some (r, v)"
  shows "\<exists>v'. reach_root m g a = Some (r, v')"
  using assms(2)
proof (induction m arbitrary: a)
  case (Suc m)
  then obtain w where w: "node_stable h a = Some w" by (auto split: bind_splits)
  obtain w' where w': "node_stable g a = Some w'" "is_root w' = is_root w" using leaf_change_stable [OF assms(1) w] by blast
  show ?case using Suc w w' leaf_change_nodes(8) [OF assms(1), of a] by (auto split: bind_splits if_splits)
qed simp

lemma leaves_cases:
  "nodes h a = None \<Longrightarrow> leaves m h a = []" "nodes h a = Some (Leaf l) \<Longrightarrow> leaves m h a = [a]"
  "nodes h a = Some (Internode i) \<Longrightarrow> leaves 0 h a = []"
  "nodes h a = Some (Internode i) \<Longrightarrow> leaves (Suc m) h a = concat (map (leaves m h) (take (internode_size i + 1) (child i)))"
  by (subst leaves.simps, simp)+

lemma leaf_change_leaves:
  assumes "leaf_change n l l' h g" shows "leaves m g = leaves m h"
proof (induction m)
  case 0
  have "leaves 0 g a = leaves 0 h a" for a
    using leaf_change_nodes(1-3) [OF assms] by (cases "a = n"; cases "nodes h a"; cases "the (nodes h a)") (simp_all add: leaves_cases)
  then show ?case by blast
next
  case (Suc m)
  have "leaves (Suc m) g a = leaves (Suc m) h a" for a
    using leaf_change_nodes(1-3) [OF assms] Suc by (cases "a = n"; cases "nodes h a"; cases "the (nodes h a)") (simp_all add: leaves_cases)
  then show ?case by blast
qed

lemma leaf_change_layer_other:
  assumes "leaf_change n l l' h g" "n \<notin> set (leaves m h a)" "layer_ok outer m h lo hi a"
  shows "layer_ok outer m g lo hi a"
  using assms(2,3)
proof (induction m arbitrary: a lo hi)
  case 0
  from layer_ok_cases [OF 0(2)] show ?case
  proof cases
    case (1 x)
    then have "a \<noteq> n" using 0(1) by (auto simp: layer_ok_leaf)
    then show ?thesis using 1 leaf_change_nodes(3) [OF assms(1)] assms(1) by (simp add: layer_ok_leaf)
  next
    case (2 i)
    then show ?thesis using 0(2) layer_ok_inode by blast
  qed
next
  case (Suc m)
  from layer_ok_cases [OF Suc.prems(2)] show ?case
  proof cases
    case (1 x)
    then have "a \<noteq> n" using Suc.prems(1) by (auto simp: layer_ok_leaf)
    then show ?thesis using 1 leaf_change_nodes(3) [OF assms(1)] assms(1) by (simp add: layer_ok_leaf)
  next
    case (2 i)
    then have "a \<noteq> n" using leaf_change_nodes(1) [OF assms(1)] by auto
    then have i: "nodes g a = Some (Internode i)" using 2 leaf_change_nodes(3) [OF assms(1)] by simp
    obtain ok: "inode_ok lo hi i" and sub: "\<And>k. k \<le> internode_size i \<Longrightarrow> child i ! k \<noteq> 0
        \<and> layer_ok outer m h (inode_bound lo hi i k) (inode_bound lo hi i (k + 1)) (child i ! k)"
      and ls: "set (leaves (Suc m) h a) = (\<Union>k \<le> internode_size i. set (leaves m h (child i ! k)))"
      by (rule layer_ok_inode [OF 2 Suc.prems(2)]) blast
    have "child i ! k \<noteq> 0 \<and> layer_ok outer m g (inode_bound lo hi i k) (inode_bound lo hi i (k + 1)) (child i ! k)"
      if "k \<le> internode_size i" for k
      using Suc.IH [of "child i ! k"] sub [OF that] ls Suc.prems(1) that by auto
    then show ?thesis using ok i by (simp add: layer_ok.simps [of outer "Suc m"] less_Suc_eq_le del: upt_Suc)
  qed
qed


text \<open>The leaf a key is sent to may take any content that fits where the key fits.\<close>

lemma leaf_change_layer:
  assumes ch: "leaf_change n l l' h g"
    and new: "\<And>lo hi. leaf_ok outer h lo hi l \<Longrightarrow> lo \<le> unat (kikey ka) \<Longrightarrow> unat (kikey ka) < hi \<Longrightarrow> leaf_ok outer h lo hi l'"
    and "layer_ok outer m h lo hi a" "distinct (leaves m h a)" "node_version h a = Some v"
    and "lo \<le> unat (kikey ka)" "unat (kikey ka) < hi" "reach_loop fuel h ka this a v = Some (n, v')" "m < fuel"
  shows "layer_ok outer m g lo hi a"
  using assms(3-)
proof (induction m arbitrary: a lo hi v fuel)
  case (Suc m)
  from layer_ok_cases [OF Suc.prems(1)] show ?case
  proof cases
    case (1 x)
    obtain f where "fuel = Suc f" using Suc.prems(7) by (cases fuel) auto
    then have "a = n" using 1 Suc.prems(3,6) by (auto simp: node_version_def leaf_ok_def)
    then show ?thesis using 1 new [OF _ Suc.prems(4,5)] leaf_change_nodes(1,2) [OF ch] ch by (simp add: layer_ok_leaf)
  next
    case (2 i)
    then have "a \<noteq> n" using leaf_change_nodes(1) [OF ch] by auto
    then have i: "nodes g a = Some (Internode i)" using 2 leaf_change_nodes(3) [OF ch] by simp
    obtain ok: "inode_ok lo hi i" and sub: "\<And>k. k \<le> internode_size i \<Longrightarrow> child i ! k \<noteq> 0
        \<and> layer_ok outer m h (inode_bound lo hi i k) (inode_bound lo hi i (k + 1)) (child i ! k)"
      by (rule layer_ok_inode [OF 2 Suc.prems(1)]) blast
    let ?u = "internode_upper i (kikey ka)"
    note up = internode_upper_child [OF ok Suc.prems(4,5)]
    have u: "?u \<le> internode_size i" "inode_bound lo hi i ?u \<le> unat (kikey ka)" "unat (kikey ka) < inode_bound lo hi i (?u + 1)"
      using up by auto
    obtain vc where vc: "node_version h (child i ! ?u) = Some vc" "node_stable h (child i ! ?u) = Some vc"
      using layer_ok_stable sub [OF u(1)] by blast
    obtain f where f: "fuel = Suc f" "m < f" using Suc.prems(7) by (cases fuel) auto
    have "v = vword i" using Suc.prems(3) 2 by (simp add: node_version_def)
    then have reach: "reach_loop f h ka this (child i ! ?u) vc = Some (n, v')"
      using reach_loop_inode [OF 2 ok conjunct1 [OF sub [OF u(1)]] vc(2)] Suc.prems(6) f(1) by simp
    have len: "internode_size i < length (child i)" using ok by (auto simp: inode_ok_def)
    have ls: "distinct (concat (map (leaves m h) (take (internode_size i + 1) (child i))))"
      using Suc.prems(2) 2 by (simp add: leaves_cases)
    have mem: "child i ! k \<in> set (take (internode_size i + 1) (child i))" if "k \<le> internode_size i" for k
      using that len by (auto simp: in_set_conv_nth intro!: exI [of _ k])
    have dist: "distinct (leaves m h (child i ! ?u))" by (rule distinct_concat_elem [OF ls mem [OF u(1)]])
    have inn: "n \<in> set (leaves m h (child i ! ?u))"
      using reach_loop_leaf [OF conjunct2 [OF sub [OF u(1)]] vc(1) u(2,3) f(2), where this = this] reach by auto
    have "child i ! k \<noteq> 0 \<and> layer_ok outer m g (inode_bound lo hi i k) (inode_bound lo hi i (k + 1)) (child i ! k)"
      if k: "k \<le> internode_size i" for k
    proof (cases "k = ?u")
      case True
      then show ?thesis using Suc.IH [OF conjunct2 [OF sub [OF u(1)]] dist vc(1) u(2,3) reach f(2)] sub [OF k] by simp
    next
      case False
      have "n \<notin> set (leaves m h (child i ! k))"
      proof
        assume n: "n \<in> set (leaves m h (child i ! k))"
        let ?xs = "take (internode_size i + 1) (child i)"
        have "?xs ! k = child i ! k" "?xs ! ?u = child i ! ?u" "k < length ?xs" "?u < length ?xs" using k u(1) len by auto
        then show False using distinct_concat_nth [OF ls, of k ?u] False n inn by (simp add: disjoint_iff)
      qed
      then show ?thesis using leaf_change_layer_other [OF ch _ conjunct2 [OF sub [OF k]]] sub [OF k] by simp
    qed
    then show ?thesis using ok i by (simp add: layer_ok.simps [of outer "Suc m"] less_Suc_eq_le del: upt_Suc)
  qed
next
  case 0
  from layer_ok_cases [OF 0(1)] show ?case
  proof cases
    case (1 x)
    obtain f where "fuel = Suc f" using 0(7) by (cases fuel) auto
    then have "a = n" using 1 0(3,6) by (auto simp: node_version_def leaf_ok_def)
    then show ?thesis using 1 new [OF _ 0(4,5)] leaf_change_nodes(1,2) [OF ch] ch by (simp add: layer_ok_leaf)
  next
    case (2 i)
    then show ?thesis using 0(1) layer_ok_inode by blast
  qed
qed

section \<open>The trie after the change\<close>

lemma trie_leaves_Suc: "reach_root (Suc ht) h a = Some (r, v) \<Longrightarrow>
    trie_leaves (Suc d) ht h a = concat (map (leaf_and_below (trie_leaves d ht h) h) (leaves ht h r))"
  by (simp del: reach_root.simps)

lemma leaf_and_below_eq: "leaf_at h b = Some l \<Longrightarrow>
    leaf_and_below sub h b = b # concat (map (slot_layers sub l) (leaf_active l))"
  by (simp add: leaf_and_below_def)

lemma trie_ok_Suc:
  assumes "reach_root (Suc ht) h a = Some (r, v)" "layer_ok outer ht h 0 (2 ^ 64) r"
    "\<And>b l p. b \<in> set (leaves ht h r) \<Longrightarrow> leaf_at h b = Some l \<Longrightarrow> p \<in> set (leaf_active l)
       \<Longrightarrow> keylenx l ! p = layer_keylenx \<Longrightarrow> trie_ok d ht False h (lv l ! p)"
  shows "trie_ok (Suc d) ht outer h a"
proof -
  have "case leaf_at h b of None \<Rightarrow> False | Some l \<Rightarrow>
      \<forall>p \<in> set (leaf_active l). keylenx l ! p = layer_keylenx \<longrightarrow> trie_ok d ht False h (lv l ! p)"
    if "b \<in> set (leaves ht h r)" for b
    using layer_leaf_ok [OF assms(2) that] assms(3) [OF that] by (auto split: option.splits)
  then show ?thesis using assms(1,2) by (simp del: reach_root.simps)
qed

declare trie_ok.simps(2) [simp del] trie_entries.simps(2) [simp del] trie_leaves.simps(2) [simp del]

lemma leaf_change_entries:
  assumes ch: "leaf_change n l l' h g" and "b \<noteq> n" "leaf_at h b = Some x"
    "\<And>p. p \<in> set (leaf_active x) \<Longrightarrow> keylenx x ! p = layer_keylenx \<Longrightarrow> sub' (lv x ! p) = sub (lv x ! p)"
  shows "leaf_entries sub' g b = leaf_entries sub h b"
proof -
  have "slot_entries sub' g x p = slot_entries sub h x p" if "p \<in> set (leaf_active x)" for p
    using assms(4) [OF that] by (simp add: leaf_change_slot_ok [OF ch]) (simp add: slot_entries_def Let_def)
  then have "map (slot_entries sub' g x) (leaf_active x) = map (slot_entries sub h x) (leaf_active x)" by simp
  moreover have "leaf_at g b = Some x" using assms(2,3) leaf_change_nodes(5) [OF ch] by simp
  ultimately show ?thesis using assms(3) by (simp only: leaf_entries_def option.case)
qed

lemma leaf_change_below:
  assumes ch: "leaf_change n l l' h g" and "b \<noteq> n" "leaf_at h b = Some x"
    "\<And>p. p \<in> set (leaf_active x) \<Longrightarrow> keylenx x ! p = layer_keylenx \<Longrightarrow> sub' (lv x ! p) = sub (lv x ! p)"
  shows "leaf_and_below sub' g b = leaf_and_below sub h b"
proof -
  have "map (slot_layers sub' x) (leaf_active x) = map (slot_layers sub x) (leaf_active x)"
    using assms(4) by (simp add: slot_layers_def)
  moreover have "leaf_at g b = Some x" using assms(2,3) leaf_change_nodes(5) [OF ch] by simp
  ultimately show ?thesis using assms(3) by (simp only: leaf_and_below_eq)
qed

lemma trie_change_other:
  assumes ch: "leaf_change n l l' h g"
  shows "trie_ok d ht outer h a \<Longrightarrow> n \<notin> set (trie_leaves d ht h a) \<Longrightarrow>
    trie_ok d ht outer g a \<and> trie_entries d ht g a = trie_entries d ht h a \<and> trie_leaves d ht g a = trie_leaves d ht h a"
proof (induction d arbitrary: outer a)
  case (Suc d)
  obtain r v where root: "reach_root (Suc ht) h a = Some (r, v)" and layer: "layer_ok outer ht h 0 (2 ^ 64) r"
    and below: "\<And>b l p. b \<in> set (leaves ht h r) \<Longrightarrow> leaf_at h b = Some l \<Longrightarrow> p \<in> set (leaf_active l)
       \<Longrightarrow> keylenx l ! p = layer_keylenx \<Longrightarrow> trie_ok d ht False h (lv l ! p)"
    by (rule trie_okE [OF Suc.prems(1)]) (metis Suc_inject)
  obtain v' where root': "reach_root (Suc ht) g a = Some (r, v')" using leaf_change_root [OF ch root] by blast
  have ls: "leaves ht g r = leaves ht h r" by (simp add: leaf_change_leaves [OF ch])
  have nb: "n \<notin> set (leaf_and_below (trie_leaves d ht h) h b)" if "b \<in> set (leaves ht h r)" for b
    using Suc.prems(2) that by (simp add: trie_leaves_Suc [OF root])
  have nl: "b \<noteq> n" if "b \<in> set (leaves ht h r)" for b using nb [OF that] by (auto simp: leaf_and_below_def)
  have IH: "trie_ok d ht False g (lv x ! p) \<and> trie_entries d ht g (lv x ! p) = trie_entries d ht h (lv x ! p)
      \<and> trie_leaves d ht g (lv x ! p) = trie_leaves d ht h (lv x ! p)"
    if x: "b \<in> set (leaves ht h r)" "leaf_at h b = Some x" "p \<in> set (leaf_active x)" "keylenx x ! p = layer_keylenx" for b x p
  proof (rule Suc.IH [OF below [OF x]])
    show "n \<notin> set (trie_leaves d ht h (lv x ! p))" using nb [OF x(1)] x by (auto simp: leaf_and_below_eq slot_layers_def)
  qed
  have "layer_ok outer ht g 0 (2 ^ 64) r" using leaf_change_layer_other [OF ch _ layer] nl by blast
  then have "trie_ok (Suc d) ht outer g a"
    by (rule trie_ok_Suc [OF root']) (use IH nl leaf_change_nodes(5) [OF ch] ls in auto)
  moreover have ent: "leaf_entries (trie_entries d ht g) g b = leaf_entries (trie_entries d ht h) h b"
      "leaf_and_below (trie_leaves d ht g) g b = leaf_and_below (trie_leaves d ht h) h b" if b: "b \<in> set (leaves ht h r)" for b
  proof -
    obtain x where x: "leaf_at h b = Some x" using layer_leaf_ok [OF layer b] by blast
    show "leaf_entries (trie_entries d ht g) g b = leaf_entries (trie_entries d ht h) h b"
      by (rule leaf_change_entries [OF ch nl [OF b] x]) (use IH [OF b x] in blast)
    show "leaf_and_below (trie_leaves d ht g) g b = leaf_and_below (trie_leaves d ht h) h b"
      by (rule leaf_change_below [OF ch nl [OF b] x]) (use IH [OF b x] in blast)
  qed
  then have "map (leaf_entries (trie_entries d ht g) g) (leaves ht h r) = map (leaf_entries (trie_entries d ht h) h) (leaves ht h r)"
    "map (leaf_and_below (trie_leaves d ht g) g) (leaves ht h r) = map (leaf_and_below (trie_leaves d ht h) h) (leaves ht h r)"
    by simp_all
  then have "trie_entries (Suc d) ht g a = trie_entries (Suc d) ht h a" "trie_leaves (Suc d) ht g a = trie_leaves (Suc d) ht h a"
    unfolding trie_entries_Suc [OF root] trie_entries_Suc [OF root'] trie_leaves_Suc [OF root] trie_leaves_Suc [OF root'] ls
    by (simp_all only:)
  ultimately show ?case by blast
qed simp

text \<open>
  What a change of the leaf a key ends in must do: it keeps the leaf well formed, adds no
  layer, and changes the leaf's own contents at the rest of the key only.
\<close>

definition good_change :: "heap \<Rightarrow> leaf \<Rightarrow> leaf \<Rightarrow> key \<Rightarrow> u64 option \<Rightarrow> bool" where
  "good_change h l l' ka res \<longleftrightarrow>
     (\<forall>outer lo hi. leaf_ok outer h lo hi l \<longrightarrow> lo \<le> unat (kikey ka) \<longrightarrow> unat (kikey ka) < hi \<longrightarrow> (outer \<or> key_str ka \<noteq> [])
        \<longrightarrow> leaf_ok outer h lo hi l')
     \<and> (\<forall>p \<in> set (leaf_active l'). keylenx l' ! p = layer_keylenx
          \<longrightarrow> p \<in> set (leaf_active l) \<and> keylenx l ! p = layer_keylenx \<and> lv l' ! p = lv l ! p)
     \<and> (\<forall>outer sub. leaf_ok outer h 0 (2 ^ 64) l \<longrightarrow> (\<forall>p \<in> set (leaf_active l). long_sub sub l p) \<longrightarrow>
          map_of (concat (map (slot_entries sub h l') (leaf_active l')))
            = (map_of (concat (map (slot_entries sub h l) (leaf_active l))))(key_str ka := res))
     \<and> (\<forall>sub. concat (map (slot_layers sub l') (leaf_active l')) = concat (map (slot_layers sub l) (leaf_active l)))"

lemma shift_nonempty: "key_wf ka \<Longrightarrow> has_suffix ka \<Longrightarrow> key_str (shift ka) \<noteq> []"
  by (simp add: shift_wf(2) has_suffix_str)

lemma leaf_entries_nil: "leaf_ok outer h lo hi x \<Longrightarrow> p \<in> set (leaf_active x) \<Longrightarrow> long_sub sub x p \<Longrightarrow>
    q \<in> set (leaf_active x) \<Longrightarrow> long_sub sub x q \<Longrightarrow> ent_rank x p = str_rank t \<Longrightarrow> ent_rank x q \<noteq> ent_rank x p \<Longrightarrow> map_of (slot_entries sub h x q) t = None"
  by (rule slot_entries_other) (auto simp: leaf_ok_def)

lemma leaf_active_distinct:
  assumes "leaf_ok outer h lo hi x"
  shows "distinct (leaf_active x)" "\<And>p q. p \<in> set (leaf_active x) \<Longrightarrow> q \<in> set (leaf_active x) \<Longrightarrow> ent_rank x p = ent_rank x q \<Longrightarrow> p = q"
proof -
  have "distinct (map (ent_rank x) (leaf_active x))"
    using assms strict_sorted_iff by (fastforce simp: leaf_ok_def leaf_sorted_def)
  then show "distinct (leaf_active x)" "\<And>p q. p \<in> set (leaf_active x) \<Longrightarrow> q \<in> set (leaf_active x) \<Longrightarrow> ent_rank x p = ent_rank x q \<Longrightarrow> p = q"
    by (auto simp: distinct_map inj_on_def)
qed


lemma map_of_prefix_eq:
  "map_of (map (map_prod ((@) b) id) xs) t = (if take (length b) t = b then map_of xs (drop (length b) t) else None)"
proof (induction xs)
  case (Cons x xs)
  have "b @ fst x = t \<longleftrightarrow> take (length b) t = b \<and> fst x = drop (length b) t" by (metis append_eq_conv_conj)
  then show ?case using Cons by (cases x) auto
qed simp

lemma map_of_prefix_update:
  assumes "map_of ys = (map_of xs)(drop (length b) t := r)" "take (length b) t = b"
  shows "map_of (map (map_prod ((@) b) id) ys) = (map_of (map (map_prod ((@) b) id) xs))(t := r)"
proof
  fix u
  have "drop (length b) u = drop (length b) t \<Longrightarrow> take (length b) u = b \<Longrightarrow> u = t" using assms(2) by (metis append_take_drop_id)
  then show "map_of (map (map_prod ((@) b) id) ys) u = ((map_of (map (map_prod ((@) b) id) xs))(t := r)) u"
    using assms by (auto simp: map_of_prefix_eq)
qed

text \<open>Where a key's search goes on: in a layer below the slot found, or nowhere.\<close>

lemma trie_find_cases:
  assumes "trie_ok (Suc d) ht outer h a" "key_wf ka" "trie_find (Suc d) ht h a ka = Some (n, ka')"
  obtains r v b x where "reach_root (Suc ht) h a = Some (r, v)" "node_version h r = Some v" "layer_ok outer ht h 0 (2 ^ 64) r"
    "reach_loop (Suc ht) h ka a r v = Some (b, vword x)" "leaf_at h b = Some x" "b \<in> set (leaves ht h r)"
    "leaf_ok outer h 0 (2 ^ 64) x"
    "\<And>b l p. b \<in> set (leaves ht h r) \<Longrightarrow> leaf_at h b = Some l \<Longrightarrow> p \<in> set (leaf_active l)
       \<Longrightarrow> keylenx l ! p = layer_keylenx \<Longrightarrow> trie_ok d ht False h (lv l ! p)"
    "\<forall>c \<in> set (leaves ht h r). c \<noteq> b \<longrightarrow> map_of (leaf_entries (trie_entries d ht h) h c) (key_str ka) = None"
    "\<forall>p \<in> set (leaf_active x). long_sub (trie_entries d ht h) x p"
    "b = n \<and> ka' = ka \<or> (\<exists>p. p \<in> set (leaf_active x) \<and> keylenx x ! p = layer_keylenx \<and> has_suffix ka
       \<and> ent_rank x p = str_rank (key_str ka) \<and> trie_find d ht h (lv x ! p) (shift ka) = Some (n, ka'))"
proof -
  obtain r v where root: "reach_root (Suc ht) h a = Some (r, v)" and ver: "node_version h r = Some v"
    and layer: "layer_ok outer ht h 0 (2 ^ 64) r"
    and below: "\<And>b l p. b \<in> set (leaves ht h r) \<Longrightarrow> leaf_at h b = Some l \<Longrightarrow> p \<in> set (leaf_active l)
       \<Longrightarrow> keylenx l ! p = layer_keylenx \<Longrightarrow> trie_ok d ht False h (lv l ! p)"
    by (rule trie_okE [OF assms(1)]) (metis Suc_inject)
  have long: "\<forall>b \<in> set (leaves ht h r). \<forall>l. leaf_at h b = Some l \<longrightarrow> (\<forall>p \<in> set (leaf_active l). long_sub (trie_entries d ht h) l p)"
    using trie_entries_nonempty [OF below] by (simp add: long_sub_def)
  obtain b x where b: "reach_loop (Suc ht) h ka a r v = Some (b, vword x)" "leaf_at h b = Some x" "b \<in> set (leaves ht h r)"
      "leaf_ok outer h 0 (2 ^ 64) x"
    and none: "\<forall>c \<in> set (leaves ht h r). c \<noteq> b \<longrightarrow> map_of (leaf_entries (trie_entries d ht h) h c) (key_str ka) = None"
    by (rule layer_lookup [OF layer ver _ assms(2) long, where fuel = "Suc ht" and this = a]) (simp, blast)
  have lf: "\<forall>p \<in> set (leaf_active x). long_sub (trie_entries d ht h) x p" using long b(3,2) by blast
  have "reach_leaf (Suc ht) h ka a = Some (b, vword x)"
    using root b(1) by (simp add: reach_leaf_def del: reach_root.simps reach_loop.simps)
  then have find: "trie_find (Suc d) ht h a ka = (let p = snd (leaf_lower x ka)
      in if p \<ge> 0 \<and> keylenx x ! nat p = layer_keylenx then trie_find d ht h (lv x ! nat p) (shift ka) else Some (b, ka))"
    using b(2) by simp
  have kl: "0 \<le> klen ka" using assms(2) by (simp add: key_wf_def)
  have "leaf_sorted x" using b(4) by (simp add: leaf_ok_def)
  from leaf_lower_cases [OF this kl] have fin: "b = n \<and> ka' = ka \<or> (\<exists>p. p \<in> set (leaf_active x) \<and> keylenx x ! p = layer_keylenx \<and> has_suffix ka
       \<and> ent_rank x p = str_rank (key_str ka) \<and> trie_find d ht h (lv x ! p) (shift ka) = Some (n, ka'))"
  proof cases
    case (1 i p)
    have rk: "ent_rank x p = str_rank (key_str ka)" using 1(5) key_rank_str [OF assms(2)] by simp
    have "has_suffix ka" if "keylenx x ! p = layer_keylenx"
      using rk that has_suffix_str [OF assms(2)] by (auto simp: ent_rank_def str_rank_def layer_keylenx_def min_def split: if_splits) presburger
    then show ?thesis using find assms(3) 1(1,4) rk by (auto simp: Let_def split: if_splits)
  next
    case (2 i)
    then show ?thesis using find assms(3) by simp
  qed
  show ?thesis by (rule that [OF root ver layer b]) (erule (3) below | rule none lf fin)+
qed


lemma below_self: "b \<in> set (leaf_and_below sub h b)"
  by (simp add: leaf_and_below_def)

lemma below_mem: "leaf_at h b = Some x \<Longrightarrow> p \<in> set (leaf_active x) \<Longrightarrow> keylenx x ! p = layer_keylenx \<Longrightarrow>
    set (sub (lv x ! p)) \<subseteq> set (leaf_and_below sub h b)"
  by (auto simp: leaf_and_below_eq slot_layers_def)

lemma trie_find_mem:
  assumes "trie_ok d ht outer h a" "key_wf ka" "trie_find d ht h a ka = Some (n, ka')"
  shows "n \<in> set (trie_leaves d ht h a)"
  using assms
proof (induction d arbitrary: outer a ka)
  case (Suc d)
  show ?case
  proof (rule trie_find_cases [OF Suc.prems])
    fix r v b x
    assume r: "reach_root (Suc ht) h a = Some (r, v)" and x: "leaf_at h b = Some x" and b: "b \<in> set (leaves ht h r)"
      and below: "\<And>b l p. b \<in> set (leaves ht h r) \<Longrightarrow> leaf_at h b = Some l \<Longrightarrow> p \<in> set (leaf_active l)
       \<Longrightarrow> keylenx l ! p = layer_keylenx \<Longrightarrow> trie_ok d ht False h (lv l ! p)"
      and c: "b = n \<and> ka' = ka \<or> (\<exists>p. p \<in> set (leaf_active x) \<and> keylenx x ! p = layer_keylenx \<and> has_suffix ka
       \<and> ent_rank x p = str_rank (key_str ka) \<and> trie_find d ht h (lv x ! p) (shift ka) = Some (n, ka'))"
    have "n \<in> set (leaf_and_below (trie_leaves d ht h) h b)"
      using c Suc.IH [OF below [OF b x] shift_wf(1) [OF Suc.prems(2)]] below_mem [OF x, of _ "trie_leaves d ht h"]
        below_self [of b "trie_leaves d ht h" h] by blast
    then show ?thesis using b by (auto simp: trie_leaves_Suc [OF r])
  qed
qed simp

text \<open>Storing to the leaf a key ends in changes the contents at that key and nowhere else.\<close>

lemma trie_change:
  assumes ch: "leaf_change n l l' h g" and good: "good_change h l l' ka' res"
  shows "trie_ok d ht outer h a \<Longrightarrow> distinct (trie_leaves d ht h a) \<Longrightarrow> key_wf ka \<Longrightarrow> outer \<or> key_str ka \<noteq> [] \<Longrightarrow>
    trie_find d ht h a ka = Some (n, ka') \<Longrightarrow>
    trie_ok d ht outer g a \<and> map_of (trie_entries d ht g a) = (map_of (trie_entries d ht h a))(key_str ka := res)
      \<and> trie_leaves d ht g a = trie_leaves d ht h a"
proof (induction d arbitrary: outer a ka)
  case (Suc d)
  let ?sub = "trie_entries d ht h" and ?sub' = "trie_entries d ht g" and ?lv = "trie_leaves d ht h" and ?lv' = "trie_leaves d ht g"
  show ?case
  proof (rule trie_find_cases [OF Suc.prems(1,3,5)])
    fix r v b x
    assume r: "reach_root (Suc ht) h a = Some (r, v)" and ver: "node_version h r = Some v" and layer: "layer_ok outer ht h 0 (2 ^ 64) r"
      and reach: "reach_loop (Suc ht) h ka a r v = Some (b, vword x)" and x: "leaf_at h b = Some x" and b: "b \<in> set (leaves ht h r)"
      and xok: "leaf_ok outer h 0 (2 ^ 64) x"
      and below: "\<And>b l p. b \<in> set (leaves ht h r) \<Longrightarrow> leaf_at h b = Some l \<Longrightarrow> p \<in> set (leaf_active l)
       \<Longrightarrow> keylenx l ! p = layer_keylenx \<Longrightarrow> trie_ok d ht False h (lv l ! p)"
      and none: "\<forall>c \<in> set (leaves ht h r). c \<noteq> b \<longrightarrow> map_of (leaf_entries ?sub h c) (key_str ka) = None"
      and long: "\<forall>p \<in> set (leaf_active x). long_sub ?sub x p"
      and c: "b = n \<and> ka' = ka \<or> (\<exists>p. p \<in> set (leaf_active x) \<and> keylenx x ! p = layer_keylenx \<and> has_suffix ka
       \<and> ent_rank x p = str_rank (key_str ka) \<and> trie_find d ht h (lv x ! p) (shift ka) = Some (n, ka'))"
    have dist: "distinct (concat (map (leaf_and_below ?lv h) (leaves ht h r)))" using Suc.prems(2) by (simp add: trie_leaves_Suc [OF r])
    then have dl: "distinct (leaves ht h r)" by (rule distinct_concat_keys) (simp add: leaf_and_below_def)
    have nb: "n \<in> set (leaf_and_below ?lv h b)"
      using c trie_find_mem [OF below [OF b x] shift_wf(1) [OF Suc.prems(3)]] below_mem [OF x, of _ ?lv] below_self [of b ?lv h] by blast
    have other: "n \<notin> set (leaf_and_below ?lv h y)" if "y \<in> set (leaves ht h r)" "y \<noteq> b" for y
      by (rule distinct_concat_other [OF dist b nb that])
    obtain v' where r': "reach_root (Suc ht) g a = Some (r, v')" using leaf_change_root [OF ch r] by blast
    have ls: "leaves ht g r = leaves ht h r" by (simp add: leaf_change_leaves [OF ch])
    have away: "trie_ok d ht False g (lv y ! p) \<and> ?sub' (lv y ! p) = ?sub (lv y ! p) \<and> ?lv' (lv y ! p) = ?lv (lv y ! p)"
      if "y' \<in> set (leaves ht h r)" "leaf_at h y' = Some y" "p \<in> set (leaf_active y)" "keylenx y ! p = layer_keylenx"
        "n \<notin> set (?lv (lv y ! p))" for y' y p
      by (rule trie_change_other [OF ch below [OF that(1-4)] that(5)])
    have rest: "leaf_entries ?sub' g y = leaf_entries ?sub h y" "leaf_and_below ?lv' g y = leaf_and_below ?lv h y"
      if y: "y \<in> set (leaves ht h r)" "y \<noteq> b" for y
    proof -
      obtain z where z: "leaf_at h y = Some z" using layer_leaf_ok [OF layer y(1)] by blast
      have yn: "y \<noteq> n" using other [OF y] by (auto simp: leaf_and_below_def)
      show "leaf_entries ?sub' g y = leaf_entries ?sub h y"
        by (rule leaf_change_entries [OF ch yn z]) (use away [OF y(1) z] below_mem [OF z, of _ ?lv] other [OF y] in blast)
      show "leaf_and_below ?lv' g y = leaf_and_below ?lv h y"
        by (rule leaf_change_below [OF ch yn z]) (use away [OF y(1) z] below_mem [OF z, of _ ?lv] other [OF y] in blast)
    qed
    have lay: "layer_ok outer ht g 0 (2 ^ 64) r \<and> (\<forall>y' y p. y' \<in> set (leaves ht h r) \<longrightarrow> leaf_at g y' = Some y \<longrightarrow>
          p \<in> set (leaf_active y) \<longrightarrow> keylenx y ! p = layer_keylenx \<longrightarrow> trie_ok d ht False g (lv y ! p))
        \<and> map_of (leaf_entries ?sub' g b) = (map_of (leaf_entries ?sub h b))(key_str ka := res)
        \<and> leaf_and_below ?lv' g b = leaf_and_below ?lv h b"
      using c
    proof
      assume bn: "b = n \<and> ka' = ka"
      then have xl: "x = l" using x leaf_change_nodes(7) [OF ch] by simp
      have own: "n \<notin> set (?lv (lv l ! p))" if "p \<in> set (leaf_active l)" "keylenx l ! p = layer_keylenx" for p
      proof -
        have "distinct (b # concat (map (slot_layers ?lv l) (leaf_active l)))"
          using distinct_concat_elem [OF dist b] leaf_and_below_eq [OF x, of ?lv] xl by simp
        then show ?thesis using bn that by (auto simp: slot_layers_def)
      qed
      have keep: "p \<in> set (leaf_active l) \<and> keylenx l ! p = layer_keylenx \<and> lv l' ! p = lv l ! p"
        if "p \<in> set (leaf_active l')" "keylenx l' ! p = layer_keylenx" for p
        using good that unfolding good_change_def by blast
      have sub: "trie_ok d ht False g (lv l' ! p) \<and> ?sub' (lv l' ! p) = ?sub (lv l' ! p) \<and> ?lv' (lv l' ! p) = ?lv (lv l' ! p)"
        if "p \<in> set (leaf_active l')" "keylenx l' ! p = layer_keylenx" for p
        using keep [OF that] away [OF b, of l p] own x xl by simp
      have "layer_ok outer ht g 0 (2 ^ 64) r"
      proof (rule leaf_change_layer [OF ch _ layer dl ver])
        show "reach_loop (Suc ht) h ka a r v = Some (n, vword x)" using reach bn by simp
        show "unat (kikey ka) < 2 ^ 64" using unsigned_less [of "kikey ka", where 'a = nat] by simp
        show "leaf_ok outer h lo hi l'" if "leaf_ok outer h lo hi l" "lo \<le> unat (kikey ka)" "unat (kikey ka) < hi" for lo hi
          using good that bn Suc.prems(4) unfolding good_change_def by blast
      qed simp_all
      moreover have "trie_ok d ht False g (lv y ! p)"
        if y: "y' \<in> set (leaves ht h r)" "leaf_at g y' = Some y" "p \<in> set (leaf_active y)" "keylenx y ! p = layer_keylenx" for y' y p
      proof (cases "y' = n")
        case True
        then show ?thesis using y sub leaf_change_nodes(6) [OF ch] by simp
      next
        case False
        then have z: "leaf_at h y' = Some y" using y(2) leaf_change_nodes(5) [OF ch] by simp
        then show ?thesis using away [OF y(1) z y(3,4)] other [OF y(1)] below_mem [OF z y(3,4), of ?lv] False bn by blast
      qed
      moreover have "map_of (leaf_entries ?sub' g b) = (map_of (leaf_entries ?sub h b))(key_str ka := res)"
      proof -
        have "slot_entries ?sub' g l' p = slot_entries ?sub h l' p" if "p \<in> set (leaf_active l')" for p
          using sub [OF that] by (simp add: leaf_change_slot_ok [OF ch]) (simp add: slot_entries_def Let_def)
        then have "map (slot_entries ?sub' g l') (leaf_active l') = map (slot_entries ?sub h l') (leaf_active l')" by simp
        then have "leaf_entries ?sub' g b = concat (map (slot_entries ?sub h l') (leaf_active l'))"
          using bn leaf_change_nodes(6) [OF ch] by (simp only: leaf_entries_def option.case)
        moreover have "leaf_entries ?sub h b = concat (map (slot_entries ?sub h l) (leaf_active l))"
          using x xl by (simp add: leaf_entries_def)
        ultimately show ?thesis using good xok long bn xl unfolding good_change_def by metis
      qed
      moreover have "leaf_and_below ?lv' g b = leaf_and_below ?lv h b"
      proof -
        have "map (slot_layers ?lv' l') (leaf_active l') = map (slot_layers ?lv l') (leaf_active l')"
          using sub by (simp add: slot_layers_def)
        then have "leaf_and_below ?lv' g b = b # concat (map (slot_layers ?lv l') (leaf_active l'))"
          using leaf_and_below_eq [OF leaf_change_nodes(6) [OF ch], of ?lv'] bn by (simp only:)
        then show ?thesis using good leaf_and_below_eq [OF x, of ?lv] xl unfolding good_change_def by metis
      qed
      ultimately show ?thesis by blast
    next
      assume "\<exists>p. p \<in> set (leaf_active x) \<and> keylenx x ! p = layer_keylenx \<and> has_suffix ka
       \<and> ent_rank x p = str_rank (key_str ka) \<and> trie_find d ht h (lv x ! p) (shift ka) = Some (n, ka')"
      then obtain p where p: "p \<in> set (leaf_active x)" "keylenx x ! p = layer_keylenx" "has_suffix ka"
        "ent_rank x p = str_rank (key_str ka)" and find: "trie_find d ht h (lv x ! p) (shift ka) = Some (n, ka')" by blast
      note sh = shift_wf(1,2) [OF Suc.prems(3) p(3)]
      have xd: "distinct (b # concat (map (slot_layers ?lv x) (leaf_active x)))"
        using distinct_concat_elem [OF dist b] leaf_and_below_eq [OF x, of ?lv] by simp
      have np: "n \<in> set (slot_layers ?lv x p)" "n \<in> set (?lv (lv x ! p))"
        using trie_find_mem [OF below [OF b x p(1,2)] sh(1) find] p(2) by (simp_all add: slot_layers_def)
      have bn: "b \<noteq> n" using xd np(1) p(1) by auto
      have slots: "n \<notin> set (slot_layers ?lv x q)" if "q \<in> set (leaf_active x)" "q \<noteq> p" for q
        using distinct_concat_other [of "slot_layers ?lv x", OF _ p(1) np(1) that] xd by simp
      have "distinct (?lv (lv x ! p))"
        using distinct_concat_elem [of "slot_layers ?lv x" "leaf_active x" p] xd p(1,2) by (simp add: slot_layers_def)
      note IH = Suc.IH [OF below [OF b x p(1,2)] this sh(1) _ find]
      have sub: "trie_ok d ht False g (lv x ! p)" "map_of (?sub' (lv x ! p)) = (map_of (?sub (lv x ! p)))(drop 8 (key_str ka) := res)"
        "?lv' (lv x ! p) = ?lv (lv x ! p)"
        using IH shift_nonempty [OF Suc.prems(3) p(3)] sh(2) by auto
      have "n \<notin> set (leaves ht h r)" using other bn below_self by blast
      then have "layer_ok outer ht g 0 (2 ^ 64) r" by (rule leaf_change_layer_other [OF ch _ layer])
      moreover have "trie_ok d ht False g (lv y ! q)"
        if y: "y' \<in> set (leaves ht h r)" "leaf_at g y' = Some y" "q \<in> set (leaf_active y)" "keylenx y ! q = layer_keylenx" for y' y q
      proof -
        have "y' \<noteq> n" using y(1) \<open>n \<notin> set (leaves ht h r)\<close> by blast
        then have z: "leaf_at h y' = Some y" using y(2) leaf_change_nodes(5) [OF ch] by simp
        consider "y' \<noteq> b" | "y' = b" "q \<noteq> p" | "y' = b" "q = p" by blast
        then show ?thesis
        proof cases
          case 1
          then show ?thesis using away [OF y(1) z y(3,4)] other [OF y(1)] below_mem [OF z y(3,4), of ?lv] by blast
        next
          case 2
          then show ?thesis using away [OF y(1) z y(3,4)] slots [of q] x z y(3,4) by (auto simp: slot_layers_def)
        qed (use sub(1) x z in simp)
      qed
      moreover have "map_of (leaf_entries ?sub' g b) = (map_of (leaf_entries ?sub h b))(key_str ka := res)"
      proof -
        have "map_of (concat (map (slot_entries ?sub' h x) (leaf_active x)))
            = (map_of (concat (map (slot_entries ?sub h x) (leaf_active x))))(key_str ka := res)"
        proof (rule map_of_concat_update [OF leaf_active_distinct(1) [OF xok] p(1)])
          fix q assume q: "q \<in> set (leaf_active x)" "q \<noteq> p"
          have "slot_entries ?sub' h x q = slot_entries ?sub h x q"
            using away [OF b x q(1)] slots [OF q] by (simp add: slot_entries_def slot_layers_def Let_def)
          moreover have "str_rank (key_str ka) \<noteq> ent_rank x q" using leaf_active_distinct(2) [OF xok p(1) q(1)] q(2) p(4) by auto
          then have "map_of (slot_entries ?sub h x q) (key_str ka) = None"
            using slot_entries_other [of outer h x q ?sub] xok long q(1) by (simp add: leaf_ok_def)
          ultimately show "slot_entries ?sub' h x q = slot_entries ?sub h x q \<and> map_of (slot_entries ?sub h x q) (key_str ka) = None" ..
        next
          let ?b = "ikey_bytes (ikey0 x ! p)"
          have "str_rank (?b @ [0]) = str_rank (key_str ka)"
            using p(2,4) by (simp add: str_rank_def ent_rank_def layer_keylenx_def)
          then have "take (length ?b) (key_str ka) = ?b" using str_rank_long [of "?b @ [0]" "key_str ka"] by simp
          then show "map_of (slot_entries ?sub' h x p) = (map_of (slot_entries ?sub h x p))(key_str ka := res)"
            using map_of_prefix_update [of "?sub' (lv x ! p)" "?sub (lv x ! p)" ?b "key_str ka" res] sub(2) p(2)
            by (simp add: slot_entries_def)
        qed
        then show ?thesis using x leaf_change_nodes(5) [OF ch bn] by (simp add: leaf_entries_def leaf_change_slot_ok [OF ch])
      qed
      moreover have "leaf_and_below ?lv' g b = leaf_and_below ?lv h b"
      proof (rule leaf_change_below [OF ch bn x])
        fix q assume q: "q \<in> set (leaf_active x)" "keylenx x ! q = layer_keylenx"
        show "?lv' (lv x ! q) = ?lv (lv x ! q)"
          using sub(3) away [OF b x q] slots [OF q(1)] q(2) by (cases "q = p") (auto simp: slot_layers_def)
      qed
      ultimately show ?thesis by blast
    qed
    have "trie_ok (Suc d) ht outer g a" by (rule trie_ok_Suc [OF r']) (use lay ls in auto)
    moreover have "map_of (concat (map (leaf_entries ?sub' g) (leaves ht h r)))
        = (map_of (concat (map (leaf_entries ?sub h) (leaves ht h r))))(key_str ka := res)"
      by (rule map_of_concat_update [OF dl b]) (use rest none lay in auto)
    moreover have "leaf_and_below ?lv' g y = leaf_and_below ?lv h y" if "y \<in> set (leaves ht h r)" for y
      using rest(2) [OF that] lay by (cases "y = b") auto
    then have "map (leaf_and_below ?lv' g) (leaves ht h r) = map (leaf_and_below ?lv h) (leaves ht h r)" by simp
    ultimately show ?thesis
      unfolding trie_entries_Suc [OF r] trie_entries_Suc [OF r'] trie_leaves_Suc [OF r] trie_leaves_Suc [OF r'] ls by (simp only:)
  qed
qed simp

end
