(* ===== verification/Tree_Put.thy ===== *)
theory Tree_Put
  imports Tree_Update Tree_Remove
begin

text \<open>
  The cursor operations that store to one leaf, on a quiescent tree: replacing the value of
  a key that is there, inserting a key into a leaf with a free slot, and removing a key from
  a leaf that keeps others.  Each refines the update of the map of contents.
\<close>

section \<open>The operations\<close>

text \<open>The stores and removals of \<open>MockMasstree\<close> (the tree calls of \<open>run_replace\<close> and \<open>run_remove\<close>); \<open>x\<close> is the address of the new row.\<close>

definition cursor_put :: "nat \<Rightarrow> u64 \<Rightarrow> bytes \<Rightarrow> u64 \<Rightarrow> heap \<Rightarrow> (bool \<times> heap) option" where
  "cursor_put fuel root s x h =
     do { (found, c, h1) \<leftarrow> find_insert fuel (tcursor_make root s) h;
          h2 \<leftarrow> set_cursor_value x c h1;
          (c', h3) \<leftarrow> tcursor_finish fuel 1 c h2;
          Some (found, h3) }"

definition cursor_remove :: "nat \<Rightarrow> u64 \<Rightarrow> bytes \<Rightarrow> heap \<Rightarrow> (bool \<times> heap) option" where
  "cursor_remove fuel root s h =
     do { (c, h1) \<leftarrow> find_locked fuel root (tcursor_make root s) h;
          h2 \<leftarrow> (if tc_state c \<noteq> 0 then log_persistent (tc_n c) h1 else Some h1);
          (c', h3) \<leftarrow> tcursor_finish fuel (-1) c h2;
          Some (tc_state c \<noteq> 0, h3) }"

section \<open>Changes of a leaf\<close>

lemma leaf_active_slots: "leaf_typed l \<Longrightarrow> leaf_active l = take (kp_size (permutation l)) (slots 14 (permutation l))"
  by (auto simp: leaf_active_def leaf_size_def leaf_perm_def leaf_typed_def leaf_width_def kp_wf_def kp_at_slots intro!: nth_equalityI)

lemma leaf_active_bound:
  assumes "leaf_typed l" "p \<in> set (leaf_active l)" shows "p < 14"
proof -
  have "p \<in> set (slots 14 (permutation l))" using assms(2) unfolding leaf_active_slots [OF assms(1)] by (rule in_set_takeD)
  moreover have "kp_wf 14 (permutation l)" using assms(1) by (simp add: leaf_typed_def leaf_width_def)
  ultimately show ?thesis by (simp only: set_slots atLeastLessThan_iff)
qed

definition clean_leaf :: "u32 \<Rightarrow> bool" where
  "clean_leaf v \<longleftrightarrow> isleaf v \<and> \<not> dirty v \<and> \<not> deleted v"

text \<open>The content of the slot of a short key.\<close>

lemma leaf_lower_rank:
  assumes "leaf_ok outer h lo hi l" "key_wf ka" "leaf_lower l ka = (i, int p)"
  shows "i < leaf_size l" "p = leaf_perm l i" "p \<in> set (leaf_active l)" "ent_rank l p = str_rank (key_str ka)" "p < 14"
proof -
  have l: "leaf_sorted l" "leaf_typed l" using assms(1) by (simp_all add: leaf_ok_def)
  have kl: "0 \<le> klen ka" using assms(2) by (simp add: key_wf_def)
  from leaf_lower_cases [OF l(1) kl]
  have "i < leaf_size l \<and> p = leaf_perm l i \<and> p \<in> set (leaf_active l) \<and> ent_rank l p = str_rank (key_str ka)"
  proof cases
    case (1 j q)
    show ?thesis using 1(1-5) assms(3) key_rank_str [OF assms(2)] by simp
  next
    case (2 j)
    show ?thesis using 2(1) assms(3) by simp
  qed
  then show r: "i < leaf_size l" "p = leaf_perm l i" "p \<in> set (leaf_active l)" "ent_rank l p = str_rank (key_str ka)" by blast+
  show "p < 14" by (rule leaf_active_bound [OF l(2) r(3)])
qed

lemma slot_view:
  assumes "ikey0 l' ! q = ikey0 l ! q" "keylenx l' ! q = keylenx l ! q" "ksuf_str h l' q = ksuf_str h l q"
  shows "slot_ok outer h l' q = slot_ok outer h l q" "ent_rank l' q = ent_rank l q"
    "lv l' ! q = lv l ! q \<Longrightarrow> slot_entries sub h l' q = slot_entries sub h l q"
proof -
  show "slot_ok outer h l' q = slot_ok outer h l q" unfolding slot_ok_def assms ..
  show "ent_rank l' q = ent_rank l q" unfolding ent_rank_def assms ..
  assume v: "lv l' ! q = lv l ! q"
  show "slot_entries sub h l' q = slot_entries sub h l q" unfolding slot_entries_def assms v ..
qed

lemma good_update:
  assumes ok: "leaf_ok outer h lo hi l" and ka: "key_wf ka" and low: "leaf_lower l ka = (i, int p)"
    and m: "ksuf_matches h l p ka = Some m" "m > 0"
    and l': "ikey0 l' = ikey0 l" "keylenx l' = keylenx l" "permutation l' = permutation l" "ksuf l' = ksuf l" "iksuf l' = iksuf l"
      "lv l' = (lv l)[p := x]" "clean_leaf (vword l')"
  shows "good_change h l l' ka (Some x)"
proof -
  note r = leaf_lower_rank [OF ok ka low]
  have act: "leaf_active l' = leaf_active l" using l'(3) by (simp add: leaf_active_def leaf_perm_def leaf_size_def)
  have f: "ksuf_str h l' = ksuf_str h l" "ent_rank l' = ent_rank l" using l' by (auto simp: ksuf_str_def ent_rank_def)
  have sl: "slot_ok o' h l' = slot_ok o' h l" for o' unfolding slot_ok_def f l' ..
  have len: "p < length (lv l)" using ok r(5) by (simp add: leaf_ok_def leaf_typed_def leaf_width_def)
  have kl: "keylenx l ! p \<noteq> layer_keylenx"
    using slot_entries_same [of outer h l p "key_str ka" ka] ok r(3,4) ka m by (auto simp: leaf_ok_def)
  have "leaf_ok o' h lo' hi' l'" if "leaf_ok o' h lo' hi' l" for o' lo' hi'
    using that l'(7) unfolding leaf_ok_def leaf_typed_def leaf_sorted_def act f sl l' clean_leaf_def by simp
  moreover have "map_of (concat (map (slot_entries sub h l') (leaf_active l)))
      = (map_of (concat (map (slot_entries sub h l) (leaf_active l))))(key_str ka \<mapsto> x)"
    if ok': "leaf_ok o' h 0 (2 ^ 64) l" and long: "\<forall>q \<in> set (leaf_active l). long_sub sub l q" for o' sub
  proof (rule map_of_concat_update [OF leaf_active_distinct(1) [OF ok'] r(3)])
    fix q assume q: "q \<in> set (leaf_active l)" "q \<noteq> p"
    have "slot_entries sub h l' q = slot_entries sub h l q" by (rule slot_view(3)) (use l' q(2) f in auto)
    moreover have "str_rank (key_str ka) \<noteq> ent_rank l q" using leaf_active_distinct(2) [OF ok' r(3) q(1)] q(2) r(4) by auto
    then have "map_of (slot_entries sub h l q) (key_str ka) = None"
      using slot_entries_other [of o' h l q sub] ok' long q(1) by (simp add: leaf_ok_def)
    ultimately show "slot_entries sub h l' q = slot_entries sub h l q \<and> map_of (slot_entries sub h l q) (key_str ka) = None" ..
  next
    have s: "map_of (slot_entries sub h l p) (key_str ka) = Some (lv l ! p)"
      using slot_entries_same [of o' h l p "key_str ka" ka sub] ok' r(3,4) ka m by (auto simp: leaf_ok_def)
    have "\<exists>t. slot_entries sub h l p = [(t, lv l ! p)] \<and> slot_entries sub h l' p = [(t, x)]"
      using s kl len unfolding slot_entries_def f l' by (auto simp: Let_def split: option.splits)
    then show "map_of (slot_entries sub h l' p) = (map_of (slot_entries sub h l p))(key_str ka \<mapsto> x)"
      using s by (auto split: if_splits)
  qed
  moreover have lay: "lv l' ! q = lv l ! q" if "keylenx l ! q = layer_keylenx" for q
    using that kl by (cases "q = p") (simp_all add: l'(6))
  then have "slot_layers sub l' q = slot_layers sub l q" for sub q using l'(2) by (simp add: slot_layers_def)
  then have "concat (map (slot_layers sub l') (leaf_active l)) = concat (map (slot_layers sub l) (leaf_active l))" for sub
    by (metis (no_types) map_eq_conv)
  ultimately show ?thesis using lay unfolding good_change_def act l'(2) by blast
qed


lemma leaf_lower_miss:
  assumes "leaf_ok outer h lo hi l" "key_wf ka" "leaf_lower l ka = (i, -1)"
  shows "i \<le> leaf_size l" "\<And>j. j < i \<Longrightarrow> ent_rank l (leaf_perm l j) < str_rank (key_str ka)"
    "\<And>j. i \<le> j \<Longrightarrow> j < leaf_size l \<Longrightarrow> str_rank (key_str ka) < ent_rank l (leaf_perm l j)"
proof -
  have l: "leaf_sorted l" using assms(1) by (simp add: leaf_ok_def)
  have kl: "0 \<le> klen ka" using assms(2) by (simp add: key_wf_def)
  from leaf_lower_cases [OF l kl]
  have "i \<le> leaf_size l \<and> (\<forall>j < i. ent_rank l (leaf_perm l j) < str_rank (key_str ka))
      \<and> (\<forall>j. i \<le> j \<longrightarrow> j < leaf_size l \<longrightarrow> str_rank (key_str ka) < ent_rank l (leaf_perm l j))"
  proof cases
    case (1 j q)
    show ?thesis using 1(1) assms(3) by simp
  next
    case (2 j)
    show ?thesis using 2(1-4) assms(3) key_rank_str [OF assms(2)] by simp
  qed
  then show "i \<le> leaf_size l" "\<And>j. j < i \<Longrightarrow> ent_rank l (leaf_perm l j) < str_rank (key_str ka)"
    "\<And>j. i \<le> j \<Longrightarrow> j < leaf_size l \<Longrightarrow> str_rank (key_str ka) < ent_rank l (leaf_perm l j)" by blast+
qed

lemma sorted_insert:
  fixes f :: "'a \<Rightarrow> nat"
  assumes "sorted_wrt (<) (map f xs)" "\<And>y. y \<in> set (take i xs) \<Longrightarrow> f y < f p" "\<And>y. y \<in> set (drop i xs) \<Longrightarrow> f p < f y"
  shows "sorted_wrt (<) (map f (take i xs @ p # drop i xs))"
proof -
  have "sorted_wrt (<) (map f (take i xs @ drop i xs))" using assms(1) by simp
  then show ?thesis using assms(2,3) by (auto simp: sorted_wrt_append simp del: append_take_drop_id) 
qed

text \<open>The slot a short key is written to.\<close>

lemma short_slot:
  assumes "key_wf ka" "\<not> has_suffix ka" "ikey0 l ! p = kikey ka" "keylenx l ! p = word_of_int (klen ka)"
  shows "ent_rank l p = str_rank (key_str ka)" "outer \<or> key_str ka \<noteq> [] \<Longrightarrow> slot_ok outer h l p"
    "slot_entries sub h l p = [(key_str ka, lv l ! p)]" "keylenx l ! p \<noteq> layer_keylenx"
proof -
  let ?s = "key_str ka"
  have n: "length ?s \<le> 8" "klen ka = int (length ?s)"
    using assms(1,2) has_suffix_str length_key_str by (auto simp: key_wf_def not_less)
  have kl: "keylenx l ! p = of_nat (length ?s)" using assms(4) n(2) by simp
  then have u: "unat (keylenx l ! p) = length ?s" using n(1) by (simp add: unat_of_nat)
  have ik: "ikey0 l ! p = ikey_of ?s" using assms(1,3) by (simp add: key_wf_def)
  have ne: "keylenx l ! p \<noteq> layer_keylenx" "keylenx l ! p \<noteq> ksuf_keylenx"
    using u n(1) by (auto simp: layer_keylenx_def ksuf_keylenx_def)
  have t: "take (length ?s) (pad8 ?s) = ?s" using n(1) by (simp add: pad8_def)
  show "ent_rank l p = str_rank ?s" by (simp add: ent_rank_def str_rank_def u ik)
  show "slot_ok outer h l p" if "outer \<or> ?s \<noteq> []" using that ne u n(1) by (auto simp: slot_ok_def Let_def ik t)
  show "slot_entries sub h l p = [(?s, lv l ! p)]" using ne by (simp add: slot_entries_def u ik t)
  show "keylenx l ! p \<noteq> layer_keylenx" by (rule ne)
qed

lemma good_insert:
  assumes ok: "leaf_ok outer h lo hi l" and ka: "key_wf ka" "\<not> has_suffix ka" and low: "leaf_lower l ka = (i, -1)"
    and room: "leaf_size l < 14" and p: "p = kp_back 14 (permutation l)"
    and l': "ikey0 l' = (ikey0 l)[p := kikey ka]" "keylenx l' = (keylenx l)[p := word_of_int (klen ka)]" "lv l' = (lv l)[p := x]"
      "permutation l' = snd (insert_from_back 14 i (permutation l))" "ksuf l' = ksuf l" "iksuf l' = iksuf l" "clean_leaf (vword l')"
  shows "good_change h l l' ka (Some x)"
proof -
  note r = leaf_lower_miss [OF ok ka(1) low]
  have ty: "leaf_typed l" and wf: "kp_wf 14 (permutation l)" using ok by (simp_all add: leaf_ok_def leaf_typed_def leaf_width_def)
  have sz: "kp_size (permutation l) < 14" "i \<le> kp_size (permutation l)" using room r(1) by (simp_all add: leaf_size_def)
  let ?act = "leaf_active l"
  have len: "p < 14" using set_slots [OF wf] kp_back_slots [of 14] p last_in_set [of "slots 14 (permutation l)"]
    by (metis atLeastLessThan_iff length_slots list.size(3) zero_less_numeral zero_neq_numeral)
  have ty': "leaf_typed l'" using ty l' kp_wf_insert_from_back [OF wf sz] by (simp add: leaf_typed_def leaf_width_def)
  have ins: "fst (insert_from_back 14 i (permutation l)) = p" using p by (simp add: insert_from_back_def Let_def)
  have act: "leaf_active l' = take i ?act @ p # drop i ?act" "p \<notin> set ?act"
    using kp14.ins_active(1,2) [OF wf sz] ins leaf_active_slots [OF ty'] leaf_active_slots [OF ty] l'(4) by simp_all
  have set': "set (leaf_active l') = insert p (set ?act)" using set_append [of "take i ?act" "drop i ?act"] by (auto simp: act(1))
  have same: "ikey0 l' ! q = ikey0 l ! q" "keylenx l' ! q = keylenx l ! q" "ksuf_str h l' q = ksuf_str h l q" "lv l' ! q = lv l ! q"
    if "q \<in> set ?act" for q
  proof -
    have "p \<noteq> q" using that act(2) by blast
    then show "ikey0 l' ! q = ikey0 l ! q" "keylenx l' ! q = keylenx l ! q" "ksuf_str h l' q = ksuf_str h l q" "lv l' ! q = lv l ! q"
      using l' by (simp_all add: ksuf_str_def)
  qed
  have "p < length (ikey0 l)" "p < length (keylenx l)" "p < length (lv l)" using ty len by (simp_all add: leaf_typed_def leaf_width_def)
  then have at: "ikey0 l' ! p = kikey ka" "keylenx l' ! p = word_of_int (klen ka)" "lv l' ! p = x" using l' by simp_all
  note new = short_slot [OF ka at(1,2)]
  note old = slot_view [OF same(1-3)]
  have lt: "ent_rank l q < str_rank (key_str ka)" if "q \<in> set (take i ?act)" for q
    using that r(1,2) by (auto simp: leaf_active_def in_set_conv_nth)
  have gt: "str_rank (key_str ka) < ent_rank l q" if "q \<in> set (drop i ?act)" for q
    using that r(3) by (auto simp: leaf_active_def in_set_conv_nth)
  have "sorted_wrt (<) (map (ent_rank l') (take i ?act @ p # drop i ?act))"
  proof (rule sorted_insert)
    have "map (ent_rank l') ?act = map (ent_rank l) ?act" using old(2) by simp
    then show "sorted_wrt (<) (map (ent_rank l') ?act)" using ok by (simp only: leaf_ok_def leaf_sorted_def)
    show "ent_rank l' y < ent_rank l' p" if "y \<in> set (take i ?act)" for y
      using lt [OF that] new(1) old(2) [of y] in_set_takeD [OF that] by simp
    show "ent_rank l' p < ent_rank l' y" if "y \<in> set (drop i ?act)" for y
      using gt [OF that] new(1) old(2) [of y] in_set_dropD [OF that] by simp
  qed
  then have sorted: "leaf_sorted l'" by (simp only: leaf_sorted_def act(1))
  have "leaf_ok o' h lo' hi' l'" if "leaf_ok o' h lo' hi' l" "lo' \<le> unat (kikey ka)" "unat (kikey ka) < hi'" "o' \<or> key_str ka \<noteq> []" for o' lo' hi'
    using that ty' sorted l'(7) new(2) [of o' h] at(1) old(1) same(1) by (auto simp: leaf_ok_def clean_leaf_def set')
  moreover have "map_of (concat (map (slot_entries sub h l') (leaf_active l')))
      = (map_of (concat (map (slot_entries sub h l) ?act)))(key_str ka \<mapsto> x)"
    if ok': "leaf_ok o' h 0 (2 ^ 64) l" and long: "\<forall>q \<in> set ?act. long_sub sub l q" for o' sub
  proof -
    have eq: "slot_entries sub h l' q = slot_entries sub h l q" if "q \<in> set ?act" for q using old(3) [OF that that that] same(4) [OF that] by simp
    have none: "map_of (slot_entries sub h l' q) (key_str ka) = None" if q: "q \<in> set (take i ?act @ drop i ?act)" for q
    proof -
      have q': "q \<in> set ?act" using q by simp
      have "str_rank (key_str ka) \<noteq> ent_rank l q" using q lt gt by (metis Un_iff less_irrefl set_append)
      then show ?thesis using slot_entries_other [of o' h l q sub] ok' long q' eq [OF q'] by (simp add: leaf_ok_def)
    qed
    have "map_of (concat (map (slot_entries sub h l') (take i ?act @ p # drop i ?act)))
        = (map_of (concat (map (slot_entries sub h l') (take i ?act @ drop i ?act))))(key_str ka \<mapsto> x)"
      by (rule map_of_concat_insert [OF none]) (simp_all add: new(3) at(3))
    moreover have "map (slot_entries sub h l') ?act = map (slot_entries sub h l) ?act" using eq by simp
    ultimately show ?thesis unfolding act(1) append_take_drop_id by simp
  qed
  moreover have "concat (map (slot_layers sub l') (leaf_active l')) = concat (map (slot_layers sub l) ?act)" for sub
  proof -
    have "concat (map (slot_layers sub l') (leaf_active l')) = concat (map (slot_layers sub l') (take i ?act @ drop i ?act))"
      using new(4) by (simp add: act(1) slot_layers_def del: append_take_drop_id)
    also have "\<dots> = concat (map (slot_layers sub l) ?act)"
      unfolding append_take_drop_id by (rule arg_cong [where f = concat]) (simp add: slot_layers_def same)
    finally show ?thesis .
  qed
  moreover have "\<forall>q \<in> set (leaf_active l'). keylenx l' ! q = layer_keylenx \<longrightarrow>
      q \<in> set ?act \<and> keylenx l ! q = layer_keylenx \<and> lv l' ! q = lv l ! q"
    using new(4) same(2,4) unfolding set' by (metis insert_iff)
  ultimately show ?thesis unfolding good_change_def by blast
qed


lemma good_remove:
  assumes ok: "leaf_ok outer h lo hi l" and ka: "key_wf ka" and low: "leaf_lower l ka = (i, int p)"
    and m: "ksuf_matches h l p ka = Some m" "m > 0"
    and l': "ikey0 l' = ikey0 l" "keylenx l' = keylenx l" "permutation l' = kp_remove i (permutation l)" "ksuf l' = ksuf l" "iksuf l' = iksuf l"
      "lv l' = lv l" "clean_leaf (vword l')"
  shows "good_change h l l' ka None"
proof -
  note r = leaf_lower_rank [OF ok ka low]
  have ty: "leaf_typed l" and wf: "kp_wf 14 (permutation l)" using ok by (simp_all add: leaf_ok_def leaf_typed_def leaf_width_def)
  have i: "i < kp_size (permutation l)" using r(1) by (simp add: leaf_size_def)
  have ty': "leaf_typed l'" using ty l' kp_wf_kp_remove [OF wf i] by (simp add: leaf_typed_def leaf_width_def)
  let ?act = "leaf_active l"
  have act: "leaf_active l' = take i ?act @ drop (Suc i) ?act" "?act = take i ?act @ p # drop (Suc i) ?act"
  proof -
    show "leaf_active l' = take i ?act @ drop (Suc i) ?act"
      using kp14.rem_active(1) [OF wf i] leaf_active_slots [OF ty'] leaf_active_slots [OF ty] l'(3) by simp
    have "i < length ?act" "?act ! i = p" using r(1,2) by (simp_all add: leaf_active_def)
    then show "?act = take i ?act @ p # drop (Suc i) ?act" by (metis id_take_nth_drop)
  qed
  have sub: "set (leaf_active l') \<subseteq> set ?act" unfolding act(1) using set_take_subset [of i ?act] set_drop_subset [of "Suc i" ?act] by simp
  have f: "ksuf_str h l' = ksuf_str h l" "ent_rank l' = ent_rank l" using l' by (auto simp: ksuf_str_def ent_rank_def)
  have sl: "slot_ok o' h l' = slot_ok o' h l" "slot_entries sb h l' = slot_entries sb h l" for o' sb
    unfolding slot_ok_def slot_entries_def f l' by (rule refl)+
  have "leaf_sorted l \<Longrightarrow> leaf_sorted l'"
    unfolding leaf_sorted_def f act(1) by (subst (asm) act(2)) (auto simp: sorted_wrt_append)
  then have "leaf_ok o' h lo' hi' l'" if "leaf_ok o' h lo' hi' l" for o' lo' hi'
    using that l'(7) ty' sub unfolding leaf_ok_def sl l' clean_leaf_def by blast
  moreover have "map_of (concat (map (slot_entries sb h l') (leaf_active l')))
      = (map_of (concat (map (slot_entries sb h l) ?act)))(key_str ka := None)"
    if ok': "leaf_ok o' h 0 (2 ^ 64) l" and long: "\<forall>q \<in> set ?act. long_sub sb l q" for o' sb
  proof -
    have none: "map_of (slot_entries sb h l q) (key_str ka) = None" if q: "q \<in> set (take i ?act @ drop (Suc i) ?act)" for q
    proof -
      have q': "q \<in> set ?act" using q sub act(1) by auto
      have "distinct (take i ?act @ p # drop (Suc i) ?act)" using leaf_active_distinct(1) [OF ok'] act(2) by simp
      then have "q \<noteq> p" using q by auto
      then have "str_rank (key_str ka) \<noteq> ent_rank l q" using leaf_active_distinct(2) [OF ok' r(3) q'] r(4) by auto
      then show ?thesis using slot_entries_other [of o' h l q sb] ok' long q' by (simp add: leaf_ok_def)
    qed
    have "map_of (slot_entries sb h l p) (key_str ka) = Some (lv l ! p) \<and> keylenx l ! p \<noteq> layer_keylenx"
      using slot_entries_same [of o' h l p "key_str ka" ka sb] ok' r(3,4) ka m by (auto simp: leaf_ok_def)
    then have "\<And>u. u \<noteq> key_str ka \<Longrightarrow> map_of (slot_entries sb h l p) u = None"
      by (auto simp: slot_entries_def Let_def split: option.splits if_splits)
    from map_of_concat_delete [of "take i ?act" "drop (Suc i) ?act" "slot_entries sb h l" "key_str ka" p, OF none this] show ?thesis unfolding sl act(1) by (simp flip: act(2))
  qed
  moreover have "concat (map (slot_layers sb l') (leaf_active l')) = concat (map (slot_layers sb l) ?act)" for sb
  proof -
    have kl: "keylenx l ! p \<noteq> layer_keylenx"
      using slot_entries_same [of outer h l p "key_str ka" ka] ok r(3,4) ka m by (auto simp: leaf_ok_def)
    have "slot_layers sb l' = slot_layers sb l" unfolding slot_layers_def l' ..
    then have "concat (map (slot_layers sb l') (leaf_active l')) = concat (map (slot_layers sb l) (take i ?act @ p # drop (Suc i) ?act))"
      using kl by (simp add: act(1) slot_layers_def)
    then show ?thesis by (simp flip: act(2))
  qed
  ultimately show ?thesis using sub unfolding good_change_def l' by blast
qed

section \<open>Finding and locking the leaf\<close>

text \<open>A leaf nobody works on, whose layer pointers are not stale.\<close>

definition leaf_calm :: "heap \<Rightarrow> leaf \<Rightarrow> bool" where
  "leaf_calm h l \<longleftrightarrow> quiescent (vword l) \<and> modstate l \<noteq> modstate_deleted_layer
     \<and> (\<forall>p \<in> set (leaf_active l). keylenx l ! p = layer_keylenx \<longrightarrow>
          (case node_version h (lv l ! p) of None \<Rightarrow> False | Some v \<Rightarrow> is_root v))"

definition calm :: "nat \<Rightarrow> nat \<Rightarrow> heap \<Rightarrow> u64 \<Rightarrow> bool" where
  "calm d ht h a \<longleftrightarrow> (\<forall>b \<in> set (trie_leaves d ht h a). case leaf_at h b of None \<Rightarrow> False | Some l \<Rightarrow> leaf_calm h l)"

definition lock_leaf :: "leaf \<Rightarrow> leaf" where
  "lock_leaf l = l\<lparr>vword := vword l OR lock_bit\<rparr>"

lemma locked_unchanged: "\<not> has_changed (v OR lock_bit) v"
  by (auto simp: has_changed_iff nv_ops nv_bits)

lemma find_locked_stop:
  assumes "leaf_at h (tc_n c) = Some l" "leaf_calm h l" "\<not> deleted (vword l)" "leaf_lower l (tc_ka c) = (i, p)"
    "(if p \<ge> 0 then ksuf_matches h l (nat p) (tc_ka c) else Some 0) = Some m" "m \<ge> 0"
  shows "find_locked_forward (Suc f) root (vword l) c h
    = Some (c\<lparr>tc_i := i, tc_p := p, tc_state := m\<rparr>, put_node (tc_n c) (Leaf (lock_leaf l)) h)"
proof -
  have nl: "\<not> locked (vword l)" "\<not> deleted_layer l" using assms(2) by (auto simp: leaf_calm_def quiescent_def nv_bits deleted_layer_def)
  have n: "nodes h (tc_n c) = Some (Leaf l)" using assms(1) by (simp add: leaf_at_iff)
  have lock: "node_lock (tc_n c) h = Some (put_node (tc_n c) (Leaf (lock_leaf l)) h)"
    using n nl by (simp add: node_lock_def node_version_def upd_version_def lock_leaf_def)
  have at: "leaf_at (put_node (tc_n c) (Leaf (lock_leaf l)) h) (tc_n c) = Some (lock_leaf l)" by (simp add: leaf_at_def put_node_def)
  have "\<not> has_changed (vword (lock_leaf l)) (vword l)" "permutation (lock_leaf l) = permutation l" "\<not> deleted_layer (lock_leaf l)"
    using locked_unchanged nl by (simp_all add: lock_leaf_def deleted_layer_def)
  then show ?thesis using assms(1,3-6) lock at by (cases "p \<ge> 0") (simp_all add: Let_def)
qed

lemma find_locked_layer:
  assumes "leaf_at h (tc_n c) = Some l" "leaf_calm h l" "\<not> deleted (vword l)" "leaf_lower l (tc_ka c) = (i, int p)"
    "ksuf_matches h l p (tc_ka c) = Some (- 8)" "p \<in> set (leaf_active l)" "keylenx l ! p = layer_keylenx"
  shows "find_locked_forward (Suc f) root (vword l) c h
    = find_locked f (lv l ! p) (c\<lparr>tc_i := i, tc_p := int p, tc_state := - 8, tc_ka := shift (tc_ka c)\<rparr>) h"
proof -
  obtain v where v: "node_version h (lv l ! p) = Some v" "is_root v"
    using assms(2,6,7) by (auto simp: leaf_calm_def split: option.splits)
  then show ?thesis using assms(1,3-5) by (simp add: shift_by_8)
qed

lemma calm_leaf:
  assumes "calm (Suc d) ht h a" "reach_root (Suc ht) h a = Some (r, v)" "b \<in> set (leaves ht h r)" "leaf_at h b = Some l"
  shows "leaf_calm h l" "p \<in> set (leaf_active l) \<Longrightarrow> keylenx l ! p = layer_keylenx \<Longrightarrow> calm d ht h (lv l ! p)"
proof -
  have sub: "set (leaf_and_below (trie_leaves d ht h) h b) \<subseteq> set (trie_leaves (Suc d) ht h a)"
    using assms(3) by (auto simp: trie_leaves_Suc [OF assms(2)])
  then have "b \<in> set (trie_leaves (Suc d) ht h a)" using below_self by blast
  then show "leaf_calm h l" using assms(1,4) by (force simp: calm_def)
  assume "p \<in> set (leaf_active l)" "keylenx l ! p = layer_keylenx"
  from below_mem [OF assms(4) this, of "trie_leaves d ht h"] sub
  show "calm d ht h (lv l ! p)" using assms(1) unfolding calm_def by blast
qed

lemma recovered_calm: "leaf_calm (recovered h) l = leaf_calm h l"
  by (simp add: leaf_calm_def)

lemma reach_loop_mono: "reach_loop n h ka this a v = Some x \<Longrightarrow> n \<le> m \<Longrightarrow> reach_loop m h ka this a v = Some x"
proof (induction n arbitrary: a v m)
  case (Suc n)
  then obtain m' where m: "m = Suc m'" "n \<le> m'" by (cases m) auto
  have root: "reach_root n h this = Some y \<Longrightarrow> reach_root m' h this = Some y" for y by (rule reach_root_mono [OF _ m(2)])
  show ?case using Suc.prems(1) Suc.IH [OF _ m(2)] root unfolding m(1)
    by (auto simp: Let_def split: bind_splits if_splits)
qed simp

text \<open>\<open>find_locked\<close> stops with the lock of the leaf the key ends in.\<close>

lemma find_locked_trie:
  assumes "trie_ok d ht outer (recovered h) a" "calm d ht (recovered h) a" "key_wf (tc_ka c)" "outer \<or> key_str (tc_ka c) \<noteq> []"
    "2 * d + ht + 1 \<le> fuel"
  shows "\<exists>n ka' l o' h0 i p m. trie_find d ht (recovered h) a (tc_ka c) = Some (n, ka') \<and> key_wf ka'
    \<and> leaf_at (recovered h) n = Some l \<and> leaf_ok o' (recovered h) 0 (2 ^ 64) l \<and> leaf_calm (recovered h) l \<and> leaf_lower l ka' = (i, p)
    \<and> (if p \<ge> 0 then ksuf_matches (recovered h) l (nat p) ka' else Some 0) = Some m \<and> m \<ge> 0
    \<and> recovered h0 = recovered h \<and> leaf_at h0 n = Some l
    \<and> find_locked fuel a c h = Some (c\<lparr>tc_n := n, tc_ka := ka', tc_i := i, tc_p := p, tc_state := m\<rparr>, put_node n (Leaf (lock_leaf l)) h0)"
  using assms
proof (induction d arbitrary: fuel outer h a c)
  case (Suc d)
  let ?R = "recovered h" and ?sub = "trie_entries d ht (recovered h)" and ?ka = "tc_ka c"
  obtain r v where root: "reach_root (Suc ht) ?R a = Some (r, v)" and ver: "node_version ?R r = Some v"
    and layer: "layer_ok outer ht ?R 0 (2 ^ 64) r"
    and below: "\<And>b l p. b \<in> set (leaves ht ?R r) \<Longrightarrow> leaf_at ?R b = Some l \<Longrightarrow> p \<in> set (leaf_active l)
       \<Longrightarrow> keylenx l ! p = layer_keylenx \<Longrightarrow> trie_ok d ht False ?R (lv l ! p)"
    by (rule trie_okE [OF Suc.prems(1)]) (metis Suc_inject)
  have long: "\<forall>b \<in> set (leaves ht ?R r). \<forall>l. leaf_at ?R b = Some l \<longrightarrow> (\<forall>p \<in> set (leaf_active l). long_sub ?sub l p)"
    using trie_entries_nonempty [OF below] by (simp add: long_sub_def)
  obtain f where f: "fuel = Suc (Suc f)" "Suc ht \<le> Suc f" "2 * d + ht + 1 \<le> f"
    using Suc.prems(5) by (cases fuel; cases "fuel - 1") auto
  obtain b l where b: "reach_loop (Suc ht) ?R ?ka a r v = Some (b, vword l)" "leaf_at ?R b = Some l" "b \<in> set (leaves ht ?R r)"
      "leaf_ok outer ?R 0 (2 ^ 64) l"
    by (rule layer_lookup [OF layer ver _ Suc.prems(3) long, of "Suc ht"]) auto
  have reach: "reach_leaf (Suc f) h ?ka a = Some (b, vword l)" "reach_leaf (Suc ht) ?R ?ka a = Some (b, vword l)"
    using reach_root_mono [OF root f(2)] root b(1) reach_loop_mono [OF b(1) f(2)]
    by (simp_all add: reach_leaf_def del: reach_root.simps reach_loop.simps)
  obtain h1 where h1: "recover_leaf b h = Some h1" "leaf_at h1 b = Some l" "bags h1 = bags h" "recovered h1 = ?R"
    using recover_leaf_recovered [OF b(2)] by blast
  have suf: "ksuf_matches h1 l p k = ksuf_matches ?R l p k" for p k
    using h1(3) by (simp add: ksuf_matches_def ksuf_str_def Let_def cong: if_cong)
  have cl: "leaf_calm ?R l" by (rule calm_leaf(1) [OF Suc.prems(2) root b(3,2)])
  then have cl1: "leaf_calm h1 l" using recovered_calm h1(4) by metis
  have nd: "\<not> deleted (vword l)" using b(4) by (simp add: leaf_ok_def)
  have step: "find_locked fuel a c h = find_locked_forward (Suc f) a (vword l) (c\<lparr>tc_n := b\<rparr>) h1"
    using reach(1) h1(1) f(1) by simp
  have "\<forall>p \<in> set (leaf_active l). long_sub ?sub l p" using long b(3,2) by blast
  from leaf_lookup [OF b(4) Suc.prems(3) this] show ?case
  proof cases
    case (1 i)
    have "find_locked fuel a c h = Some (c\<lparr>tc_n := b, tc_i := i, tc_p := - 1, tc_state := 0\<rparr>, put_node b (Leaf (lock_leaf l)) h1)"
      unfolding step using find_locked_stop [of h1 "c\<lparr>tc_n := b\<rparr>" l i "-1" 0 f a] h1(2) cl1 nd 1(1) by (simp del: find_locked_forward.simps)
    moreover have "trie_find (Suc d) ht ?R a ?ka = Some (b, ?ka)" using reach(2) b(2) 1(1) by simp
    ultimately show ?thesis using Suc.prems(3) b(2,4) cl 1(1) h1 by fastforce
  next
    case (2 i p m)
    show ?thesis
    proof (cases "m < 0")
      case False
      have "find_locked fuel a c h = Some (c\<lparr>tc_n := b, tc_i := i, tc_p := int p, tc_state := m\<rparr>, put_node b (Leaf (lock_leaf l)) h1)"
        unfolding step using find_locked_stop [of h1 "c\<lparr>tc_n := b\<rparr>" l i "int p" m f a] h1(2) cl1 nd 2(1,3) False suf
        by (simp del: find_locked_forward.simps)
      moreover have "trie_find (Suc d) ht ?R a ?ka = Some (b, ?ka)" using reach(2) b(2) 2(1,4) False by simp
      ultimately show ?thesis using Suc.prems(3) b(2,4) cl 2(1,3) h1 False by fastforce
    next
      case True
      then have m: "m = -8" "has_suffix ?ka" "keylenx l ! p = layer_keylenx" using 2(4,5) by auto
      let ?c = "c\<lparr>tc_n := b, tc_i := i, tc_p := int p, tc_state := - 8, tc_ka := shift ?ka\<rparr>"
      note sh = shift_wf [OF Suc.prems(3) m(2)]
      have go: "find_locked fuel a c h = find_locked f (lv l ! p) ?c h1"
        unfolding step using find_locked_layer [of h1 "c\<lparr>tc_n := b\<rparr>" l i p f a] h1(2) cl1 nd 2(1-3) m suf
        by (simp del: find_locked_forward.simps)
      have tf: "trie_find (Suc d) ht ?R a ?ka = trie_find d ht ?R (lv l ! p) (shift ?ka)" using reach(2) b(2) 2(1) m(3) by simp
      have "trie_ok d ht False (recovered h1) (lv l ! p)" "calm d ht (recovered h1) (lv l ! p)"
        using below [OF b(3,2) 2(2) m(3)] calm_leaf(2) [OF Suc.prems(2) root b(3,2) 2(2) m(3)] h1(4) by simp_all
      from Suc.IH [OF this _ _ f(3), of ?c] sh(1) shift_nonempty [OF Suc.prems(3) m(2)] h1(4)
      show ?thesis unfolding go tf by (simp del: trie_find.simps find_locked.simps split del: if_split cong: if_cong)
    qed
  qed
qed simp

section \<open>Working on the locked leaf\<close>

text \<open>\<open>h'\<close> is \<open>h\<close> with the leaf \<open>l\<close> at \<open>n\<close>; the external log may have grown.\<close>

definition only_leaf :: "u64 \<Rightarrow> leaf \<Rightarrow> heap \<Rightarrow> heap \<Rightarrow> bool" where
  "only_leaf n l h h' \<longleftrightarrow> nodes h' = (nodes h)(n \<mapsto> Leaf l) \<and> bags h' = bags h
     \<and> globalepoch h' = globalepoch h \<and> failedepoch h' = failedepoch h"

lemma only_leaf_start: "only_leaf n l h (put_node n (Leaf l) h)"
  by (simp add: only_leaf_def put_node_def)

lemma only_leaf_at: "only_leaf n l h h' \<Longrightarrow> leaf_at h' n = Some l"
  by (simp add: only_leaf_def leaf_at_def)

lemma only_leaf_upd: "only_leaf n l h h' \<Longrightarrow> \<exists>h''. upd_leaf f n h' = Some h'' \<and> only_leaf n (f l) h h''"
  by (simp add: upd_leaf_def only_leaf_at) (simp add: only_leaf_def put_node_def)

lemma only_leaf_version:
  "only_leaf n l h h' \<Longrightarrow> \<exists>h''. upd_version f n h' = Some h'' \<and> only_leaf n (l\<lparr>vword := f (vword l)\<rparr>) h h''"
  by (simp add: upd_version_def only_leaf_def put_node_def)

lemma only_leaf_logged: "only_leaf n l h h' \<Longrightarrow> \<exists>h''. apply_logged f n h' = Some h'' \<and> only_leaf n (fst (f l)) h h''"
  by (cases "f l") (simp add: apply_logged_def only_leaf_at, simp add: only_leaf_def put_node_def)

lemma only_leaf_record:
  "only_leaf n l h h' \<Longrightarrow> \<exists>h''. log_persistent n h' = Some h'' \<and> only_leaf n (fst (record_node (globalepoch h) l)) h h''"
  by (cases "record_node (globalepoch h) l")
    (simp add: log_persistent_def record_node_at_def only_leaf_def put_node_def node_record_def)

lemma only_leaf_assign:
  assumes "only_leaf n l h h'" "\<not> has_suffix ka"
  shows "\<exists>h''. leaf_assign n p ka h' = Some h'' \<and> only_leaf n (l\<lparr>lv := (lv l)[p := 0], ikey0 := (ikey0 l)[p := kikey ka],
      keylenx := (keylenx l)[p := word_of_int (klen ka)]\<rparr>) h h''"
proof -
  obtain h1 where "upd_leaf (\<lambda>l. l\<lparr>lv := (lv l)[p := 0], ikey0 := (ikey0 l)[p := kikey ka],
      keylenx := (keylenx l)[p := if \<not> has_suffix ka then word_of_int (klen ka) else ksuf_keylenx]\<rparr>) n h' = Some h1"
    "only_leaf n (l\<lparr>lv := (lv l)[p := 0], ikey0 := (ikey0 l)[p := kikey ka],
      keylenx := (keylenx l)[p := if \<not> has_suffix ka then word_of_int (klen ka) else ksuf_keylenx]\<rparr>) h h1"
    using only_leaf_upd [OF assms(1)] by blast
  then show ?thesis using assms(2) by (simp add: leaf_assign_def leaf_assign_with_def)
qed

lemma only_leaf_recovered:
  assumes "only_leaf n l' h0 h'" "recovered h0 = recovered h" "leaf_at (recovered h) n = Some l"
    "failedepoch h < loggedepoch l'" "clean_leaf (vword l')" "\<not> dirty (vword l)" "is_root (vword l') = is_root (vword l)"
    "parent_ptr l' = parent_ptr l"
  shows "leaf_change n l l' (recovered h) (recovered h')"
proof -
  have e: "failedepoch h0 = failedepoch h" "globalepoch h0 = globalepoch h" "bags h0 = bags h"
    using arg_cong [OF assms(2), of failedepoch] arg_cong [OF assms(2), of globalepoch] arg_cong [OF assms(2), of bags] by simp_all
  have "lazy_recovery (globalepoch h) (failedepoch h) l' = l'" using assms(4) by (simp add: lazy_recovery_def not_le)
  then have "nodes (recovered h') = (nodes (recovered h0))(n \<mapsto> Leaf l')"
    using assms(1) e by (auto simp: only_leaf_def)
  then show ?thesis using assms e by (simp add: leaf_change_def only_leaf_def clean_leaf_def leaf_at_iff)
qed

lemma locked_flags:
  assumes "quiescent v" "clean_leaf v"
  shows "clean_leaf (unlock (v OR lock_bit))" "is_root (unlock (v OR lock_bit)) = is_root v" "quiescent (unlock (v OR lock_bit))"
    "clean_leaf (unlock (mark_insert (v OR lock_bit)))" "is_root (unlock (mark_insert (v OR lock_bit))) = is_root v"
    "quiescent (unlock (mark_insert (v OR lock_bit)))"
  using assms unlock_flags [of "v OR lock_bit"] unlock_flags [of "mark_insert (v OR lock_bit)"]
  by (simp_all add: clean_leaf_def quiescent_def nv_tests dirty_iff nv_ops bit_consts)

section \<open>The tree before and after\<close>

text \<open>A well-formed quiescent tree after the failed epoch, and what it stores.\<close>

definition tree_inv :: "nat \<Rightarrow> nat \<Rightarrow> heap \<Rightarrow> u64 \<Rightarrow> bool" where
  "tree_inv d ht h root \<longleftrightarrow> trie_ok d ht True (recovered h) root \<and> calm d ht (recovered h) root
     \<and> distinct (trie_leaves d ht (recovered h) root) \<and> failedepoch h < globalepoch h"

definition contents :: "nat \<Rightarrow> nat \<Rightarrow> heap \<Rightarrow> u64 \<Rightarrow> bytes \<Rightarrow> u64 option" where
  "contents d ht h root = map_of (trie_entries d ht (recovered h) root)"

lemma leaf_change_is_root:
  assumes "leaf_change n l l' h g"
  shows "(case node_version g a of None \<Rightarrow> False | Some v \<Rightarrow> is_root v) = (case node_version h a of None \<Rightarrow> False | Some v \<Rightarrow> is_root v)"
  using assms by (cases "a = n") (simp_all add: leaf_change_def node_version_def)

lemma calm_change:
  assumes ch: "leaf_change n l l' h g" and good: "good_change h l l' ka res" and "calm d ht h a"
    and eq: "trie_leaves d ht g a = trie_leaves d ht h a" and "n \<in> set (trie_leaves d ht h a)"
    and l': "quiescent (vword l')" "modstate l' \<noteq> modstate_deleted_layer"
  shows "calm d ht g a"
proof -
  have old: "leaf_calm h x" if "b \<in> set (trie_leaves d ht h a)" "leaf_at h b = Some x" for b x
    using assms(3) that by (force simp: calm_def)
  have "leaf_calm h l" using old [OF assms(5)] leaf_change_nodes(7) [OF ch] by blast
  moreover have "\<forall>p \<in> set (leaf_active l'). keylenx l' ! p = layer_keylenx
      \<longrightarrow> p \<in> set (leaf_active l) \<and> keylenx l ! p = layer_keylenx \<and> lv l' ! p = lv l ! p" using good by (simp add: good_change_def)
  ultimately have new: "leaf_calm g l'" using l' by (auto simp: leaf_calm_def leaf_change_is_root [OF ch])
  have "leaf_calm g = leaf_calm h" by (intro ext) (simp add: leaf_calm_def leaf_change_is_root [OF ch])
  then have "case leaf_at g b of None \<Rightarrow> False | Some x \<Rightarrow> leaf_calm g x" if "b \<in> set (trie_leaves d ht h a)" for b
    using that new assms(3) leaf_change_nodes(5,6) [OF ch] by (cases "b = n") (auto simp: calm_def split: option.splits)
  then show ?thesis by (simp add: calm_def eq)
qed

text \<open>Storing the leaf \<open>l'\<close> where the key ends.\<close>

lemma tree_store:
  assumes inv: "tree_inv d ht h root" and find: "trie_find d ht (recovered h) root (str_key s) = Some (n, ka)"
    and l: "leaf_at (recovered h) n = Some l" "leaf_ok o' (recovered h) 0 (2 ^ 64) l" "recovered h0 = recovered h"
    and st: "only_leaf n l' h0 h'" and good: "good_change (recovered h) l l' ka res"
    and l': "loggedepoch l' = globalepoch h" "clean_leaf (vword l')" "is_root (vword l') = is_root (vword l)" "quiescent (vword l')"
      "parent_ptr l' = parent_ptr l" "modstate l' \<noteq> modstate_deleted_layer"
  shows "tree_inv d ht h' root \<and> contents d ht h' root = (contents d ht h root)(s := res)"
proof -
  have e: "failedepoch h0 = failedepoch h" "globalepoch h0 = globalepoch h"
    using arg_cong [OF l(3), of failedepoch] arg_cong [OF l(3), of globalepoch] by simp_all
  have ep: "failedepoch h' < globalepoch h'" using inv st e by (simp add: tree_inv_def only_leaf_def)
  have ch: "leaf_change n l l' (recovered h) (recovered h')"
    by (rule only_leaf_recovered [OF st l(3,1)]) (use inv l(2) l' in \<open>simp_all add: tree_inv_def leaf_ok_def\<close>)
  have k: "key_wf (str_key s)" "key_str (str_key s) = s" using key_string_wf [of 0 "length s" s] by (simp_all add: str_key_def)
  have t: "trie_ok d ht True (recovered h) root" "distinct (trie_leaves d ht (recovered h) root)" using inv by (simp_all add: tree_inv_def)
  note tc = trie_change [OF ch good t k(1) _ find]
  have "calm d ht (recovered h') root"
    by (rule calm_change [OF ch good]) (use inv tc trie_find_mem [OF t(1) k(1) find] l' in \<open>simp_all add: tree_inv_def\<close>)
  then show ?thesis using tc ep t(2) k(2) by (simp add: tree_inv_def contents_def)
qed

text \<open>Where an insertion needs neither a split nor a new layer nor room for a suffix.\<close>

definition put_fits :: "nat \<Rightarrow> nat \<Rightarrow> heap \<Rightarrow> u64 \<Rightarrow> bytes \<Rightarrow> bool" where
  "put_fits d ht h root s \<longleftrightarrow>
     (case trie_find d ht h root (str_key s) of
        None \<Rightarrow> False
      | Some (n, ka) \<Rightarrow>
          (case leaf_at h n of
             None \<Rightarrow> False
           | Some l \<Rightarrow>
               (let p = snd (leaf_lower l ka)
                in if p \<ge> 0 then ksuf_matches h l (nat p) ka \<noteq> Some 0
                   else \<not> has_suffix ka \<and> leaf_size l < leaf_width
                     \<and> (kp_back leaf_width (permutation l) \<noteq> 0 \<or> prev_ptr l = 0 \<or> ikey_bound l = kikey ka))))"

lemma saved_fields:
  "lv (fst (save_cl1_2_update ge p l)) = lv l" "ikey0 (fst (save_cl1_2_update ge p l)) = ikey0 l"
  "keylenx (fst (save_cl1_2_update ge p l)) = keylenx l" "permutation (fst (save_cl1_2_update ge p l)) = permutation l"
  "ksuf (fst (save_cl1_2_update ge p l)) = ksuf l" "iksuf (fst (save_cl1_2_update ge p l)) = iksuf l"
  "vword (fst (save_cl1_2_update ge p l)) = vword l" "modstate (fst (save_cl1_2_update ge p l)) = modstate l"
  "parent_ptr (fst (save_cl1_2_update ge p l)) = parent_ptr l" "loggedepoch (fst (save_cl1_2_update ge p l)) = ge"
  "lv (fst (save_cl0_insert ge l)) = lv l" "ikey0 (fst (save_cl0_insert ge l)) = ikey0 l"
  "keylenx (fst (save_cl0_insert ge l)) = keylenx l" "permutation (fst (save_cl0_insert ge l)) = permutation l"
  "ksuf (fst (save_cl0_insert ge l)) = ksuf l" "iksuf (fst (save_cl0_insert ge l)) = iksuf l"
  "vword (fst (save_cl0_insert ge l)) = vword l" "modstate (fst (save_cl0_insert ge l)) = modstate l"
  "parent_ptr (fst (save_cl0_insert ge l)) = parent_ptr l" "loggedepoch (fst (save_cl0_insert ge l)) = ge"
  by (simp_all add: save_cl1_2_update_def save_cl0_insert_def Let_def update_epochs_def invalidate_cls_def)

lemma recorded_fields:
  "lv (fst (record_node ge l)) = lv l" "ikey0 (fst (record_node ge l)) = ikey0 l"
  "keylenx (fst (record_node ge l)) = keylenx l" "permutation (fst (record_node ge l)) = permutation l"
  "ksuf (fst (record_node ge l)) = ksuf l" "iksuf (fst (record_node ge l)) = iksuf l"
  "vword (fst (record_node ge l)) = vword l" "modstate (fst (record_node ge l)) = modstate l"
  "parent_ptr (fst (record_node ge l)) = parent_ptr l" "loggedepoch (fst (record_node ge l)) = ge"
  by (simp_all add: record_node_def Let_def invalidate_cls_def)


text \<open>
  The search of an operation on a quiescent tree: the cursor holds the lock of the leaf \<open>l\<close>
  at \<open>n\<close> where the string ends, with the rank, slot and state of the rest \<open>ka\<close> of the key.
\<close>

definition located :: "nat \<Rightarrow> nat \<Rightarrow> nat \<Rightarrow> heap \<Rightarrow> u64 \<Rightarrow> bytes \<Rightarrow> u64 \<Rightarrow> key \<Rightarrow> leaf \<Rightarrow> heap \<Rightarrow> nat \<Rightarrow> int \<Rightarrow> int \<Rightarrow> bool" where
  "located fuel d ht h root s n ka l h0 i p m \<longleftrightarrow>
     trie_find d ht (recovered h) root (str_key s) = Some (n, ka) \<and> key_wf ka
     \<and> leaf_at (recovered h) n = Some l \<and> (\<exists>outer. leaf_ok outer (recovered h) 0 (2 ^ 64) l) \<and> leaf_calm (recovered h) l
     \<and> leaf_lower l ka = (i, p) \<and> (if p \<ge> 0 then ksuf_matches (recovered h) l (nat p) ka else Some 0) = Some m \<and> m \<ge> 0
     \<and> recovered h0 = recovered h \<and> leaf_at h0 n = Some l
     \<and> find_locked fuel root (tcursor_make root s) h
         = Some ((tcursor_make root s)\<lparr>tc_n := n, tc_ka := ka, tc_i := i, tc_p := p, tc_state := m\<rparr>, put_node n (Leaf (lock_leaf l)) h0)"

lemma locate:
  assumes inv: "tree_inv d ht h root" and "2 * d + ht + 1 \<le> fuel"
  shows "\<exists>n ka l h0 i p m. located fuel d ht h root s n ka l h0 i p m"
proof -
  have k: "key_wf (str_key s)" using key_string_wf [of 0 "length s" s] by (simp add: str_key_def)
  have c: "tc_ka (tcursor_make root s) = str_key s" by (simp add: tcursor_make_def)
  have t: "trie_ok d ht True (recovered h) root" "calm d ht (recovered h) root" using inv by (simp_all add: tree_inv_def)
  from find_locked_trie [OF t, of "tcursor_make root s", unfolded c, OF k disjI1 [OF TrueI] assms(2)] show ?thesis
    unfolding located_def by blast
qed

lemma locatedD:
  assumes "located fuel d ht h root s n ka l h0 i p m"
  shows "trie_find d ht (recovered h) root (str_key s) = Some (n, ka)" "key_wf ka" "leaf_at (recovered h) n = Some l"
    "\<exists>outer. leaf_ok outer (recovered h) 0 (2 ^ 64) l" "leaf_lower l ka = (i, p)"
    "(if p \<ge> 0 then ksuf_matches (recovered h) l (nat p) ka else Some 0) = Some m" "m \<ge> 0"
    "recovered h0 = recovered h" "leaf_at h0 n = Some l" "globalepoch h0 = globalepoch h"
    "find_locked fuel root (tcursor_make root s) h
       = Some ((tcursor_make root s)\<lparr>tc_n := n, tc_ka := ka, tc_i := i, tc_p := p, tc_state := m\<rparr>, put_node n (Leaf (lock_leaf l)) h0)"
    "quiescent (vword l)" "clean_leaf (vword l)" "modstate l \<noteq> modstate_deleted_layer"
proof -
  have "recovered h0 = recovered h" using assms unfolding located_def by blast
  from arg_cong [OF this, of globalepoch] show "globalepoch h0 = globalepoch h" by simp
  show "quiescent (vword l)" "modstate l \<noteq> modstate_deleted_layer" using assms by (simp_all add: located_def leaf_calm_def)
  show "clean_leaf (vword l)" using assms by (auto simp: located_def leaf_ok_def clean_leaf_def)
qed (use assms in \<open>simp_all add: located_def split del: if_split\<close>)

lemma lock_leaf_fields [simp]:
  "vword (lock_leaf l) = vword l OR lock_bit" "lv (lock_leaf l) = lv l" "ikey0 (lock_leaf l) = ikey0 l" "keylenx (lock_leaf l) = keylenx l"
  "permutation (lock_leaf l) = permutation l" "ksuf (lock_leaf l) = ksuf l" "iksuf (lock_leaf l) = iksuf l"
  "modstate (lock_leaf l) = modstate l" "parent_ptr (lock_leaf l) = parent_ptr l" "prev_ptr (lock_leaf l) = prev_ptr l"
  by (simp_all add: lock_leaf_def)

lemma finish_plain:
  assumes "only_leaf n l h0 h1" "tc_n c = n" "\<not> (state < 0 \<and> tc_state c = 1)" "\<not> (state > 0 \<and> tc_state c = 2)"
  shows "\<exists>c' h'. tcursor_finish fuel state c h1 = Some (c', h') \<and> only_leaf n (l\<lparr>vword := unlock (vword l)\<rparr>) h0 h'"
  using only_leaf_version [OF assms(1), of unlock] only_leaf_at [OF assms(1)] assms(2-)
  by (auto simp: tcursor_finish_def node_unlock_def)

lemma finish_insert_leaf:
  assumes "only_leaf n l h0 h1" "tc_n c = n" "state > 0" "tc_state c = 2"
  shows "\<exists>c' h'. tcursor_finish fuel state c h1 = Some (c', h')
    \<and> only_leaf n (l\<lparr>permutation := snd (insert_from_back 14 (tc_i c) (permutation l)), vword := unlock (vword l)\<rparr>) h0 h'"
proof -
  let ?f = "\<lambda>l. l\<lparr>permutation := snd (insert_from_back leaf_width (tc_i c) (permutation l))\<rparr>"
  obtain h2 where h2: "upd_leaf ?f n h1 = Some h2" "only_leaf n (?f l) h0 h2" using only_leaf_upd [OF assms(1)] by blast
  then show ?thesis using only_leaf_version [OF h2(2), of unlock] only_leaf_at [OF h2(2)] assms(2-)
    by (auto simp: tcursor_finish_def node_unlock_def finish_insert_def leaf_width_def)
qed

lemma finish_remove_leaf:
  assumes "only_leaf n l h0 h1" "tc_n c = n" "state < 0" "tc_state c = 1" "kp_size (kp_remove (tc_i c) (permutation l)) \<noteq> 0"
  shows "\<exists>c' h'. tcursor_finish fuel state c h1 = Some (c', h')
    \<and> only_leaf n (l\<lparr>modstate := if modstate l = modstate_insert then modstate_remove else modstate l,
        permutation := kp_remove (tc_i c) (permutation l),
        vword := unlock (if modstate l = modstate_insert then mark_insert (vword l) else vword l)\<rparr>) h0 h'"
proof -
  let ?l1 = "if modstate l = modstate_insert then l\<lparr>vword := mark_insert (vword l), modstate := modstate_remove\<rparr> else l"
  obtain h2 where h2: "(if modstate l = modstate_insert
      then do { h1 \<leftarrow> upd_version mark_insert n h1; upd_leaf (\<lambda>l. l\<lparr>modstate := modstate_remove\<rparr>) n h1 } else Some h1) = Some h2"
    "only_leaf n ?l1 h0 h2"
  proof (cases "modstate l = modstate_insert")
    case True
    obtain ha where ha: "upd_version mark_insert n h1 = Some ha" "only_leaf n (l\<lparr>vword := mark_insert (vword l)\<rparr>) h0 ha"
      using only_leaf_version [OF assms(1)] by blast
    then show ?thesis using True that only_leaf_upd [OF ha(2), of "\<lambda>l. l\<lparr>modstate := modstate_remove\<rparr>"] by auto
  qed (use assms(1) that in simp)
  let ?perm = "kp_remove (tc_i c) (permutation l)"
  obtain h3 where h3: "upd_leaf (\<lambda>l. l\<lparr>permutation := ?perm\<rparr>) n h2 = Some h3" "only_leaf n (?l1\<lparr>permutation := ?perm\<rparr>) h0 h3"
    using only_leaf_upd [OF h2(2)] by blast
  obtain h4 where h4: "upd_version unlock n h3 = Some h4"
    "only_leaf n (?l1\<lparr>permutation := ?perm, vword := unlock (vword ?l1)\<rparr>) h0 h4"
    using only_leaf_version [OF h3(2), of unlock] by auto
  have "finish_remove fuel c h1 = Some (False, h3)"
    unfolding finish_remove_def assms(2) using only_leaf_at [OF assms(1)] assms(5) h2(1) h3(1) by (simp split del: if_split)
  then have "\<exists>c'. tcursor_finish fuel state c h1 = Some (c', h4)"
    using assms(2-4) h4(1) only_leaf_at [OF h3(2)] by (simp add: tcursor_finish_def node_unlock_def)
  moreover have "?l1\<lparr>permutation := ?perm, vword := unlock (vword ?l1)\<rparr> = l\<lparr>modstate := if modstate l = modstate_insert then modstate_remove else modstate l,
        permutation := ?perm, vword := unlock (if modstate l = modstate_insert then mark_insert (vword l) else vword l)\<rparr>"
    by (auto intro: leaf.equality)
  ultimately show ?thesis using h4(2) by auto
qed


section \<open>Replacing, inserting, removing\<close>

lemma trie_find_lookup:
  assumes "trie_ok d ht outer h a" "key_wf ka" "trie_find d ht h a ka = Some (n, ka')" "leaf_at h n = Some l"
  shows "\<exists>sub. (\<forall>p \<in> set (leaf_active l). long_sub sub l p)
    \<and> map_of (trie_entries d ht h a) (key_str ka) = map_of (concat (map (slot_entries sub h l) (leaf_active l))) (key_str ka')"
  using assms
proof (induction d arbitrary: outer a ka)
  case (Suc d)
  let ?sub = "trie_entries d ht h"
  show ?case
  proof (rule trie_find_cases [OF Suc.prems(1-3)])
    fix r v b x
    assume r: "reach_root (Suc ht) h a = Some (r, v)" and x: "leaf_at h b = Some x" and b: "b \<in> set (leaves ht h r)"
      and xok: "leaf_ok outer h 0 (2 ^ 64) x"
      and below: "\<And>b l p. b \<in> set (leaves ht h r) \<Longrightarrow> leaf_at h b = Some l \<Longrightarrow> p \<in> set (leaf_active l)
       \<Longrightarrow> keylenx l ! p = layer_keylenx \<Longrightarrow> trie_ok d ht False h (lv l ! p)"
      and none: "\<forall>c \<in> set (leaves ht h r). c \<noteq> b \<longrightarrow> map_of (leaf_entries ?sub h c) (key_str ka) = None"
      and long: "\<forall>p \<in> set (leaf_active x). long_sub ?sub x p"
      and c: "b = n \<and> ka' = ka \<or> (\<exists>p. p \<in> set (leaf_active x) \<and> keylenx x ! p = layer_keylenx \<and> has_suffix ka
       \<and> ent_rank x p = str_rank (key_str ka) \<and> trie_find d ht h (lv x ! p) (shift ka) = Some (n, ka'))"
    have here: "map_of (trie_entries (Suc d) ht h a) (key_str ka) = map_of (concat (map (slot_entries ?sub h x) (leaf_active x))) (key_str ka)"
      unfolding trie_entries_Suc [OF r] using map_of_concat_single [OF b, of "leaf_entries ?sub h" "key_str ka"] none x
      by (simp add: leaf_entries_def)
    from c show ?thesis
    proof
      assume bn: "b = n \<and> ka' = ka"
      then show ?thesis using here long x Suc.prems(4) by auto
    next
      assume "\<exists>p. p \<in> set (leaf_active x) \<and> keylenx x ! p = layer_keylenx \<and> has_suffix ka
       \<and> ent_rank x p = str_rank (key_str ka) \<and> trie_find d ht h (lv x ! p) (shift ka) = Some (n, ka')"
      then obtain p where p: "p \<in> set (leaf_active x)" "keylenx x ! p = layer_keylenx" "has_suffix ka"
        "ent_rank x p = str_rank (key_str ka)" and find: "trie_find d ht h (lv x ! p) (shift ka) = Some (n, ka')" by blast
      have "map_of (slot_entries ?sub h x q) (key_str ka) = None" if "q \<in> set (leaf_active x)" "q \<noteq> p" for q
        using slot_entries_other [of outer h x q ?sub] leaf_active_distinct(2) [OF xok p(1) that(1)] that p(4) xok long
        by (auto simp: leaf_ok_def)
      then have "map_of (concat (map (slot_entries ?sub h x) (leaf_active x))) (key_str ka) = map_of (slot_entries ?sub h x p) (key_str ka)"
        by (rule map_of_concat_single [OF p(1)])
      also have "\<dots> = map_of (?sub (lv x ! p)) (key_str (shift ka))"
        using slot_entries_same [of outer h x p "key_str ka" ka ?sub] xok p Suc.prems(2) shift_wf(2) [OF Suc.prems(2) p(3)]
        by (auto simp: leaf_ok_def)
      finally show ?thesis
        using here Suc.IH [OF below [OF b x p(1,2)] shift_wf(1) [OF Suc.prems(2) p(3)] find Suc.prems(4)] by simp
    qed
  qed
qed simp

lemma contents_lookup:
  assumes inv: "tree_inv d ht h root" and loc: "located fuel d ht h root s n ka l h0 i p m"
  shows "contents d ht h root s = (if m = 0 then None else Some (lv l ! nat p))"
proof -
  have k: "key_wf (str_key s)" "key_str (str_key s) = s" using key_string_wf [of 0 "length s" s] by (simp_all add: str_key_def)
  have t: "trie_ok d ht True (recovered h) root" using inv by (simp add: tree_inv_def)
  note d = locatedD [OF loc]
  obtain sub where long: "\<forall>p \<in> set (leaf_active l). long_sub sub l p"
    and eq: "contents d ht h root s = map_of (concat (map (slot_entries sub (recovered h) l) (leaf_active l))) (key_str ka)"
    using trie_find_lookup [OF t k(1) d(1,3)] k(2) by (auto simp: contents_def)
  obtain o' where ok: "leaf_ok o' (recovered h) 0 (2 ^ 64) l" using d(4) by blast
  from leaf_lookup [OF ok d(2) long] show ?thesis
  proof cases
    case (1 j)
    then show ?thesis using d(5,6) eq by simp
  next
    case (2 j q k)
    then show ?thesis using d(5-7) eq by (auto split: if_splits)
  qed
qed

lemma leaf_lower_neg:
  assumes "leaf_ok outer h lo hi l" "key_wf ka" "leaf_lower l ka = (i, p)" "p < 0"
  shows "p = -1"
proof -
  have "leaf_sorted l" "0 \<le> klen ka" using assms(1,2) by (simp_all add: leaf_ok_def key_wf_def)
  from leaf_lower_cases [OF this] show ?thesis
  proof cases
    case (1 j q)
    show ?thesis using 1(1) assms(3,4) by simp
  next
    case (2 j)
    show ?thesis using 2(1) assms(3) by simp
  qed
qed

lemma ksuf_matches_range: "ksuf_matches h l p ka = Some m \<Longrightarrow> m \<ge> 0 \<Longrightarrow> m \<le> 1"
  by (auto simp: ksuf_matches_def Let_def split: if_splits bind_splits)

text \<open>Replacing the value of a string that is there.\<close>

lemma put_update:
  assumes inv: "tree_inv d ht h root" and loc: "located fuel d ht h root s n ka l h0 i p m" and p: "p \<ge> 0" "m \<noteq> 0"
  shows "\<exists>h'. cursor_put fuel root s x h = Some (True, h')
    \<and> tree_inv d ht h' root \<and> contents d ht h' root = (contents d ht h root)(s \<mapsto> x)"
proof -
  let ?ge = "globalepoch h" and ?L = "lock_leaf l"
  note d = locatedD [OF loc] and flags = locked_flags [OF locatedD(12,13) [OF loc]]
  obtain o' where ok: "leaf_ok o' (recovered h) 0 (2 ^ 64) l" using d(4) by blast
  let ?c = "(tcursor_make root s)\<lparr>tc_n := n, tc_ka := ka, tc_i := i, tc_p := p, tc_state := m,
     original_n := n, original_v := full_unlocked_version_value ?L\<rparr>"
  note start = only_leaf_start [of n ?L h0]
  have mm: "ksuf_matches (recovered h) l (nat p) ka = Some m" "m > 0" using d(6,7) p by auto
  obtain h1 where h1: "apply_logged (save_cl1_2_update ?ge (nat p)) n (put_node n (Leaf ?L) h0) = Some h1"
    "only_leaf n (fst (save_cl1_2_update ?ge (nat p) ?L)) h0 h1" using only_leaf_logged [OF start] by blast
  have fi: "find_insert fuel (tcursor_make root s) h = Some (True, ?c, h1)"
    using d(11) h1(1) mm(2) only_leaf_at [OF start] d(10) by (simp add: find_insert_def tcursor_make_def put_node_def)
  obtain h2 where h2: "set_cursor_value x ?c h1 = Some h2"
    "only_leaf n ((fst (save_cl1_2_update ?ge (nat p) ?L))\<lparr>lv := (lv l)[nat p := x]\<rparr>) h0 h2"
    using only_leaf_upd [OF h1(2), of "\<lambda>l. l\<lparr>lv := (lv l)[nat p := x]\<rparr>"] by (auto simp: set_cursor_value_def saved_fields)
  let ?l' = "(fst (save_cl1_2_update ?ge (nat p) ?L))\<lparr>lv := (lv l)[nat p := x], vword := unlock (vword l OR lock_bit)\<rparr>"
  obtain c' h3 where h3: "tcursor_finish fuel 1 ?c h2 = Some (c', h3)" "only_leaf n ?l' h0 h3"
    using finish_plain [OF h2(2), of ?c 1 fuel] ksuf_matches_range [OF mm(1) d(7)] by (auto simp: saved_fields)
  have "good_change (recovered h) l ?l' ka (Some x)"
    by (rule good_update [OF ok d(2) _ mm]) (use d(5) p flags in \<open>simp_all add: saved_fields\<close>)
  then have "tree_inv d ht h3 root \<and> contents d ht h3 root = (contents d ht h root)(s \<mapsto> x)"
    by (rule tree_store [OF inv d(1,3) ok d(8) h3(2)]) (use flags d(14) in \<open>simp_all add: saved_fields\<close>)
  then show ?thesis using fi h2(1) h3(1) by (auto simp: cursor_put_def)
qed

text \<open>Inserting a string into a free slot of its leaf.\<close>

lemma put_insert:
  assumes inv: "tree_inv d ht h root" and loc: "located fuel d ht h root s n ka l h0 i p m" and "p < 0"
    and fit: "\<not> has_suffix ka" "leaf_size l < 14" "kp_back 14 (permutation l) \<noteq> 0 \<or> prev_ptr l = 0 \<or> ikey_bound l = kikey ka"
  shows "\<exists>h'. cursor_put fuel root s x h = Some (False, h')
    \<and> tree_inv d ht h' root \<and> contents d ht h' root = (contents d ht h root)(s \<mapsto> x)"
proof -
  let ?ge = "globalepoch h" and ?L = "lock_leaf l"
  note d = locatedD [OF loc] and flags = locked_flags [OF locatedD(12,13) [OF loc]]
  obtain o' where ok: "leaf_ok o' (recovered h) 0 (2 ^ 64) l" using d(4) by blast
  let ?c = "(tcursor_make root s)\<lparr>tc_n := n, tc_ka := ka, tc_i := i, tc_p := p, tc_state := m,
     original_n := n, original_v := full_unlocked_version_value ?L\<rparr>"
  note start = only_leaf_start [of n ?L h0]
  have p: "p = -1" and m0: "m = 0" using d(6) assms(3) leaf_lower_neg [OF ok d(2,5)] by auto
  let ?ins = "modstate l \<noteq> modstate_insert" and ?p = "kp_back 14 (permutation l)"
  let ?L1 = "if ?ins then ?L\<lparr>vword := mark_insert (vword ?L), modstate := modstate_insert\<rparr> else ?L"
  obtain h1 where h1: "(if ?ins then do { h2 \<leftarrow> upd_version mark_insert n (put_node n (Leaf ?L) h0);
      upd_leaf (\<lambda>l. l\<lparr>modstate := modstate_insert\<rparr>) n h2 } else Some (put_node n (Leaf ?L) h0)) = Some h1" "only_leaf n ?L1 h0 h1"
  proof (cases ?ins)
    case True
    obtain ha where ha: "upd_version mark_insert n (put_node n (Leaf ?L) h0) = Some ha" "only_leaf n (?L\<lparr>vword := mark_insert (vword ?L)\<rparr>) h0 ha"
      using only_leaf_version [OF start] by blast
    then show ?thesis using True that only_leaf_upd [OF ha(2), of "\<lambda>l. l\<lparr>modstate := modstate_insert\<rparr>"] by auto
  qed (use start that in simp)
  have ge1: "globalepoch h1 = ?ge" using h1(2) d(10) by (simp add: only_leaf_def)
  let ?L2 = "fst (save_cl0_insert ?ge ?L1)"
  obtain h2 where h2: "apply_logged (save_cl0_insert ?ge) n h1 = Some h2" "only_leaf n ?L2 h0 h2"
    using only_leaf_logged [OF h1(2)] by blast
  let ?L3 = "?L2\<lparr>lv := (lv ?L2)[?p := 0], ikey0 := (ikey0 ?L2)[?p := kikey ka], keylenx := (keylenx ?L2)[?p := word_of_int (klen ka)]\<rparr>"
  obtain h3 where h3: "leaf_assign n ?p ka h2 = Some h3" "only_leaf n ?L3 h0 h3" using only_leaf_assign [OF h2(2) fit(1)] by blast
  let ?c3 = "?c\<lparr>tc_state := 2, tc_p := int ?p\<rparr>"
  have fi: "find_insert fuel (tcursor_make root s) h = Some (False, ?c3, h3)"
    unfolding find_insert_def
    using d(11) h1(1) h2(1) h3(1) only_leaf_at [OF start] p m0 ge1 fit
    by (simp add: tcursor_make_def leaf_width_def leaf_size_def ikey_bound_def split del: if_split)
  obtain h4 where h4: "set_cursor_value x ?c3 h3 = Some h4" "only_leaf n (?L3\<lparr>lv := (lv ?L3)[?p := x]\<rparr>) h0 h4"
    using only_leaf_upd [OF h3(2), of "\<lambda>l. l\<lparr>lv := (lv l)[?p := x]\<rparr>"] by (auto simp: set_cursor_value_def)
  let ?L4 = "?L3\<lparr>lv := (lv ?L3)[?p := x]\<rparr>"
  let ?l' = "?L4\<lparr>permutation := snd (insert_from_back 14 i (permutation ?L4)), vword := unlock (vword ?L4)\<rparr>"
  obtain c' h5 where h5: "tcursor_finish fuel 1 ?c3 h4 = Some (c', h5)" "only_leaf n ?l' h0 h5"
    using finish_insert_leaf [OF h4(2), of ?c3 1 fuel] by auto
  have L1: "lv ?L1 = lv l" "ikey0 ?L1 = ikey0 l" "keylenx ?L1 = keylenx l" "permutation ?L1 = permutation l" "ksuf ?L1 = ksuf l"
    "iksuf ?L1 = iksuf l" "parent_ptr ?L1 = parent_ptr l" "modstate ?L1 \<noteq> modstate_deleted_layer"
    "clean_leaf (unlock (vword ?L1))" "is_root (unlock (vword ?L1)) = is_root (vword l)" "quiescent (unlock (vword ?L1))"
    using flags d(14) by (simp_all add: modstate_insert_def modstate_deleted_layer_def)
  have "good_change (recovered h) l ?l' ka (Some x)"
    by (rule good_insert [OF ok d(2) fit(1) _ fit(2) refl]) (use d(5) p L1 in \<open>simp_all add: saved_fields\<close>)
  then have "tree_inv d ht h5 root \<and> contents d ht h5 root = (contents d ht h root)(s \<mapsto> x)"
    by (rule tree_store [OF inv d(1,3) ok d(8) h5(2)]) (use L1 in \<open>simp_all add: saved_fields\<close>)
then show ?thesis using fi h4(1) h5(1) by (auto simp: cursor_put_def)
qed



text \<open>Where a removal leaves its leaf with another key.\<close>

definition remove_fits :: "nat \<Rightarrow> nat \<Rightarrow> heap \<Rightarrow> u64 \<Rightarrow> bytes \<Rightarrow> bool" where
  "remove_fits d ht h root s \<longleftrightarrow>
     (case trie_find d ht h root (str_key s) of
        None \<Rightarrow> False
      | Some (n, ka) \<Rightarrow> (case leaf_at h n of None \<Rightarrow> False | Some l \<Rightarrow> leaf_size l > 1))"

lemma unlock_quiescent: "quiescent v \<Longrightarrow> unlock (v OR lock_bit) = v"
proof -
  assume q: "quiescent v"
  then have "unlock (v OR lock_bit) = (v OR lock_bit) AND unlock_mask"
    by (intro unlock_plain) (simp_all add: quiescent_def bit_or_iff bit_consts)
  also have "\<dots> = v"
  proof (rule bit_word_eqI)
    fix n assume "n < LENGTH(32)"
    then show "bit ((v OR lock_bit) AND unlock_mask) n = bit v n"
      using q bits_below_32 [of n] by (auto simp: quiescent_def bit_and_iff bit_or_iff bit_masks bit_consts)
  qed
  finally show ?thesis .
qed

text \<open>A string that is not there: the leaf is unlocked as it was.\<close>

lemma remove_absent:
  assumes inv: "tree_inv d ht h root" and loc: "located fuel d ht h root s n ka l h0 i p m" and "m = 0"
  shows "cursor_remove fuel root s h = Some (False, h0)"
proof -
  note d = locatedD [OF loc]
  let ?c = "(tcursor_make root s)\<lparr>tc_n := n, tc_ka := ka, tc_i := i, tc_p := p, tc_state := m\<rparr>"
  have n: "nodes h0 n = Some (Leaf l)" using d(9) by (simp add: leaf_at_iff)
  have undone: "(lock_leaf l)\<lparr>vword := unlock (vword l OR lock_bit)\<rparr> = l" using unlock_quiescent [OF d(12)] by (simp add: lock_leaf_def)
  have "put_node n (Leaf l) (put_node n (Leaf (lock_leaf l)) h0) = h0"
    using n by (simp add: put_node_def fun_upd_idem)
  then have "node_unlock n (put_node n (Leaf (lock_leaf l)) h0) = Some h0"
    using undone by (simp add: node_unlock_def upd_version_def) (simp add: put_node_def)
  then show ?thesis using d(11) assms(3)
    by (simp add: cursor_remove_def tcursor_finish_def leaf_at_def put_node_def)
qed

lemma remove_present:
  assumes inv: "tree_inv d ht h root" and loc: "located fuel d ht h root s n ka l h0 i p m" and "m \<noteq> 0" "leaf_size l > 1"
  shows "\<exists>h'. cursor_remove fuel root s h = Some (True, h')
    \<and> tree_inv d ht h' root \<and> contents d ht h' root = (contents d ht h root)(s := None)"
proof -
  let ?ge = "globalepoch h" and ?L = "lock_leaf l"
  note d = locatedD [OF loc] and flags = locked_flags [OF locatedD(12,13) [OF loc]]
  obtain o' where ok: "leaf_ok o' (recovered h) 0 (2 ^ 64) l" using d(4) by blast
  let ?c = "(tcursor_make root s)\<lparr>tc_n := n, tc_ka := ka, tc_i := i, tc_p := p, tc_state := m\<rparr>"
  note start = only_leaf_start [of n ?L h0]
  have p: "p \<ge> 0" and mm: "ksuf_matches (recovered h) l (nat p) ka = Some m" "m > 0" using d(6,7) assms(3) by (auto split: if_splits)
  have m1: "m = 1" using ksuf_matches_range [OF mm(1)] mm(2) by simp
  have low: "leaf_lower l ka = (i, int (nat p))" using d(5) p by simp
  obtain h1 where h1: "log_persistent n (put_node n (Leaf ?L) h0) = Some h1" "only_leaf n (fst (record_node ?ge ?L)) h0 h1"
    using only_leaf_record [OF start] d(10) by auto
  have "i < kp_size (permutation l)" using leaf_lower_rank(1) [OF ok d(2) low] by (simp add: leaf_size_def)
  then have sz: "kp_size (kp_remove i (permutation l)) \<noteq> 0" using assms(4) by (simp add: leaf_size_def)
  let ?rm = "modstate l = modstate_insert"
  let ?l' = "(fst (record_node ?ge ?L))\<lparr>modstate := if ?rm then modstate_remove else modstate l, permutation := kp_remove i (permutation l),
     vword := unlock (if ?rm then mark_insert (vword ?L) else vword ?L)\<rparr>"
  obtain c' h2 where h2: "tcursor_finish fuel (-1) ?c h1 = Some (c', h2)" "only_leaf n ?l' h0 h2"
    using finish_remove_leaf [OF h1(2), of ?c "-1" fuel] m1 sz by (auto simp: recorded_fields cong: if_cong)
  have "good_change (recovered h) l ?l' ka None"
    by (rule good_remove [OF ok d(2) low mm]) (use flags in \<open>simp_all add: recorded_fields\<close>)
  then have "tree_inv d ht h2 root \<and> contents d ht h2 root = (contents d ht h root)(s := None)"
    by (rule tree_store [OF inv d(1,3) ok d(8) h2(2)])
      (use flags d(14) in \<open>simp_all add: recorded_fields modstate_remove_def modstate_deleted_layer_def\<close>)
  then show ?thesis using d(11) h1(1) h2(1) m1 by (auto simp: cursor_remove_def)
qed

text \<open>
  C3.  Removing a key refines the deletion from the map of contents.  On a quiescent
  well-formed tree where the leaf of the string has another key too, the search, the log of
  the leaf and \<open>finish\<close> end, with enough fuel, in a quiescent well-formed tree without the
  string and with all other strings as before; the operation reports whether the string
  was there.
\<close>

theorem cursor_remove_refines_delete:
  assumes inv: "tree_inv d ht h root" and "2 * d + ht + 1 \<le> fuel" and fits: "remove_fits d ht (recovered h) root s"
  shows "\<exists>h'. cursor_remove fuel root s h = Some (contents d ht h root s \<noteq> None, h')
    \<and> tree_inv d ht h' root \<and> contents d ht h' root = (contents d ht h root)(s := None)"
proof -
  obtain n ka l h0 i p m where loc: "located fuel d ht h root s n ka l h0 i p m" using locate [OF assms(1,2)] by blast
  note d = locatedD [OF loc]
  have old: "contents d ht h root s = (if m = 0 then None else Some (lv l ! nat p))" by (rule contents_lookup [OF inv loc])
  show ?thesis
  proof (cases "m = 0")
    case True
    have "failedepoch h0 = failedepoch h" using arg_cong [OF d(8), of failedepoch] by simp
    then have "tree_inv d ht h0 root \<and> contents d ht h0 root = contents d ht h root"
      using inv d(8,10) by (simp add: tree_inv_def contents_def)
    then show ?thesis using remove_absent [OF inv loc True] old True by (simp add: fun_upd_idem)
  next
    case False
    have "leaf_size l > 1" using fits d(1,3) by (simp add: remove_fits_def)
    then show ?thesis using remove_present [OF inv loc False] old False by simp
  qed
qed

section \<open>The operations on a small tree\<close>

lemma demo_calm_leaves:
  "quiescent (vword demo_a)" "quiescent (vword demo_z)" "quiescent (vword demo_c)" "quiescent (vword demo_failed)"
  "modstate demo_a = modstate_insert" "modstate (lazy_recovery 6 5 demo_failed) = modstate_insert" "modstate demo_c = modstate_insert"
proof -
  show "quiescent (vword demo_a)" "quiescent (vword demo_z)" "quiescent (vword demo_c)" "quiescent (vword demo_failed)"
    by (simp_all add: demo_failed_def saved_fields demo_a_def demo_z_def demo_c_def demo_leaf_def quiescent_def nodeversion_def mark_root_def bit_or_iff bit_consts)
qed (simp_all add: demo_a_def demo_c_def demo_failed_def demo_z_def saved_fields lazy_recovery_def undo_incll_def recover_final_def
    update_epochs_def invalidate_cls_def recover_cl0_def recover_cl1_def recover_cl2_def demo_leaf_def blank_leaf_def modstate_insert_def)

lemma demo_inv: "tree_inv (Suc (Suc 0)) (Suc 0) demo_heap 0x4000"
proof -
  let ?R = "recovered demo_heap"
  note shape = demo_shape [OF demo_nodes]
  have ls: "trie_leaves (Suc (Suc 0)) (Suc 0) ?R 0x4000 = [0x1000, 0x3000, 0x2000]"
    by (simp add: trie_leaves_Suc [OF shape(1)] trie_leaves_Suc [OF shape(2)] shape(3,4) leaf_and_below_eq [OF shape(5)]
        leaf_and_below_eq [OF shape(6)] leaf_and_below_eq [OF shape(7)] demo_slots slot_layers_def layer_keylenx_def)
  have "node_version ?R 0x3000 = Some (vword demo_c)" unfolding node_version_def demo_nodes(4) by simp
  then have "calm (Suc (Suc 0)) (Suc 0) ?R 0x4000"
    using demo_calm_leaves demo_inode(4)
    by (simp add: calm_def ls shape(5-7) leaf_calm_def demo_slots layer_keylenx_def modstate_insert_def modstate_deleted_layer_def
      demo_recovered(1) del: recovered_version)
  then show ?thesis using demo_trie(1) by (simp add: tree_inv_def ls) (simp add: demo_heap_def)
qed

lemma str_key_fields: "kikey (str_key s) = ikey_of s" "klen (str_key s) = int (length s)" "key_str (str_key s) = s" "key_wf (str_key s)"
  using key_string_wf [of 0 "length s" s] by (auto simp: str_key_def key_wf_def key_string_def)

lemma lower_single:
  "lower_bound_loop perm c n n = (n, -1)"
  "lower_bound_loop perm c n (Suc n) = (let cmp = c (perm n) in if cmp < 0 then (n, -1) else if cmp = 0 then (n, int (perm n)) else (Suc n, -1))"
proof -
  show n: "lower_bound_loop perm c n n = (n, -1)" for n by (subst lower_bound_loop.simps) simp
  have "(n + Suc n) div 2 = n" by simp
  then show "lower_bound_loop perm c n (Suc n) = (let cmp = c (perm n) in if cmp < 0 then (n, -1) else if cmp = 0 then (n, int (perm n)) else (Suc n, -1))"
    by (subst lower_bound_loop.simps) (simp add: Let_def n)
qed

lemma demo_lower:
  "leaf_lower (lazy_recovery 6 5 demo_failed) ka
     = (let cmp = compare_ikey ka (ikey_of [122]) 1 in if cmp < 0 then (0, -1) else if cmp = 0 then (0, 0) else (1, -1))"
  "leaf_size demo_a = 2" "leaf_lower demo_a (str_key [97]) = (0, 0)"
proof -
  let ?z = "lazy_recovery 6 5 demo_failed"
  have sz: "leaf_size ?z = Suc 0" using arg_cong [OF demo_slots(2), of length] by (simp add: leaf_active_def)
  then have p: "leaf_perm ?z 0 = 0" using demo_slots(2) by (simp add: leaf_active_def)
  have "ikey0 ?z ! 0 = ikey_of [122]" by (simp add: demo_recovered(2) demo_z_def demo_leaf_fields)
  then have "leaf_compare_key ?z ka 0 = compare_ikey ka (ikey_of [122]) 1" using demo_slots(6) by (simp add: leaf_compare_key_def)
  then show "leaf_lower ?z ka
     = (let cmp = compare_ikey ka (ikey_of [122]) 1 in if cmp < 0 then (0, -1) else if cmp = 0 then (0, 0) else (1, -1))"
    unfolding leaf_lower_def key_lower_bound_by_def sz lower_single p Let_def by simp
  have sa: "leaf_size demo_a = Suc (Suc 0)" using arg_cong [OF demo_slots(1), of length] by (simp add: leaf_active_def)
  then show "leaf_size demo_a = 2" by simp
  have pa: "leaf_perm demo_a 0 = 0" "leaf_perm demo_a (Suc 0) = Suc 0" using demo_slots(1) sa by (simp_all add: leaf_active_def)
  have ka: "kikey (str_key [97]) = ikey_of [97]" "klen (str_key [97]) = 1" using str_key_fields [of "[97]"] by simp_all
  have "ikey0 demo_a ! 0 = ikey_of [97]" "ikey0 demo_a ! Suc 0 = ikey_of [98, 98, 98, 98, 98, 98, 98, 98]"
    by (simp_all add: demo_a_def demo_leaf_fields)
  moreover have "ikey_of [97] < ikey_of [98, 98, 98, 98, 98, 98, 98, 98]" by (simp add: ikey_of_less pad8_def)
  ultimately have "leaf_compare_key demo_a (str_key [97]) 0 = 0" "leaf_compare_key demo_a (str_key [97]) (Suc 0) < 0"
    using demo_slots(4,5) ka by (simp_all add: leaf_compare_key_def compare_ikey_def compare_u64_def ikey_size_def)
  moreover have "(0 + Suc (Suc 0)) div 2 = Suc 0" by simp
  ultimately show "leaf_lower demo_a (str_key [97]) = (0, 0)"
    unfolding leaf_lower_def key_lower_bound_by_def sa using pa
    by (subst lower_bound_loop.simps) (simp add: Let_def lower_single)
qed

lemma demo_fv: "vword demo_failed = vword demo_z"
  by (simp add: demo_failed_def saved_fields)

lemma demo_reach:
  "reach_leaf (Suc (Suc 0)) (recovered demo_heap) (str_key s) 0x4000
     = Some (if ikey_of s < ikey_of [109] then (0x1000, vword demo_a) else (0x2000, vword demo_z))"
proof -
  let ?R = "recovered demo_heap"
  note shape = demo_shape [OF demo_nodes]
  have u: "internode_upper demo_root (ikey_of s) = of_bool (\<not> ikey_of s < ikey_of [109])"
    using demo_inode
    by (simp add: internode_upper_def key_upper_bound_by_def upper_bound_loop.simps [of _ _ 0 "Suc 0"] upper_bound_loop.simps [of _ _ "Suc 0" "Suc 0"]
       upper_bound_loop.simps [of _ _ 0 0] internode_compare_key_def compare_u64_def)
  have "inode_at ?R 0x4000 = Some demo_root" "node_version ?R 0x4000 = Some (vword demo_root)"
    "node_stable ?R 0x2000 = Some (vword demo_z)" "isleaf (vword demo_z)" "node_stable ?R 0x1000 = Some (vword demo_a)" "isleaf (vword demo_a)"
    using demo_leaves(1,2) [of ?R] unfolding node_stable_def node_version_def demo_nodes inode_at_iff
    by (simp_all add: demo_recovered(1) demo_fv leaf_ok_def)
  then show ?thesis
    unfolding reach_leaf_def shape(1) using demo_inode u by (simp add: str_key_fields Let_def)
qed

lemma demo_find:
  "ikey_of [109] < ikey_of s \<Longrightarrow> trie_find (Suc (Suc 0)) (Suc 0) (recovered demo_heap) 0x4000 (str_key s) = Some (0x2000, str_key s)"
  "trie_find (Suc (Suc 0)) (Suc 0) (recovered demo_heap) 0x4000 (str_key [97]) = Some (0x1000, str_key [97])"
proof -
  note shape = demo_shape [OF demo_nodes]
  assume "ikey_of [109] < ikey_of s"
  then have "\<not> ikey_of s < ikey_of [109]" by simp
  then show "trie_find (Suc (Suc 0)) (Suc 0) (recovered demo_heap) 0x4000 (str_key s) = Some (0x2000, str_key s)"
    using shape(6) demo_lower(1) [of "str_key s"] demo_slots(6) by (simp add: demo_reach layer_keylenx_def Let_def del: recovered_reach_leaf)
next
  note shape = demo_shape [OF demo_nodes]
  have "ikey_of [97] < ikey_of [109]" by (simp add: ikey_of_less pad8_def)
  then show "trie_find (Suc (Suc 0)) (Suc 0) (recovered demo_heap) 0x4000 (str_key [97]) = Some (0x1000, str_key [97])"
    using shape(5) demo_lower(3) demo_slots(4) by (simp add: demo_reach layer_keylenx_def Let_def del: recovered_reach_leaf)
qed

lemma demo_contents: "contents (Suc (Suc 0)) (Suc 0) demo_heap 0x4000 = [[97] \<mapsto> 0x10, [98, 98, 98, 98, 98, 98, 98, 98, 99] \<mapsto> 0x30, [122] \<mapsto> 0x20]"
  unfolding contents_def demo_trie(2) by auto

lemma demo_put_fits: "put_fits (Suc (Suc 0)) (Suc 0) (recovered demo_heap) 0x4000 [122]"
   "put_fits (Suc (Suc 0)) (Suc 0) (recovered demo_heap) 0x4000 [120]"
proof -
  let ?z = "lazy_recovery 6 5 demo_failed"
  have o: "ikey_of [109] < ikey_of [122]" "ikey_of [109] < ikey_of [120]" "ikey_of [120] < ikey_of [122]"
    by (simp_all add: ikey_of_less pad8_def)
  have "prev_ptr ?z = 0" "has_suffix (str_key [120]) = False" "leaf_size ?z = 1"
    using arg_cong [OF demo_slots(2), of length]
    by (simp_all add: leaf_active_def has_suffix_def str_key_fields ikey_size_def lazy_recovery_def undo_incll_def recover_final_def update_epochs_def
        invalidate_cls_def recover_cl0_def recover_cl1_def recover_cl2_def demo_failed_def saved_fields demo_z_def demo_leaf_def blank_leaf_def
        save_cl1_2_update_def Let_def)
  moreover have "snd (leaf_lower ?z (str_key [122])) = 0" "snd (leaf_lower ?z (str_key [120])) = -1" 
    using o by (simp_all add: demo_lower(1) Let_def compare_ikey_def str_key_fields compare_u64_def ikey_size_def)
  ultimately show "put_fits (Suc (Suc 0)) (Suc 0) (recovered demo_heap) 0x4000 [122]"
   "put_fits (Suc (Suc 0)) (Suc 0) (recovered demo_heap) 0x4000 [120]"
    using demo_shape(6) [OF demo_nodes] demo_slots(6) by (simp_all add: put_fits_def demo_find o ksuf_matches_def ksuf_keylenx_def leaf_width_def Let_def del: trie_find.simps)
qed


lemma cursor_remove_refines_delete_witness:
  "\<exists>h'. cursor_remove 6 0x4000 [97] demo_heap = Some (True, h') \<and> contents (Suc (Suc 0)) (Suc 0) h' 0x4000 [97] = None
     \<and> contents (Suc (Suc 0)) (Suc 0) h' 0x4000 [122] = Some 0x20"
proof -
  have f: "2 * Suc (Suc 0) + Suc 0 + 1 \<le> 6" by simp
  have "remove_fits (Suc (Suc 0)) (Suc 0) (recovered demo_heap) 0x4000 [97]"
    using demo_shape(5) [OF demo_nodes] by (simp add: remove_fits_def demo_find demo_lower(2) del: trie_find.simps)
  from cursor_remove_refines_delete [OF demo_inv f this] show ?thesis by (auto simp: demo_contents)
qed
end
