(* ===== verification/Tree_Split.thy ===== *)
theory Tree_Split
  imports Tree_Put
begin

text \<open>
  Splitting a full leaf (\<open>leaf::split_into\<close>): the split point and what the two leaves hold.
\<close>

section \<open>The split point\<close>

lemma mid_search_some:
  assumes "midl < int j" "j < midr" "j \<le> width" "\<forall>i \<le> width. midl < int i \<longrightarrow> i < midr \<longrightarrow> ik i = mid_ikey"
    "\<exists>i \<le> width. ik i \<noteq> mid_ikey"
  shows "\<exists>mid. mid_search ik mid_ikey width midl midr = Some mid \<and> 0 < mid \<and> mid \<le> width \<and> ik (mid - 1) \<noteq> ik mid"
  using assms
proof (induction ik mid_ikey width midl midr rule: mid_search.induct)
  case (1 ik mid_ikey width midl midr)
  note step = mid_search.simps [of ik mid_ikey width midl midr]
  show ?case
  proof (cases "midr \<le> width \<and> mid_ikey \<noteq> ik midr")
    case True
    then have "midr - 1 \<le> width" "midl < int (midr - 1)" "midr - 1 < midr" using 1(2,3) by auto
    then have "ik (midr - 1) = mid_ikey" using 1(5) by blast
    then show ?thesis using True 1(3) by (auto simp: step)
  next
    case r: False
    show ?thesis
    proof (cases "midl \<ge> 0 \<and> mid_ikey \<noteq> ik (nat midl)")
      case True
      then have "nat midl + 1 \<le> width" "midl < int (nat midl + 1)" "nat midl + 1 < midr" using 1(2-4) by auto
      then have "ik (nat midl + 1) = mid_ikey" using 1(5) by blast
      then show ?thesis using True r 1(2,4) by (auto simp: step)
    next
      case l: False
      have "\<not> (midr > width \<and> midl < 0)" using 1(5,6) by force
      moreover have "ik i = mid_ikey" if "i \<le> width" "midl - 1 < int i" "i < midr + 1" for i
        using that 1(5) r l by (cases "int i = midl"; cases "i = midr") auto
      ultimately show ?thesis using 1(1) [OF r l] 1(2-4,6) r l step by (smt (verit, best) less_Suc_eq Suc_eq_plus1)
    qed
  qed
qed

text \<open>The ranks of a leaf's entries with a new key at position \<open>p\<close>.\<close>

definition rank_after_insert :: "leaf \<Rightarrow> key \<Rightarrow> nat \<Rightarrow> nat \<Rightarrow> nat" where
  "rank_after_insert l ka p i =
     (if i < p then ent_rank l (leaf_perm l i) else if i = p then str_rank (key_str ka) else ent_rank l (leaf_perm l (i - 1)))"

lemma rank_after_insert_step:
  assumes "leaf_ok outer h lo hi l" "key_wf ka" "leaf_lower l ka = (p, -1)" "i < leaf_size l"
  shows "rank_after_insert l ka p i < rank_after_insert l ka p (Suc i)"
proof -
  note miss = leaf_lower_miss [OF assms(1-3)]
  have "ent_rank l (leaf_perm l j) < ent_rank l (leaf_perm l k)" if "j < k" "k < leaf_size l" for j k
    using assms(1) that by (simp add: leaf_ok_def leaf_sorted_def leaf_active_def sorted_wrt_iff_nth_less)
  note ord = this
  consider "Suc i < p" | "Suc i = p" | "i = p" | "p < i" by linarith
  then show ?thesis
  proof cases
    case 1
    then show ?thesis using ord [of i "Suc i"] miss(1) by (simp add: rank_after_insert_def)
  next
    case 4
    then show ?thesis using ord [of "i - 1" i] assms(4) by (simp add: rank_after_insert_def)
  qed (use miss(2) [of i] miss(3) [of i] assms(4) in \<open>simp_all add: rank_after_insert_def\<close>)
qed

lemma ikey_after_insert_rank:
  "key_wf ka \<Longrightarrow> unat (ikey_after_insert l (permutation l) i ka p) = rank_after_insert l ka p i div 10"
  by (simp add: ikey_after_insert_def rank_after_insert_def ent_rank_def str_rank_def leaf_perm_def key_wf_def)

text \<open>
  C19.  A full leaf has a split point.  When a new key goes to position \<open>p\<close> of a sorted leaf
  with at least 13 entries, the search for a split point ends, at a position inside the
  leaf, and the split does not separate two keys with the same slice: at most ten keys of a
  leaf share a slice, one for each length up to eight and one longer.
\<close>

theorem leaf_split_mid_terminates:
  assumes "leaf_ok outer h lo hi l" "key_wf ka" "leaf_lower l ka = (p, -1)" "leaf_width - 1 \<le> leaf_size l"
  shows "\<exists>mid. leaf_split_mid l p ka = Some mid \<and> 0 < mid \<and> mid \<le> leaf_size l
    \<and> ikey_after_insert l (permutation l) (mid - 1) ka p < ikey_after_insert l (permutation l) mid ka p"
proof -
  let ?ik = "\<lambda>i. ikey_after_insert l (permutation l) i ka p" and ?r = "rank_after_insert l ka p" and ?w = "leaf_size l"
  define mid where "mid = (if p = 0 \<and> prev_ptr l = 0 then 1 else if p = ?w \<and> next_ptr l = 0 then ?w else leaf_width div 2 + 1)"
  have w: "13 \<le> ?w" using assms(4) by (simp add: leaf_width_def)
  then have mid: "0 < mid" "mid \<le> ?w" by (auto simp: mid_def leaf_width_def)
  have up: "?r 0 + i \<le> ?r i" if "i \<le> ?w" for i
    using that
  proof (induction i)
    case (Suc i)
    then show ?case using rank_after_insert_step [OF assms(1-3), of i] by simp
  qed simp
  have mono: "?ik (m - 1) < ?ik m" if "0 < m" "m \<le> ?w" "?ik (m - 1) \<noteq> ?ik m" for m
  proof -
    have "m - 1 < ?w" "Suc (m - 1) = m" using that by auto
    then have "?r (m - 1) < ?r m" using rank_after_insert_step [OF assms(1-3), of "m - 1"] by simp
    then have "?r (m - 1) div 10 \<le> ?r m div 10" by (intro div_le_mono) simp
    then have "unat (?ik (m - 1)) \<le> unat (?ik m)" by (simp only: ikey_after_insert_rank [OF assms(2)])
    then show ?thesis using that(3) by (simp add: word_le_nat_alt [symmetric])
  qed
  have "?r 0 div 10 \<noteq> ?r ?w div 10" using up [of ?w] w by linarith
  then have ends: "?ik 0 \<noteq> ?ik ?w" using ikey_after_insert_rank [OF assms(2)] by metis
  have eq: "leaf_split_mid l p ka = (if ?ik mid = ?ik (mid - 1) then mid_search ?ik (?ik mid) ?w (int mid - 2) (mid + 1) else Some mid)"
    by (simp add: leaf_split_mid_def mid_def Let_def)
  show ?thesis
  proof (cases "?ik mid = ?ik (mid - 1)")
    case True
    have "int mid - 2 < int mid" "mid < mid + 1" by simp_all
    moreover have "?ik i = ?ik mid" if "int mid - 2 < int i" "i < mid + 1" for i
    proof -
      have "i = mid \<or> i = mid - 1" using that mid(1) by linarith
      then show ?thesis using True by auto
    qed
    moreover have "\<exists>i \<le> ?w. ?ik i \<noteq> ?ik mid" using ends by (metis le_refl zero_le)
    ultimately have "\<exists>m. mid_search ?ik (?ik mid) ?w (int mid - 2) (mid + 1) = Some m \<and> 0 < m \<and> m \<le> ?w \<and> ?ik (m - 1) \<noteq> ?ik m"
      using mid(2) by (intro mid_search_some [where j = mid and ik = ?ik]) blast+
    then show ?thesis unfolding eq using True mono by (metis (no_types, lifting))
  next
    case False
    then show ?thesis unfolding eq using mid mono [of mid] by metis
  qed
qed

definition demo_full :: leaf where
  "demo_full = demo_leaf True (map (\<lambda>i. [of_nat i]) [0..<14]) (replicate 14 1) (replicate 14 0x10)"

lemma demo_full_ok: "leaf_ok True h 0 (2 ^ 64) demo_full" "leaf_lower demo_full (str_key [200]) = (14, -1)" "leaf_size demo_full = 14"
proof -
  let ?l = demo_full
  have act: "leaf_active ?l = [0..<14]" by (simp add: demo_full_def demo_leaf_fields)
  have ik: "ikey0 ?l ! i = ikey_of [of_nat i]" and kl: "keylenx ?l ! i = 1" if "i < 14" for i
    using that by (simp_all add: demo_full_def demo_leaf_fields)
  have word: "(of_nat i :: u8) < of_nat j" if "i < j" "j < 14" for i j using that by (simp add: of_nat_word_less_iff take_bit_nat_eq_self)
  have lt: "ikey_of [of_nat i] < ikey_of [of_nat j]" if "i < j" "j < 14" for i j
    using word [OF that] by (simp add: ikey_of_less pad8_def)
  have top: "unat (x :: u64) < 2 ^ 64" for x using unsigned_less [of x, where 'a = nat] by simp
  have sorted: "leaf_sorted ?l" using lt ik by (auto simp: leaf_sorted_def act sorted_wrt_iff_nth_less intro!: ent_rank_less)
  have "slot_ok True h ?l i" if "i < 14" for i h
    using that by (simp add: slot_ok_def ik kl Let_def layer_keylenx_def ksuf_keylenx_def ikey_of_inj pad8_def)
  then show "leaf_ok True h 0 (2 ^ 64) ?l"
    using sorted top by (auto simp: leaf_ok_def act demo_full_def demo_leaf_fields demo_leaf_version)
  show sz: "leaf_size ?l = 14" using arg_cong [OF act, of length] by (simp add: leaf_active_def)
  have rank: "ent_rank ?l i < key_rank (str_key [200])" if "i < 14" for i
  proof -
    have "(of_nat i :: u8) < of_nat 200" using that by (subst of_nat_word_less_iff) (simp add: take_bit_nat_eq_self)
    then have "ikey_of [of_nat i] < ikey_of [200]" by (simp add: ikey_of_less pad8_def)
    then show ?thesis using that by (simp add: ent_rank_def key_rank_def ik kl str_key_fields word_less_nat_alt)
  qed
  have perm: "leaf_perm ?l i < 14" if "i < 14" for i
    using arg_cong [OF act, of "\<lambda>xs. xs ! i"] that sz by (simp add: leaf_active_def)
  have "0 \<le> klen (str_key [200])" by (simp add: str_key_fields)
  from leaf_lower_cases [OF sorted this] show "leaf_lower ?l (str_key [200]) = (14, -1)"
  proof cases
    case (1 i p)
    then show ?thesis using rank [OF perm] sz by (metis less_irrefl)
  next
    case (2 i)
    have "i = 14" using 2(2) 2(4) [of i] rank [OF perm, of i] sz by (metis le_neq_implies_less less_asym order_refl)
    then show ?thesis using 2(1) by simp
  qed
qed

theorem leaf_split_mid_terminates_witness:
  "\<exists>mid. leaf_split_mid demo_full 14 (str_key [200]) = Some mid \<and> 0 < mid \<and> mid \<le> 14"
  using leaf_split_mid_terminates [OF demo_full_ok(1) str_key_fields(4) demo_full_ok(2)] by (auto simp: demo_full_ok(3) leaf_width_def)
section \<open>The entries of the new leaf\<close>

text \<open>The three fields of an entry at position \<open>i\<close> after the insertion; the new entry has no value yet.\<close>

definition entry_after_insert :: "leaf \<Rightarrow> key \<Rightarrow> nat \<Rightarrow> nat \<Rightarrow> u64 \<times> u8 \<times> u64" where
  "entry_after_insert l ka p i =
     (if i = p then (kikey ka, word_of_int (klen ka), 0)
      else let q = leaf_perm l (i - of_bool (p < i)) in (ikey0 l ! q, keylenx l ! q, lv l ! q))"

definition filled :: "(nat \<Rightarrow> 'a) \<Rightarrow> nat \<Rightarrow> nat \<Rightarrow> 'a list \<Rightarrow> 'a list" where
  "filled f a b xs = map (\<lambda>j. if a \<le> j \<and> j < b then f j else xs ! j) [0..<length xs]"

lemma filled_none: "filled f a a xs = xs"
  by (rule nth_equalityI) (auto simp: filled_def)

lemma filled_step: "a < b \<Longrightarrow> b \<le> length xs \<Longrightarrow> filled f (Suc a) b (xs[a := f a]) = filled f a b xs"
  by (rule nth_equalityI) (auto simp: filled_def nth_list_update)

lemma filled_nth: "b \<le> length xs \<Longrightarrow> a \<le> j \<Longrightarrow> j < b \<Longrightarrow> filled f a b xs ! j = f j" "length (filled f a b xs) = length xs"
  by (auto simp: filled_def)

definition filled_leaf :: "leaf \<Rightarrow> key \<Rightarrow> nat \<Rightarrow> nat \<Rightarrow> nat \<Rightarrow> nat \<Rightarrow> leaf \<Rightarrow> leaf" where
  "filled_leaf l ka p mid a b r =
     (let e = (\<lambda>j. entry_after_insert l ka p (mid + j))
      in r\<lparr>ikey0 := filled (fst \<circ> e) a b (ikey0 r), keylenx := filled (fst \<circ> snd \<circ> e) a b (keylenx r),
           lv := filled (snd \<circ> snd \<circ> e) a b (lv r)\<rparr>)"

definition set_entry :: "nat \<Rightarrow> u64 \<times> u8 \<times> u64 \<Rightarrow> leaf \<Rightarrow> leaf" where
  "set_entry j e r = r\<lparr>lv := (lv r)[j := snd (snd e)], ikey0 := (ikey0 r)[j := fst e], keylenx := (keylenx r)[j := fst (snd e)]\<rparr>"

lemma filled_leaf_simps:
  "filled_leaf l ka p mid a a r = r"
  "a < b \<Longrightarrow> b \<le> 14 \<Longrightarrow> leaf_typed r \<Longrightarrow>
     filled_leaf l ka p mid (Suc a) b (set_entry a (entry_after_insert l ka p (mid + a)) r) = filled_leaf l ka p mid a b r"
proof -
  show "filled_leaf l ka p mid a a r = r" by (simp add: filled_leaf_def filled_none Let_def)
  let ?e = "\<lambda>j. entry_after_insert l ka p (mid + j)"
  assume r: "a < b" "b \<le> 14" "leaf_typed r"
  note step = filled_step [OF r(1), where f = "fst \<circ> ?e"] filled_step [OF r(1), where f = "fst \<circ> snd \<circ> ?e"]
    filled_step [OF r(1), where f = "snd \<circ> snd \<circ> ?e"]
  show "filled_leaf l ka p mid (Suc a) b (set_entry a (?e a) r) = filled_leaf l ka p mid a b r"
    using r(2,3) step by (simp add: filled_leaf_def set_entry_def leaf_typed_def leaf_width_def Let_def)
qed

lemma put_node_put [simp]: "put_node a x (put_node a y h) = put_node a x h"
  by (simp add: put_node_def)

lemma leaf_at_put [simp]: "leaf_at (put_node a (Leaf r) h) a = Some r" "b \<noteq> a \<Longrightarrow> leaf_at (put_node a (Leaf r) h) b = leaf_at h b"
  by (simp_all add: leaf_at_def put_node_def)

lemma put_node_same: "leaf_at h a = Some r \<Longrightarrow> put_node a (Leaf r) h = h"
  by (cases h) (auto simp: put_node_def leaf_at_iff fun_upd_idem_iff)

lemma split_copy_loop_fills:
  assumes "\<not> has_suffix ka" "\<forall>i < w. \<not> has_ksuf l (leaf_perm l i)" "n \<noteq> nr" "p \<le> w" "0 < mid"
  shows "leaf_at h n = Some l \<Longrightarrow> leaf_at h nr = Some r \<Longrightarrow> leaf_typed r \<Longrightarrow> mid \<le> x \<Longrightarrow> x + k = w + 1 \<Longrightarrow> x - mid + k \<le> 14 \<Longrightarrow>
    pv = value_from (permutation l) (x - of_bool (p < x)) \<Longrightarrow>
    split_copy_loop n nr p ka mid x k pv h = Some (put_node nr (Leaf (filled_leaf l ka p mid (x - mid) (x - mid + k) r)) h)"
proof (induction k arbitrary: x pv r h)
  case 0
  then show ?case by (simp add: filled_leaf_simps put_node_same)
next
  case (Suc k)
  let ?r1 = "set_entry (x - mid) (entry_after_insert l ka p x) r"
  let ?h1 = "put_node nr (Leaf ?r1) h"
  have pv: "drop_bit 4 pv = value_from (permutation l) (Suc x - of_bool (p < x))"
    unfolding Suc.prems(7) value_from_def using Suc.prems(4) assms(5) by (auto simp: drop_bit_drop_bit algebra_simps)
  have slot: "unat (pv AND 15) = leaf_perm l (x - of_bool (p < x))"
    by (simp add: Suc.prems(7) value_from_def leaf_perm_def kp_at_def algebra_simps)
  have ih: "split_copy_loop n nr p ka mid (x + 1) k (value_from (permutation l) (x + 1 - of_bool (p < x + 1))) ?h1
      = Some (put_node nr (Leaf (filled_leaf l ka p mid (x + 1 - mid) (x + 1 - mid + k) ?r1)) ?h1)"
    by (rule Suc.IH) (use Suc.prems assms(3) in \<open>auto simp: set_entry_def leaf_typed_def\<close>)
  have fl: "filled_leaf l ka p mid (x + 1 - mid) (x + 1 - mid + k) ?r1 = filled_leaf l ka p mid (x - mid) (x - mid + Suc k) r"
    using filled_leaf_simps(2) [of "x - mid" "x - mid + Suc k" r l ka p mid] Suc.prems by (simp add: Suc_diff_le)
  show ?case
  proof (cases "x = p")
    case True
    then have "leaf_assign_initialize nr (x - mid) ka h = Some ?h1"
      using Suc.prems(2) assms(1)
      by (simp add: leaf_assign_initialize_def leaf_assign_with_def upd_leaf_def entry_after_insert_def set_entry_def)
    then show ?thesis using True ih fl Suc.prems(7) by simp
  next
    case False
    have "x - of_bool (p < x) < w" using Suc.prems(5) assms(4) False by (cases "p < x") auto
    then have "\<not> has_ksuf l (leaf_perm l (x - of_bool (p < x)))" using assms(2) by blast
    then have "leaf_assign_from nr (x - mid) n (unat (pv AND 15)) h = Some ?h1"
      using Suc.prems(1,2) False unfolding slot
      by (simp add: leaf_assign_from_def upd_leaf_def entry_after_insert_def set_entry_def Let_def)
    moreover have "of_bool (p < x) = (of_bool (p < x + 1) :: nat)" using False by auto
    ultimately show ?thesis using False ih fl pv by simp
  qed
qed

text \<open>The permutation of the new leaf: all slots in order, without the slot of the new key.\<close>

lemma split_permutation:
  assumes "m \<le> 14" "0 < m" "r = (if mid \<le> p then remove_to_back 14 (p - mid) (make_sorted 14 m) else make_sorted 14 m)" "p < mid + m"
  shows "kp_wf 14 r" "take (kp_size r) (slots 14 r) = filter (\<lambda>i. mid + i \<noteq> p) [0..<m]" "mid \<le> p \<Longrightarrow> kp_back 14 r = p - mid"
proof -
  have s: "slots 14 (make_sorted 14 m) = [0..<m] @ drop m (slots 14 (make_sorted 14 m))" "kp_size (make_sorted 14 m) = m"
    "take m (slots 14 (make_sorted 14 m)) = [0..<m]"
    using assms(1) append_take_drop_id [of m "slots 14 (make_sorted 14 m)"] by (simp_all add: slots_make_sorted)
  show "kp_wf 14 r" using assms s(2) by (auto intro!: kp_wf_remove_to_back kp_wf_make)
  show "take (kp_size r) (slots 14 r) = filter (\<lambda>i. mid + i \<noteq> p) [0..<m]"
  proof (cases "mid \<le> p")
    case True
    define j where "j = p - mid"
    have j: "j < m" using True assms(4) by (simp add: j_def)
    then have "[0..<m] = [0..<j] @ j # [Suc j..<m]" using upt_add_eq_append [of 0 j "m - j"] by (simp add: upt_conv_Cons)
    moreover have "filter (\<lambda>i. mid + i \<noteq> p) [0..<j] = [0..<j]" "filter (\<lambda>i. mid + i \<noteq> p) [Suc j..<m] = [Suc j..<m]"
      using True by (auto simp: j_def intro!: filter_True)
    ultimately have "filter (\<lambda>i. mid + i \<noteq> p) [0..<m] = [0..<j] @ [Suc j..<m]" using True by (simp add: j_def)
    moreover have "slots 14 r = [0..<j] @ [Suc j..<m] @ rev [m..<14] @ [j]" "kp_size r = m - 1"
      using True assms(1-3) j s(2) slots_make_sorted [of m 14]
      by (simp_all add: slots_remove_to_back nth_append flip: j_def)
    ultimately show ?thesis using j by simp
  next
    case False
    have "filter (\<lambda>i. mid + i \<noteq> p) [0..<m] = [0..<m]" using False by (intro filter_True) auto
    then show ?thesis using False assms(3) s by simp
  qed
  show "kp_back 14 r = p - mid" if "mid \<le> p"
  proof -
    have "p - mid < m" using that assms(4) by simp
    then show ?thesis using that assms s by (simp add: kp_back_slots slots_remove_to_back slots_make_sorted nth_append)
  qed
qed

text \<open>Linking the new leaf behind the old one.\<close>

definition next_leaf_ok :: "heap \<Rightarrow> u64 \<Rightarrow> u64 \<Rightarrow> leaf \<Rightarrow> bool" where
  "next_leaf_ok h n nr l \<longleftrightarrow> next_ptr l = 0
     \<or> next_ptr l AND 1 = 0 \<and> next_ptr l \<noteq> n \<and> next_ptr l \<noteq> nr \<and> leaf_at h (next_ptr l) \<noteq> None"

lemma link_split_some:
  assumes "leaf_at h n = Some l" "leaf_at h nr = Some r" "n \<noteq> nr" "next_leaf_ok h n nr l"
  shows "\<exists>h'. link_split n nr h = Some h' \<and> leaf_at h' n = Some (l\<lparr>next_ptr := nr\<rparr>)
    \<and> leaf_at h' nr = Some (r\<lparr>prev_ptr := n, next_ptr := next_ptr l\<rparr>)
    \<and> (\<forall>a nx. next_ptr l = a \<longrightarrow> a \<noteq> 0 \<longrightarrow> leaf_at h a = Some nx \<longrightarrow> leaf_at h' a = Some (nx\<lparr>prev_ptr := nr\<rparr>))
    \<and> (\<forall>a. a \<notin> {n, nr, next_ptr l} \<longrightarrow> nodes h' a = nodes h a)"
proof (cases "next_ptr l = 0")
  case True
  then show ?thesis using assms(1-3) by (simp add: link_split_def upd_leaf_def Let_def) (simp add: put_node_def)
next
  case False
  then obtain nx where nx: "leaf_at h (next_ptr l) = Some nx" "next_ptr l AND 1 = 0" "next_ptr l \<noteq> n" "next_ptr l \<noteq> nr"
    using assms(4) by (auto simp: next_leaf_ok_def)
  then show ?thesis using assms(1-3) False by (simp add: link_split_def upd_leaf_def Let_def) (simp add: put_node_def)
qed

text \<open>
  C18.  What a leaf split writes.  When a key without a suffix goes to position \<open>p\<close> of a
  sorted leaf with at least 13 entries and no suffixes, \<open>split_into\<close> returns; the entries
  from the split point on, the new one among them if it falls there, are in the new leaf in
  order, the permutation of the new leaf lists all of them but the new one, whose slot is
  next in its free list, the returned key is the first of the new leaf and the leaf list
  has the new leaf behind the old one.
\<close>

theorem leaf_split_into_entries:
  assumes leaves: "leaf_at h n = Some l" "leaf_at h nr = Some r" "n \<noteq> nr" "leaf_ok outer h lo hi l" "leaf_typed r"
    and ka: "key_wf ka" "\<not> has_suffix ka" and low: "leaf_lower l ka = (p, -1)" and full: "leaf_width - 1 \<le> leaf_size l"
    and short: "\<forall>q \<in> set (leaf_active l). \<not> has_ksuf l q" and link: "next_leaf_ok h n nr l"
  shows "\<exists>mid h' r'. leaf_split_mid l p ka = Some mid
    \<and> leaf_split_into n nr p ka h = Some (if mid \<le> p then 1 + of_bool (mid = leaf_size l) else 0, ikey_after_insert l (permutation l) mid ka p, h')
    \<and> leaf_at h' n = Some (l\<lparr>next_ptr := nr\<rparr>) \<and> leaf_at h' nr = Some r' \<and> prev_ptr r' = n \<and> next_ptr r' = next_ptr l
    \<and> (\<forall>i < leaf_size l + 1 - mid. (ikey0 r' ! i, keylenx r' ! i, lv r' ! i) = entry_after_insert l ka p (mid + i))
    \<and> leaf_active r' = filter (\<lambda>i. mid + i \<noteq> p) [0..<leaf_size l + 1 - mid]
    \<and> (mid \<le> p \<longrightarrow> kp_back leaf_width (permutation r') = p - mid)"
proof -
  let ?w = "leaf_size l"
  obtain mid where mid: "leaf_split_mid l p ka = Some mid" "0 < mid" "mid \<le> ?w"
    using leaf_split_mid_terminates [OF leaves(4) ka(1) low full] by blast
  have p: "p \<le> ?w" using leaf_lower_miss(1) [OF leaves(4) ka(1) low] .
  have wid: "?w \<le> 14" using leaves(4) by (simp add: leaf_ok_def leaf_typed_def leaf_size_def kp_wf_def leaf_width_def)
  let ?m = "Suc ?w - mid"
  define r1 where "r1 = filled_leaf l ka p mid 0 ?m r"
  define perm where "perm = (if mid \<le> p then remove_to_back leaf_width (p - mid) (make_sorted leaf_width ?m) else make_sorted leaf_width ?m)"
  have "split_copy_loop n nr p ka mid mid ?m (value_from (permutation l) (mid - of_bool (p < mid))) h = Some (put_node nr (Leaf r1) h)"
    using split_copy_loop_fills [OF ka(2) _ leaves(3) p mid(2) leaves(1,2,5), of mid ?m] short mid(2,3) wid
    by (simp add: r1_def leaf_active_def)
  moreover have up: "upd_leaf (\<lambda>l. l\<lparr>permutation := perm\<rparr>) nr (put_node nr (Leaf r1) h) = Some (put_node nr (Leaf (r1\<lparr>permutation := perm\<rparr>)) h)"
    by (simp add: upd_leaf_def)
  moreover obtain h' where h': "link_split n nr (put_node nr (Leaf (r1\<lparr>permutation := perm\<rparr>)) h) = Some h'"
      "leaf_at h' n = Some (l\<lparr>next_ptr := nr\<rparr>)" "leaf_at h' nr = Some (r1\<lparr>permutation := perm, prev_ptr := n, next_ptr := next_ptr l\<rparr>)"
    using link_split_some [of "put_node nr (Leaf (r1\<lparr>permutation := perm\<rparr>)) h" n l nr "r1\<lparr>permutation := perm\<rparr>"] leaves(1-3) link
    by (auto simp: next_leaf_ok_def)
  moreover have ent: "(ikey0 r1 ! i, keylenx r1 ! i, lv r1 ! i) = entry_after_insert l ka p (mid + i)" if "i < ?m" for i
    using that leaves(5) wid mid(2) by (simp add: r1_def filled_leaf_def filled_nth leaf_typed_def leaf_width_def Let_def)
  moreover have "fst (entry_after_insert l ka p mid) = ikey_after_insert l (permutation l) mid ka p"
    by (simp add: entry_after_insert_def ikey_after_insert_def leaf_perm_def Let_def)
  then have "ikey0 r1 ! 0 = ikey_after_insert l (permutation l) mid ka p" using ent [of 0] mid(3) by (metis Nat.add_0_right add_gr_0 fst_conv less_numeral_extra(1) zero_less_diff le_imp_less_Suc Suc_eq_plus1)
  ultimately have split: "leaf_split_into n nr p ka h
     = Some (if mid \<le> p then 1 + of_bool (mid = ?w) else 0, ikey_after_insert l (permutation l) mid ka p, h')"
    using leaves(1) mid(1) by (simp add: leaf_split_into_def Let_def split del: if_split flip: perm_def)
  have m: "?m \<le> 14" "0 < ?m" "p < mid + ?m" using mid wid p by auto
  note sp = split_permutation [OF m(1,2) perm_def [unfolded leaf_width_def] m(3)]
  let ?r' = "r1\<lparr>permutation := perm, prev_ptr := n, next_ptr := next_ptr l\<rparr>"
  have "leaf_typed ?r'" using sp(1) leaves(5) by (simp add: leaf_typed_def r1_def filled_leaf_def filled_nth leaf_width_def Let_def)
  then have "leaf_active ?r' = filter (\<lambda>i. mid + i \<noteq> p) [0..<?m]" using sp(2) by (simp add: leaf_active_slots)
  then show ?thesis using split mid(1) h'(2,3) ent sp(3) by (intro exI [of _ mid] exI [of _ h'] exI [of _ ?r']) (simp add: leaf_width_def)
qed

definition split_heap :: heap where
  "split_heap = demo_heap\<lparr>nodes := [0x1000 \<mapsto> Leaf demo_full, 0x2000 \<mapsto> Leaf (demo_leaf False [] [] [])]\<rparr>"

theorem leaf_split_into_entries_witness:
  "\<exists>ty sk h'. leaf_split_into 0x1000 0x2000 14 (str_key [200]) split_heap = Some (ty, sk, h')
     \<and> leaf_at h' 0x1000 = Some (demo_full\<lparr>next_ptr := 0x2000\<rparr>)"
proof -
  have at: "leaf_at split_heap 0x1000 = Some demo_full" "leaf_at split_heap 0x2000 = Some (demo_leaf False [] [] [])" "0x1000 \<noteq> (0x2000 :: u64)"
    by (simp_all add: split_heap_def leaf_at_iff)
  have "leaf_typed (demo_leaf False [] [] [])" by (simp add: demo_leaf_fields)
  moreover have "\<not> has_suffix (str_key [200])" by (simp add: has_suffix_def str_key_fields ikey_size_def)
  moreover have "\<forall>q \<in> set (leaf_active demo_full). \<not> has_ksuf demo_full q"
    by (auto simp: demo_full_def demo_leaf_fields has_ksuf_def keylenx_has_ksuf_def ksuf_keylenx_def)
  moreover have "next_leaf_ok split_heap 0x1000 0x2000 demo_full" by (simp add: next_leaf_ok_def demo_full_def demo_leaf_def blank_leaf_def)
  moreover have "leaf_width - 1 \<le> leaf_size demo_full" by (simp add: demo_full_ok(3) leaf_width_def)
  ultimately show ?thesis
    using leaf_split_into_entries [OF at demo_full_ok(1) _ str_key_fields(4) _ demo_full_ok(2)] by blast
qed

end
