(* ===== verification/Global_Flush.thy ===== *)
theory Global_Flush
  imports Prelude "HOL-Library.Monad_Syntax"
begin

text \<open>
  The end of an epoch (\<open>incll_gf.hh\<close>, \<open>incll_barrier.hh\<close>, \<open>advance_epoch\<close> of
  \<open>incll_globals.cc\<close> and \<open>set_global_epoch\<close> of \<open>mttest.cc\<close>): all threads but one are stopped
  with the help of two semaphores, the caches are flushed, and every thread closes its
  external log (\<open>checkpoint\<close>).  Every atomic load and store, semaphore and barrier call is
  one step of the thread that makes it; the steps of the threads interleave freely.  Of the
  operations on the tree only the effect on the external log is kept: a thread records a
  node unless the node was already recorded in this epoch (\<open>record_node\<close>).
\<close>

section \<open>The state\<close>

text \<open>
  Where a thread is.  \<open>Work\<close> is the client's loop; the flag of the \<open>ack_flush\<close> points says
  whether the call comes from the loop a thread ends with; counters are those of the loops
  over the other threads, and the generation a thread waits for at the barrier.
\<close>

datatype gf_pc =
    Work
  | Ack_warning bool | Ack_done bool | Ack_waiting bool | Ack_post bool | Ack_wait bool | Ack_checkpoint bool
  | Flush_warn | Flush_done | Flush_enter | Flush_acks nat | Flush_flush | Flush_exit | Flush_release nat
  | Flush_checkpoint | Flush_clear
  | Done_warn | Done_add
  | Adv_enter | Adv_entered nat | Adv_acks nat | Adv_flush | Adv_epoch | Adv_release nat | Adv_post | Adv_wait
  | Adv_checkpoint | Adv_leave | Adv_left nat
  | Finished

text \<open>
  A record of the external log: the epoch, the node, and the number of global flushes that
  had happened; \<open>pend\<close> holds the records a thread made since its last checkpoint.
\<close>

type_synonym log_record = "u64 \<times> u64 \<times> nat"

record gf =
  flush_ack_sem :: nat
  ack_sem :: nat
  nthreads :: nat
  influshWarning :: bool
  waitingFlush :: bool
  doneThreads :: nat
  gepoch :: u64
  flushes :: nat
  bar_count :: nat
  bar_gen :: nat
  pcs :: "gf_pc list"
  pend :: "log_record list list"
  logged :: "u64 \<Rightarrow> u64"

text \<open>What a thread in its loop does next.\<close>

datatype gf_call = Record u64 | Ack_flush | Set_epoch u64 | Thread_done | Advance

section \<open>The operations\<close>

definition gf_init :: "nat \<Rightarrow> u64 \<Rightarrow> (u64 \<Rightarrow> u64) \<Rightarrow> gf" where
  "gf_init n e lg = \<lparr>flush_ack_sem = 0, ack_sem = 0, nthreads = n, influshWarning = False, waitingFlush = False,
     doneThreads = 0, gepoch = e, flushes = 0, bar_count = 0, bar_gen = 0,
     pcs = replicate n Work, pend = replicate n [], logged = lg\<rparr>"

definition check_done :: "gf \<Rightarrow> bool" where
  "check_done s \<longleftrightarrow> doneThreads s = nthreads s"

definition is_in_flush :: "gf \<Rightarrow> bool" where
  "is_in_flush s = influshWarning s"

definition record_call :: "nat \<Rightarrow> u64 \<Rightarrow> gf \<Rightarrow> gf" where
  "record_call t a s =
     (if logged s a \<noteq> gepoch s
      then s\<lparr>pend := (pend s)[t := (gepoch s, a, flushes s) # pend s ! t], logged := (logged s)(a := gepoch s)\<rparr> else s)"

definition gf_checkpoint :: "nat \<Rightarrow> gf \<Rightarrow> gf" where
  "gf_checkpoint t s = s\<lparr>pend := (pend s)[t := []]\<rparr>"

definition sem_post_ack :: "gf \<Rightarrow> gf" where
  "sem_post_ack s = s\<lparr>ack_sem := Suc (ack_sem s)\<rparr>"

definition sem_post_flush :: "gf \<Rightarrow> gf" where
  "sem_post_flush s = s\<lparr>flush_ack_sem := Suc (flush_ack_sem s)\<rparr>"

definition sem_wait_ack :: "gf \<Rightarrow> gf option" where
  "sem_wait_ack s = (if ack_sem s = 0 then None else Some (s\<lparr>ack_sem := ack_sem s - 1\<rparr>))"

definition sem_wait_flush :: "gf \<Rightarrow> gf option" where
  "sem_wait_flush s = (if flush_ack_sem s = 0 then None else Some (s\<lparr>flush_ack_sem := flush_ack_sem s - 1\<rparr>))"

definition global_flush :: "gf \<Rightarrow> gf" where
  "global_flush s = s\<lparr>flushes := Suc (flushes s)\<rparr>"

definition gf_reset :: "gf \<Rightarrow> gf" where
  "gf_reset s = s\<lparr>gepoch := 1\<rparr>"

definition block_flush :: "gf \<Rightarrow> gf" where
  "block_flush s = s\<lparr>influshWarning := True, waitingFlush := True\<rparr>"

text \<open>\<open>ack_flush\<close>; where it returns \<open>false\<close> the caller goes on with its loop.\<close>

definition ack_return :: "bool \<Rightarrow> gf_pc" where
  "ack_return fin = (if fin then Ack_warning True else Work)"

fun ack_flush :: "nat \<Rightarrow> gf_pc \<Rightarrow> gf \<Rightarrow> (gf_pc \<times> gf) option" where
  "ack_flush t (Ack_warning fin) s = Some (if influshWarning s then Ack_done fin else ack_return fin, s)"
| "ack_flush t (Ack_done fin) s = Some (if check_done s then if fin then Finished else Work else Ack_waiting fin, s)"
| "ack_flush t (Ack_waiting fin) s = Some (if waitingFlush s then Ack_post fin else ack_return fin, s)"
| "ack_flush t (Ack_post fin) s = Some (Ack_wait fin, sem_post_ack s)"
| "ack_flush t (Ack_wait fin) s = map_option (Pair (Ack_checkpoint fin)) (sem_wait_flush s)"
| "ack_flush t (Ack_checkpoint fin) s = Some (ack_return fin, gf_checkpoint t s)"
| "ack_flush t _ s = None"

fun gf_flush :: "nat \<Rightarrow> gf_pc \<Rightarrow> gf \<Rightarrow> (gf_pc \<times> gf) option" where
  "gf_flush t Flush_warn s = Some (Flush_done, s\<lparr>influshWarning := True\<rparr>)"
| "gf_flush t Flush_done s = Some (if check_done s then Work else Flush_enter, s)"
| "gf_flush t Flush_enter s = Some (Flush_acks 0, s\<lparr>waitingFlush := True\<rparr>)"
| "gf_flush t (Flush_acks i) s =
     (if i < nthreads s - 1 then map_option (Pair (Flush_acks (Suc i))) (sem_wait_ack s) else Some (Flush_flush, s))"
| "gf_flush t Flush_flush s = Some (Flush_exit, global_flush s)"
| "gf_flush t Flush_exit s = Some (Flush_release 0, s\<lparr>waitingFlush := False\<rparr>)"
| "gf_flush t (Flush_release i) s =
     (if i < nthreads s - 1 then Some (Flush_release (Suc i), sem_post_flush s) else Some (Flush_checkpoint, s))"
| "gf_flush t Flush_checkpoint s = Some (Flush_clear, gf_checkpoint t s)"
| "gf_flush t Flush_clear s = Some (Work, s\<lparr>influshWarning := False\<rparr>)"
| "gf_flush t _ s = None"

fun thread_done :: "nat \<Rightarrow> gf_pc \<Rightarrow> gf \<Rightarrow> (gf_pc \<times> gf) option" where
  "thread_done t Done_warn s = Some (Done_add, s\<lparr>influshWarning := True\<rparr>)"
| "thread_done t Done_add s = Some (Ack_warning True, s\<lparr>doneThreads := Suc (doneThreads s)\<rparr>)"
| "thread_done t _ s = None"

text \<open>\<open>set_global_epoch\<close>, whose critical section is one step.\<close>

definition set_global_epoch :: "u64 \<Rightarrow> gf \<Rightarrow> gf_pc \<times> gf" where
  "set_global_epoch e s =
     (if sint (e - gepoch s) > 0 then (if is_in_flush s then Work else Flush_warn, s\<lparr>gepoch := e\<rparr>) else (Work, s))"

text \<open>A barrier for all threads; a thread leaves it when the generation it came in is over.\<close>

definition barrier_arrive :: "gf \<Rightarrow> gf" where
  "barrier_arrive s =
     (if Suc (bar_count s) = nthreads s then s\<lparr>bar_count := 0, bar_gen := Suc (bar_gen s)\<rparr>
      else s\<lparr>bar_count := Suc (bar_count s)\<rparr>)"

definition barrier_pass :: "nat \<Rightarrow> gf \<Rightarrow> bool" where
  "barrier_pass g s \<longleftrightarrow> bar_gen s \<noteq> g"

text \<open>\<open>advance_epoch\<close> with \<open>flush_manual\<close> for thread 0 and \<open>ack_flush_manual\<close> for the others.\<close>

fun advance_epoch :: "nat \<Rightarrow> gf_pc \<Rightarrow> gf \<Rightarrow> (gf_pc \<times> gf) option" where
  "advance_epoch t Adv_enter s = Some (Adv_entered (bar_gen s), barrier_arrive s)"
| "advance_epoch t (Adv_entered g) s =
     (if barrier_pass g s then Some (if t = 0 then Adv_acks 0 else Adv_post, s) else None)"
| "advance_epoch t (Adv_acks i) s =
     (if i < nthreads s - 1 then map_option (Pair (Adv_acks (Suc i))) (sem_wait_ack s) else Some (Adv_flush, s))"
| "advance_epoch t Adv_flush s = Some (Adv_epoch, global_flush s)"
| "advance_epoch t Adv_epoch s = Some (Adv_release 0, s\<lparr>gepoch := gepoch s + 1\<rparr>)"
| "advance_epoch t (Adv_release i) s =
     (if i < nthreads s - 1 then Some (Adv_release (Suc i), sem_post_flush s) else Some (Adv_checkpoint, s))"
| "advance_epoch t Adv_post s = Some (Adv_wait, sem_post_ack s)"
| "advance_epoch t Adv_wait s = map_option (Pair Adv_checkpoint) (sem_wait_flush s)"
| "advance_epoch t Adv_checkpoint s = Some (Adv_leave, gf_checkpoint t s)"
| "advance_epoch t Adv_leave s = Some (Adv_left (bar_gen s), barrier_arrive s)"
| "advance_epoch t (Adv_left g) s = (if barrier_pass g s then Some (Work, s) else None)"
| "advance_epoch t _ s = None"

fun gf_start :: "nat \<Rightarrow> gf_call \<Rightarrow> gf \<Rightarrow> gf_pc \<times> gf" where
  "gf_start t (Record a) s = (Work, record_call t a s)"
| "gf_start t Ack_flush s = (Ack_warning False, s)"
| "gf_start t (Set_epoch e) s = set_global_epoch e s"
| "gf_start t Thread_done s = (Done_warn, s)"
| "gf_start t Advance s = (Adv_enter, s)"

section \<open>Interleavings\<close>

text \<open>A step of thread \<open>t\<close>: the call it makes when it is in its loop, the next step of its call otherwise.\<close>

definition gf_next :: "gf_call \<Rightarrow> nat \<Rightarrow> gf_pc \<Rightarrow> gf \<Rightarrow> (gf_pc \<times> gf) option" where
  "gf_next c t pc s =
     (if pc = Work then Some (gf_start t c s)
      else case ack_flush t pc s of Some r \<Rightarrow> Some r
           | None \<Rightarrow> (case gf_flush t pc s of Some r \<Rightarrow> Some r
              | None \<Rightarrow> (case thread_done t pc s of Some r \<Rightarrow> Some r | None \<Rightarrow> advance_epoch t pc s)))"

definition gf_exec :: "gf_call \<Rightarrow> nat \<Rightarrow> gf \<Rightarrow> gf option" where
  "gf_exec c t s =
     (if t < length (pcs s)
      then do { (pc', s') \<leftarrow> gf_next c t (pcs s ! t) s; Some (s'\<lparr>pcs := (pcs s)[t := pc']\<rparr>) } else None)"

text \<open>\<open>A\<close> is the set of calls the clients make.\<close>

inductive gf_step :: "gf_call set \<Rightarrow> gf \<Rightarrow> gf \<Rightarrow> bool" for A where
  "c \<in> A \<Longrightarrow> gf_exec c t s = Some s' \<Longrightarrow> gf_step A s s'"

definition gf_reach :: "gf_call set \<Rightarrow> gf \<Rightarrow> bool" where
  "gf_reach A s \<longleftrightarrow> (\<exists>n e lg. 0 < n \<and> (gf_step A)\<^sup>*\<^sup>* (gf_init n e lg) s)"

section \<open>The flush finds all other threads stopped\<close>

definition parked :: "gf_pc \<Rightarrow> bool" where
  "parked pc \<longleftrightarrow> pc = Ack_wait False \<or> pc = Ack_wait True \<or> pc = Adv_wait"

text \<open>The acknowledgements a flushing thread has taken and not yet answered.\<close>

fun held :: "nat \<Rightarrow> gf_pc \<Rightarrow> int" where
  "held m (Flush_acks i) = int i"
| "held m Flush_flush = int m"
| "held m Flush_exit = int m"
| "held m (Flush_release i) = int m - int i"
| "held m (Adv_acks i) = int i"
| "held m Adv_flush = int m"
| "held m Adv_epoch = int m"
| "held m (Adv_release i) = int m - int i"
| "held m _ = 0"

fun counter_ok :: "nat \<Rightarrow> gf_pc \<Rightarrow> bool" where
  "counter_ok m (Flush_acks i) \<longleftrightarrow> i \<le> m"
| "counter_ok m (Flush_release i) \<longleftrightarrow> i \<le> m"
| "counter_ok m (Adv_acks i) \<longleftrightarrow> i \<le> m"
| "counter_ok m (Adv_release i) \<longleftrightarrow> i \<le> m"
| "counter_ok m _ \<longleftrightarrow> True"

definition weight :: "nat \<Rightarrow> gf_pc \<Rightarrow> int" where
  "weight m pc = of_bool (parked pc) - held m pc"

text \<open>Every stopped thread is matched by one semaphore unit or one acknowledgement held by a flushing thread.\<close>

definition sem_inv :: "gf \<Rightarrow> bool" where
  "sem_inv s \<longleftrightarrow> length (pcs s) = nthreads s \<and> length (pend s) = nthreads s
     \<and> (\<forall>pc \<in> set (pcs s). counter_ok (nthreads s - 1) pc)
     \<and> sum_list (map (weight (nthreads s - 1)) (pcs s)) = int (ack_sem s) + int (flush_ack_sem s)"

lemmas sem_defs = sem_post_ack_def sem_post_flush_def sem_wait_ack_def sem_wait_flush_def global_flush_def gf_checkpoint_def
  record_call_def set_global_epoch_def barrier_arrive_def

lemma gf_next_cases:
  assumes "gf_next c t pc s = Some (pc', s')"
  obtains "pc = Work" "gf_start t c s = (pc', s')" | "ack_flush t pc s = Some (pc', s')" | "gf_flush t pc s = Some (pc', s')"
    | "thread_done t pc s = Some (pc', s')" | "advance_epoch t pc s = Some (pc', s')"
  using assms by (auto simp: gf_next_def split: if_splits option.splits)

text \<open>What a step keeps, and how it moves the balance of the semaphores.\<close>

definition sem_move :: "gf \<Rightarrow> gf_pc \<Rightarrow> gf_pc \<Rightarrow> gf \<Rightarrow> bool" where
  "sem_move s pc pc' s' \<longleftrightarrow> nthreads s' = nthreads s \<and> length (pend s') = length (pend s) \<and> pcs s' = pcs s
     \<and> (counter_ok (nthreads s - 1) pc \<longrightarrow> counter_ok (nthreads s - 1) pc'
       \<and> weight (nthreads s - 1) pc' - weight (nthreads s - 1) pc
         = int (ack_sem s') + int (flush_ack_sem s') - (int (ack_sem s) + int (flush_ack_sem s)))"

lemmas sem_move_simps = sem_move_def sem_defs weight_def parked_def ack_return_def

lemma gf_start_sem: "gf_start t c s = (pc', s') \<Longrightarrow> sem_move s Work pc' s'"
  by (cases c) (auto simp: sem_move_simps split: if_splits)

lemma ack_flush_sem: "ack_flush t pc s = Some (pc', s') \<Longrightarrow> sem_move s pc pc' s'"
  by (erule ack_flush.elims) (auto simp: sem_move_simps split: if_splits)

lemma gf_flush_sem: "gf_flush t pc s = Some (pc', s') \<Longrightarrow> sem_move s pc pc' s'"
  by (erule gf_flush.elims) (auto simp: sem_move_simps split: if_splits)

lemma thread_done_sem: "thread_done t pc s = Some (pc', s') \<Longrightarrow> sem_move s pc pc' s'"
  by (erule thread_done.elims) (auto simp: sem_move_simps)

lemma advance_epoch_sem: "advance_epoch t pc s = Some (pc', s') \<Longrightarrow> sem_move s pc pc' s'"
  by (erule advance_epoch.elims) (auto simp: sem_move_simps split: if_splits)

lemma gf_next_sem: "gf_next c t pc s = Some (pc', s') \<Longrightarrow> sem_move s pc pc' s'"
  by (erule gf_next_cases) (simp_all add: gf_start_sem ack_flush_sem gf_flush_sem thread_done_sem advance_epoch_sem)

lemma gf_execE:
  assumes "gf_exec c t s = Some s'"
  obtains pc' s1 where "t < length (pcs s)" "gf_next c t (pcs s ! t) s = Some (pc', s1)" "s' = s1\<lparr>pcs := (pcs s)[t := pc']\<rparr>"
  using assms by (auto simp: gf_exec_def split: if_splits bind_splits)

lemma sum_list_upd: "k < length xs \<Longrightarrow> sum_list (xs[k := x]) = sum_list xs + x - xs ! k" for xs :: "int list"
  by (induction xs arbitrary: k) (auto split: nat.split)

lemma sem_inv_step:
  assumes "sem_inv s" "gf_exec c t s = Some s'" shows "sem_inv s'"
proof -
  obtain pc' s1 where x: "t < length (pcs s)" "gf_next c t (pcs s ! t) s = Some (pc', s1)" "s' = s1\<lparr>pcs := (pcs s)[t := pc']\<rparr>"
    using assms(2) by (rule gf_execE)
  let ?m = "nthreads s - 1"
  note mv = gf_next_sem [OF x(2), unfolded sem_move_def]
  have ok: "counter_ok ?m (pcs s ! t)" using assms(1) x(1) by (simp add: sem_inv_def)
  have "sum_list (map (weight ?m) ((pcs s)[t := pc'])) = sum_list (map (weight ?m) (pcs s)) + weight ?m pc' - weight ?m (pcs s ! t)"
    using x(1) by (simp add: map_update sum_list_upd)
  moreover have "\<forall>pc \<in> set ((pcs s)[t := pc']). counter_ok ?m pc"
    using assms(1) mv ok set_update_subset_insert [of "pcs s" t pc'] by (auto simp: sem_inv_def)
  ultimately show ?thesis using assms(1) mv ok x(3) by (simp add: sem_inv_def)
qed

lemma sem_inv_init: "sem_inv (gf_init n e lg)"
  by (simp add: sem_inv_def gf_init_def weight_def parked_def sum_list_replicate)

lemma gf_reach_induct [consumes 1, case_names init step]:
  assumes "gf_reach A s" "\<And>n e lg. 0 < n \<Longrightarrow> P (gf_init n e lg)"
    "\<And>s c t s'. gf_reach A s \<Longrightarrow> P s \<Longrightarrow> c \<in> A \<Longrightarrow> gf_exec c t s = Some s' \<Longrightarrow> P s'"
  shows "P s"
proof -
  obtain n e lg where n: "0 < n" "(gf_step A)\<^sup>*\<^sup>* (gf_init n e lg) s" using assms(1) by (auto simp: gf_reach_def)
  from n(2) show ?thesis
  proof (induction rule: rtranclp_induct)
    case base
    show ?case by (rule assms(2) [OF n(1)])
  next
    case (step y z)
    have "gf_reach A y" using n(1) step(1) by (auto simp: gf_reach_def)
    then show ?case using step(2,3) assms(3) by (auto elim: gf_step.cases)
  qed
qed

lemma gf_reach_sem: "gf_reach A s \<Longrightarrow> sem_inv s"
  by (induction rule: gf_reach_induct) (simp_all add: sem_inv_init sem_inv_step)

lemma sum_list_le_length: "\<forall>x \<in> set xs. x \<le> 1 \<Longrightarrow> sum_list xs \<le> int (length xs)" for xs :: "int list"
  by (induction xs) auto

lemma sum_list_all_one: "\<forall>x \<in> set xs. x \<le> 1 \<Longrightarrow> sum_list xs \<ge> int (length xs) \<Longrightarrow> \<forall>x \<in> set xs. x = 1" for xs :: "int list"
proof (induction xs)
  case (Cons x xs)
  then show ?case using sum_list_le_length [of xs] by fastforce
qed simp

lemma weight_le: "counter_ok m pc \<Longrightarrow> weight m pc \<le> 1"
  by (cases "(m, pc)" rule: held.cases) (auto simp: weight_def)

lemma weight_one: "counter_ok m pc \<Longrightarrow> weight m pc = 1 \<Longrightarrow> parked pc"
  by (cases "(m, pc)" rule: held.cases) (auto simp: weight_def parked_def split: if_splits)

lemma holder_parks:
  assumes "sem_inv s" "t < nthreads s" "held (nthreads s - 1) (pcs s ! t) = int (nthreads s - 1)" "\<not> parked (pcs s ! t)"
  shows "ack_sem s = 0 \<and> flush_ack_sem s = 0" "u < nthreads s \<Longrightarrow> u \<noteq> t \<Longrightarrow> parked (pcs s ! u)"
proof -
  let ?m = "nthreads s - 1" and ?ws = "(map (weight (nthreads s - 1)) (pcs s))[t := 1]"
  have len: "length (pcs s) = nthreads s" and ok: "\<forall>pc \<in> set (pcs s). counter_ok ?m pc"
    and sum: "sum_list (map (weight ?m) (pcs s)) = int (ack_sem s) + int (flush_ack_sem s)"
    using assms(1) by (simp_all add: sem_inv_def)
  have wt: "weight ?m (pcs s ! t) = - int ?m" using assms(3,4) by (simp add: weight_def)
  have "sum_list ?ws = int (ack_sem s) + int (flush_ack_sem s) + int (nthreads s)"
    using sum assms(2) len wt by (simp add: sum_list_upd)
  moreover have le: "\<forall>x \<in> set ?ws. x \<le> 1" using ok weight_le set_update_subset_insert [of _ t 1] by fastforce
  moreover have "sum_list ?ws \<le> int (length ?ws)" by (rule sum_list_le_length [OF le])
  ultimately show "ack_sem s = 0 \<and> flush_ack_sem s = 0" using len by simp
  show "parked (pcs s ! u)" if u: "u < nthreads s" "u \<noteq> t"
  proof -
    have "\<forall>x \<in> set ?ws. x = 1" using sum_list_all_one [OF le] \<open>sum_list ?ws = _\<close> len by simp
    then have "?ws ! u = 1" using u len by (metis length_list_update length_map nth_mem)
    then have "weight ?m (pcs s ! u) = 1" using u len by simp
    then show ?thesis using weight_one ok u len by (metis nth_mem)
  qed
qed

definition at_flush :: "gf_pc \<Rightarrow> bool" where
  "at_flush pc \<longleftrightarrow> pc = Flush_flush \<or> pc = Flush_exit \<or> pc = Adv_flush \<or> pc = Adv_epoch"

text \<open>
  C13.  The global flush is quiescent.  Whatever calls the threads make, and however their
  steps interleave, when some thread writes back the caches (or increments the epoch in
  \<open>flush_manual\<close>) every other thread has posted its acknowledgement and is waiting to be
  released: no operation on the tree is under way, and both semaphores are empty.
\<close>

theorem flush_quiescent:
  assumes "gf_reach A s" "t < nthreads s" "at_flush (pcs s ! t)"
  shows "(\<forall>u < nthreads s. u \<noteq> t \<longrightarrow> parked (pcs s ! u)) \<and> ack_sem s = 0 \<and> flush_ack_sem s = 0"
proof -
  have "held (nthreads s - 1) (pcs s ! t) = int (nthreads s - 1)" "\<not> parked (pcs s ! t)"
    using assms(3) by (auto simp: at_flush_def parked_def)
  from holder_parks [OF gf_reach_sem [OF assms(1)] assms(2) this] show ?thesis by blast
qed

section \<open>Threads that are done come to an end\<close>

fun gf_run :: "(gf_call \<times> nat) list \<Rightarrow> gf \<Rightarrow> gf option" where
  "gf_run [] s = Some s"
| "gf_run ((c, t) # cs) s = do { s' \<leftarrow> gf_exec c t s; gf_run cs s' }"

lemma gf_run_steps: "gf_run cs s = Some s' \<Longrightarrow> fst ` set cs \<subseteq> A \<Longrightarrow> (gf_step A)\<^sup>*\<^sup>* s s'"
proof (induction cs s rule: gf_run.induct)
  case (2 c t cs s)
  obtain s1 where s1: "gf_exec c t s = Some s1" "gf_run cs s1 = Some s'" using 2(2) by (auto split: bind_splits)
  have "gf_step A s s1" using s1(1) 2(3) by (auto intro: gf_step.intros)
  then show ?case using 2(1) [OF s1(1,2)] 2(3) by (simp add: converse_rtranclp_into_rtranclp)
qed simp

lemma gf_run_init: "gf_run cs (gf_init n e lg) = Some s \<Longrightarrow> 0 < n \<Longrightarrow> fst ` set cs \<subseteq> A \<Longrightarrow> gf_reach A s"
  unfolding gf_reach_def by (blast intro: gf_run_steps)

fun done_pc :: "gf_pc \<Rightarrow> bool" where
  "done_pc (Ack_warning fin) = fin" | "done_pc (Ack_done fin) = fin" | "done_pc (Ack_waiting fin) = fin"
| "done_pc (Ack_post fin) = fin" | "done_pc (Ack_wait fin) = fin" | "done_pc (Ack_checkpoint fin) = fin"
| "done_pc Finished = True" | "done_pc _ = False"

definition early :: "gf_pc \<Rightarrow> bool" where "early pc \<longleftrightarrow> \<not> done_pc pc \<and> pc \<noteq> Done_add"

fun collecting :: "gf_pc \<Rightarrow> bool" where "collecting (Flush_acks i) = True" | "collecting _ = False"
fun posting :: "gf_pc \<Rightarrow> bool" where "posting (Ack_post fin) = True" | "posting _ = False"
fun flushing :: "gf_pc \<Rightarrow> bool" where
  "flushing (Flush_acks i) = True" | "flushing Flush_flush = True" | "flushing Flush_exit = True" | "flushing _ = False"
fun adv_pc :: "gf_pc \<Rightarrow> bool" where
  "adv_pc Adv_enter = True" | "adv_pc (Adv_entered g) = True" | "adv_pc (Adv_acks i) = True" | "adv_pc Adv_flush = True"
| "adv_pc Adv_epoch = True" | "adv_pc (Adv_release i) = True" | "adv_pc Adv_post = True" | "adv_pc Adv_wait = True"
| "adv_pc Adv_checkpoint = True" | "adv_pc Adv_leave = True" | "adv_pc (Adv_left g) = True" | "adv_pc _ = False"

definition some_pc :: "(gf_pc \<Rightarrow> bool) \<Rightarrow> gf \<Rightarrow> bool" where
  "some_pc P s \<longleftrightarrow> (\<exists>u < length (pcs s). P (pcs s ! u))"

definition pc_count :: "(gf_pc \<Rightarrow> bool) \<Rightarrow> gf_pc list \<Rightarrow> int" where
  "pc_count P ps = sum_list (map (\<lambda>pc. of_bool (P pc)) ps)"

lemma pc_count_upd:
  "t < length ps \<Longrightarrow> pc_count P (ps[t := pc]) = pc_count P ps + of_bool (P pc) - of_bool (P (ps ! t))"
  by (simp add: pc_count_def map_update sum_list_upd)

lemma pc_count_all:
  assumes "pc_count P ps \<ge> int (length ps)" "pc \<in> set ps" shows "P pc"
proof -
  have "\<forall>x \<in> set (map (\<lambda>pc. of_bool (P pc)) ps). x \<le> (1 :: int)" by auto
  from sum_list_all_one [OF this] assms have "of_bool (P pc) = (1 :: int)" by (auto simp: pc_count_def)
  then show ?thesis by (simp split: if_splits)
qed

lemma pc_count_replicate: "pc_count P (replicate n pc) = int n * of_bool (P pc)"
  by (simp add: pc_count_def sum_list_replicate)

lemma pc_count_zero: "(\<And>pc. pc \<in> set ps \<Longrightarrow> \<not> P pc) \<Longrightarrow> pc_count P ps = 0"
  by (induction ps) (auto simp: pc_count_def)

definition done_inv :: "gf \<Rightarrow> bool" where
  "done_inv s \<longleftrightarrow> \<not> some_pc adv_pc s \<and> int (doneThreads s) = pc_count done_pc (pcs s)
     \<and> (influshWarning s \<or> some_pc early s) \<and> (waitingFlush s \<longrightarrow> some_pc flushing s)
     \<and> (ack_sem s > 0 \<or> some_pc posting s \<longrightarrow> some_pc collecting s)"

text \<open>The effect of one step on these conditions, in terms of the moving thread.\<close>

definition done_move :: "gf \<Rightarrow> gf_pc \<Rightarrow> gf_pc \<Rightarrow> gf \<Rightarrow> bool" where
  "done_move s pc pc' s' \<longleftrightarrow> \<not> adv_pc pc' \<and> int (doneThreads s') - int (doneThreads s) = of_bool (done_pc pc') - of_bool (done_pc pc)
     \<and> (influshWarning s' \<or> early pc' \<or> \<not> influshWarning s \<and> \<not> early pc)
     \<and> (waitingFlush s' \<longrightarrow> flushing pc' \<or> waitingFlush s \<and> \<not> flushing pc)
     \<and> (collecting pc \<longrightarrow> collecting pc' \<or> pc' = Flush_flush)
     \<and> (ack_sem s' > 0 \<longrightarrow> ack_sem s > 0 \<or> posting pc) \<and> (posting pc' \<longrightarrow> waitingFlush s \<and> \<not> flushing pc \<and> \<not> parked pc)"

lemmas done_move_simps = done_move_def parked_def sem_defs early_def ack_return_def is_in_flush_def

lemma gf_start_done: "gf_start t c s = (pc', s') \<Longrightarrow> c \<noteq> Advance \<Longrightarrow> done_move s Work pc' s'"
  by (cases c) (auto simp: done_move_simps split: if_splits)

lemma ack_flush_done: "ack_flush t pc s = Some (pc', s') \<Longrightarrow> done_move s pc pc' s'"
  by (erule ack_flush.elims) (auto simp: done_move_simps split: if_splits)

lemma gf_flush_done: "gf_flush t pc s = Some (pc', s') \<Longrightarrow> done_move s pc pc' s'"
  by (erule gf_flush.elims) (auto simp: done_move_simps split: if_splits)

lemma thread_done_done: "thread_done t pc s = Some (pc', s') \<Longrightarrow> done_move s pc pc' s'"
  by (erule thread_done.elims) (auto simp: done_move_simps)

lemma advance_epoch_adv: "advance_epoch t pc s = Some (pc', s') \<Longrightarrow> adv_pc pc"
  by (erule advance_epoch.elims) auto

lemma gf_next_done:
  "gf_next c t pc s = Some (pc', s') \<Longrightarrow> c \<noteq> Advance \<Longrightarrow> \<not> adv_pc pc \<Longrightarrow> done_move s pc pc' s'"
  by (erule gf_next_cases) (auto simp: gf_start_done ack_flush_done gf_flush_done thread_done_done dest: advance_epoch_adv)

lemma some_pc_upd:
  assumes "t < length (pcs s)"
  shows "some_pc P (s1\<lparr>pcs := (pcs s)[t := pc']\<rparr>) \<longleftrightarrow> P pc' \<or> (\<exists>u < length (pcs s). u \<noteq> t \<and> P (pcs s ! u))"
  using assms by (auto simp: some_pc_def nth_list_update)

lemma done_inv_step:
  assumes inv: "done_inv s" and sem: "sem_inv s" and "gf_exec c t s = Some s'" "c \<noteq> Advance" shows "done_inv s'"
proof -
  obtain pc' s1 where x: "t < length (pcs s)" "gf_next c t (pcs s ! t) s = Some (pc', s1)" "s' = s1\<lparr>pcs := (pcs s)[t := pc']\<rparr>"
    using assms(3) by (rule gf_execE)
  let ?pc = "pcs s ! t" and ?other = "\<lambda>P. \<exists>u < length (pcs s). u \<noteq> t \<and> P (pcs s ! u)"
  have len: "length (pcs s) = nthreads s" using sem by (simp add: sem_inv_def)
  have "\<not> adv_pc ?pc" using inv x(1) by (auto simp: done_inv_def some_pc_def)
  note mv = gf_next_done [OF x(2) assms(4) this, unfolded done_move_def]
  have some: "some_pc P s \<longleftrightarrow> P ?pc \<or> ?other P" for P using x(1) by (auto simp: some_pc_def)
  have some': "some_pc P s' \<longleftrightarrow> P pc' \<or> ?other P" for P unfolding x(3) by (rule some_pc_upd [OF x(1)])
  have "int (doneThreads s') = pc_count done_pc (pcs s')"
    using inv mv x by (simp add: done_inv_def pc_count_upd)
  moreover have "\<not> some_pc adv_pc s'" using inv mv some [of adv_pc] some' [of adv_pc] by (simp add: done_inv_def)
  moreover have "influshWarning s' \<or> some_pc early s'"
    using inv mv some [of early] some' [of early] x(3) by (auto simp: done_inv_def)
  moreover have "waitingFlush s' \<longrightarrow> some_pc flushing s'"
    using inv mv some [of flushing] some' [of flushing] x(3) by (auto simp: done_inv_def)
  moreover have "some_pc collecting s'" if a: "ack_sem s' > 0 \<or> some_pc posting s'"
  proof -
    have sem': "sem_inv s'" by (rule sem_inv_step [OF sem assms(3)])
    show ?thesis
    proof (cases "some_pc collecting s")
      case True
      have "pc' \<noteq> Flush_flush"
      proof
        assume f: "pc' = Flush_flush"
        have t': "t < nthreads s'" "pcs s' ! t = Flush_flush" using x f len gf_next_sem [OF x(2)] by (simp_all add: sem_move_def)
        note h = holder_parks [OF sem' t'(1)]
        have "ack_sem s' = 0" "\<forall>u < nthreads s'. u \<noteq> t \<longrightarrow> parked (pcs s' ! u)" using h t'(2) by (auto simp: parked_def)
        moreover have "\<not> posting pc" if "parked pc" for pc using that by (auto simp: parked_def)
        moreover have "\<not> posting (pcs s' ! t)" "length (pcs s') = nthreads s'" using t' sem' by (simp_all add: sem_inv_def)
        ultimately show False using a by (auto simp: some_pc_def)
      qed
      then show ?thesis using True mv some [of collecting] some' [of collecting] by blast
    next
      case False
      then have "ack_sem s = 0" "\<not> some_pc posting s" using inv by (auto simp: done_inv_def)
      then have "posting pc'" using a mv x(3) some [of posting] some' [of posting] by auto
      then obtain u where u: "u < length (pcs s)" "u \<noteq> t" "flushing (pcs s ! u)" "\<not> parked ?pc"
        using mv inv some [of flushing] by (auto simp: done_inv_def)
      have "at_flush (pcs s ! u)" using u False by (cases "pcs s ! u") (auto simp: at_flush_def some_pc_def intro: exI [of _ u])
      then have "held (nthreads s - 1) (pcs s ! u) = int (nthreads s - 1)" "\<not> parked (pcs s ! u)" by (auto simp: at_flush_def parked_def)
      then have "parked ?pc" using holder_parks(2) [OF sem] u(1,2) x(1) len by metis
      then show ?thesis using u(4) by simp
    qed
  qed
  ultimately show ?thesis by (simp add: done_inv_def)
qed

lemma done_inv_init: "0 < n \<Longrightarrow> done_inv (gf_init n e lg)"
  by (auto simp: done_inv_def gf_init_def some_pc_def early_def pc_count_replicate)

lemma gf_reach_done: "gf_reach A s \<Longrightarrow> Advance \<notin> A \<Longrightarrow> done_inv s"
proof (induction rule: gf_reach_induct)
  case (step s c t s')
  have "done_inv s" "c \<noteq> Advance" "sem_inv s" using step gf_reach_sem by auto
  then show ?case using done_inv_step step by blast
qed (simp add: done_inv_init)

text \<open>When all threads have called \<open>thread_done\<close>.\<close>

lemma all_done:
  assumes "gf_reach A s" "Advance \<notin> A" "check_done s"
  shows "influshWarning s" "\<not> waitingFlush s" "u < nthreads s \<Longrightarrow> done_pc (pcs s ! u)" "\<not> some_pc posting s"
    "some_pc parked s \<Longrightarrow> flush_ack_sem s > 0"
proof -
  note sem = gf_reach_sem [OF assms(1)] and inv = gf_reach_done [OF assms(1,2)]
  have len: "length (pcs s) = nthreads s" using sem by (simp add: sem_inv_def)
  have d: "done_pc pc" if "pc \<in> set (pcs s)" for pc
    using pc_count_all [of "pcs s" done_pc pc] that inv assms(3) len by (simp add: done_inv_def check_done_def)
  then show "done_pc (pcs s ! u)" if "u < nthreads s" using that len by simp
  have none: "\<not> some_pc P s" if "\<And>pc. done_pc pc \<Longrightarrow> \<not> P pc" for P using that d by (auto simp: some_pc_def)
  have c: "\<not> some_pc collecting s" by (rule none) (auto elim: done_pc.elims)
  have e: "\<not> some_pc early s" by (rule none) (simp add: early_def)
  have f: "\<not> some_pc flushing s" by (rule none) (auto elim: done_pc.elims)
  then show "influshWarning s" "\<not> waitingFlush s" "\<not> some_pc posting s" using inv c e f by (auto simp: done_inv_def)
  have "weight m pc = of_bool (parked pc)" if "done_pc pc" for m pc using that by (cases pc) (auto simp: weight_def)
  then have w: "weight m pc = of_bool (parked pc)" if "pc \<in> set (pcs s)" for m pc using d that by blast
  show "flush_ack_sem s > 0" if p: "some_pc parked s"
  proof -
    obtain u where u: "u < length (pcs s)" "parked (pcs s ! u)" using p by (auto simp: some_pc_def)
    have "weight (nthreads s - 1) (pcs s ! u) \<le> sum_list (map (weight (nthreads s - 1)) (pcs s))"
      by (rule member_le_sum_list) (use u w in auto)
    then show ?thesis using w [of "pcs s ! u"] u sem inv c by (simp add: sem_inv_def done_inv_def)
  qed
qed

text \<open>
  C15.  Done threads come to an end.  In every state reached by the threads' calls of
  \<open>ack_flush\<close>, \<open>set_global_epoch\<close> and \<open>thread_done\<close> in which all threads have called
  \<open>thread_done\<close>, a thread that still loops over \<open>ack_flush\<close> leaves that loop within four
  steps of its own: no acknowledgement is left unanswered and the warning stays set.
\<close>

theorem done_threads_finish:
  assumes "gf_reach A s" "Advance \<notin> A" "check_done s" "t < nthreads s"
  shows "\<exists>k \<le> 4. \<exists>s'. gf_run (replicate k (c, t)) s = Some s' \<and> pcs s' ! t = Finished"
proof -
  note d = all_done [OF assms(1-3)]
  have t: "t < length (pcs s)" using gf_reach_sem [OF assms(1)] assms(4) by (simp add: sem_inv_def)
  have cd: "doneThreads s = nthreads s" using assms(3) by (simp add: check_done_def)
  note run = gf_exec_def gf_next_def t check_done_def cd d(1,2) ack_return_def gf_checkpoint_def sem_wait_flush_def
  show ?thesis
  proof (cases "pcs s ! t")
    case (Ack_warning fin)
    then show ?thesis using d(3) [OF assms(4)] by (intro exI [of _ 2]) (simp add: run numeral_2_eq_2)
  next
    case (Ack_done fin)
    then show ?thesis using d(3) [OF assms(4)] by (intro exI [of _ 1]) (simp add: run)
  next
    case (Ack_waiting fin)
    then show ?thesis using d(3) [OF assms(4)] by (intro exI [of _ 3]) (simp add: run numeral_3_eq_3)
  next
    case (Ack_post fin)
    then show ?thesis using d(4) t by (auto simp: some_pc_def)
  next
    case (Ack_wait fin)
    then have "flush_ack_sem s > 0" using d(5) t d(3) [OF assms(4)] by (auto simp: some_pc_def parked_def)
    then show ?thesis using Ack_wait d(3) [OF assms(4)] by (intro exI [of _ 4]) (simp add: run eval_nat_numeral)
  next
    case (Ack_checkpoint fin)
    then show ?thesis using d(3) [OF assms(4)] by (intro exI [of _ 3]) (simp add: run numeral_3_eq_3)
  next
    case Finished
    then show ?thesis by (intro exI [of _ 0]) simp
  qed (use d(3) [OF assms(4)] in auto)
qed

text \<open>Schedules on which the statements above are tried.\<close>

definition epoch_schedule :: "nat \<Rightarrow> (gf_call \<times> nat) list" where
  "epoch_schedule k = take k ([(Set_epoch 2, 0), (Record 7, 1)] @ replicate 3 (Ack_flush, 0) @ replicate 5 (Ack_flush, 1)
     @ replicate 8 (Ack_flush, 0) @ replicate 2 (Ack_flush, 1)
     @ replicate 3 (Thread_done, 0) @ replicate 3 (Thread_done, 1))"

definition epoch_state :: "nat \<Rightarrow> gf" where
  "epoch_state k = the (gf_run (epoch_schedule k) (gf_init 2 1 (\<lambda>a. 0)))"

abbreviation epoch_calls :: "gf_call set" where
  "epoch_calls \<equiv> {Set_epoch 2, Record 7, Ack_flush, Thread_done}"

lemma epoch_run:
  "map_option pcs (gf_run (epoch_schedule 12) (gf_init 2 1 (\<lambda>a. 0))) = Some [Flush_flush, Ack_wait False]"
  "map_option (\<lambda>s. (pcs s, pend s, gepoch s, logged s 7)) (gf_run (epoch_schedule 20) (gf_init 2 1 (\<lambda>a. 0)))
     = Some ([Work, Work], [[], []], 2, 2)"
  "map_option (\<lambda>s. (pcs s, check_done s)) (gf_run (epoch_schedule 26) (gf_init 2 1 (\<lambda>a. 0)))
     = Some ([Ack_warning True, Ack_warning True], True)"
  by code_simp+

lemma epoch_state_reach:
  assumes "map_option f (gf_run (epoch_schedule k) (gf_init 2 1 (\<lambda>a. 0))) = Some x"
  shows "gf_reach epoch_calls (epoch_state k)" "f (epoch_state k) = x"
proof -
  obtain s where s: "gf_run (epoch_schedule k) (gf_init 2 1 (\<lambda>a. 0)) = Some s" "f s = x" using assms by auto
  have "fst ` set (epoch_schedule k) \<subseteq> epoch_calls" by (auto simp: epoch_schedule_def dest!: in_set_takeD)
  from gf_run_init [OF s(1) _ this] show "gf_reach epoch_calls (epoch_state k)" by (simp add: epoch_state_def s(1))
  show "f (epoch_state k) = x" by (simp add: epoch_state_def s)
qed

lemma epoch_state_nthreads:
  assumes "map_option f (gf_run (epoch_schedule k) (gf_init 2 1 (\<lambda>a. 0))) = Some x"
  shows "nthreads (epoch_state k) = length (pcs (epoch_state k))"
  using gf_reach_sem [OF epoch_state_reach(1) [OF assms]] by (simp add: sem_inv_def)

theorem flush_quiescent_witness:
  "parked (pcs (epoch_state 12) ! 1) \<and> ack_sem (epoch_state 12) = 0"
  using flush_quiescent [OF epoch_state_reach(1) [OF epoch_run(1)], of 0] epoch_state_reach(2) [OF epoch_run(1)]
    epoch_state_nthreads [OF epoch_run(1)] by (auto simp: at_flush_def)

theorem done_threads_finish_witness:
  "\<exists>k \<le> 4. \<exists>s'. gf_run (replicate k (Ack_flush, 1)) (epoch_state 26) = Some s' \<and> pcs s' ! 1 = Finished"
  using done_threads_finish [OF epoch_state_reach(1) [OF epoch_run(3)], of 1 Ack_flush] epoch_state_reach(2) [OF epoch_run(3)]
    epoch_state_nthreads [OF epoch_run(3)] by auto

text \<open>After \<open>block_flush\<close>, with the semaphores empty, a thread that acknowledges stops for good.\<close>

lemma block_flush_stops:
  assumes "t < length (pcs s)" "pcs s ! t = Work" "\<not> check_done s" "flush_ack_sem s = 0"
  shows "\<exists>s'. gf_run (replicate 5 (Ack_flush, t)) (block_flush s) = Some s' \<and> pcs s' ! t = Ack_wait False \<and> gf_exec c t s' = None"
  using assms by (simp add: eval_nat_numeral gf_exec_def gf_next_def block_flush_def check_done_def sem_post_ack_def sem_wait_flush_def)

section \<open>Records that are closed too early\<close>


definition theft_schedule :: "(gf_call \<times> nat) list" where
  "theft_schedule = (Set_epoch 2, 0) # replicate 3 (Ack_flush, 0) @ replicate 5 (Ack_flush, 1) @ replicate 5 (Ack_flush, 2)
     @ replicate 10 (Ack_flush, 0) @ replicate 2 (Ack_flush, 1) @ (Record 7, 1) # (Set_epoch 3, 0) # replicate 3 (Ack_flush, 0)
     @ replicate 6 (Ack_flush, 1)"

lemma theft_run:
  "map_option (\<lambda>s. (pcs s, pend s, flushes s)) (gf_run theft_schedule (gf_init 3 1 (\<lambda>a. 0)))
     = Some ([Flush_acks 0, Ack_checkpoint False, Ack_wait False], [[], [(2, 7, 1)], []], 1)"
  by code_simp

text \<open>
  C17.  A release can be taken by the wrong thread.  With three threads a fast thread may
  acknowledge the next flush while another has not yet woken up from the last one; the fast
  thread takes the release meant for the other one and closes its log, with a record made
  after the last flush, while the flush it acknowledged has not happened.
\<close>

theorem release_taken_twice:
  "\<exists>s. gf_reach {Set_epoch 2, Set_epoch 3, Record 7, Ack_flush} s \<and> pcs s ! 0 = Flush_acks 0 \<and> pcs s ! 1 = Ack_checkpoint False
     \<and> (\<exists>e. (e, 7, flushes s) \<in> set (pend s ! 1))"
proof -
  obtain s where s: "gf_run theft_schedule (gf_init 3 1 (\<lambda>a. 0)) = Some s"
    "pcs s = [Flush_acks 0, Ack_checkpoint False, Ack_wait False]" "pend s = [[], [(2, 7, 1)], []]" "flushes s = 1"
    using theft_run by auto
  have "fst ` set theft_schedule \<subseteq> {Set_epoch 2, Set_epoch 3, Record 7, Ack_flush}" by (auto simp: theft_schedule_def)
  from gf_run_init [OF s(1) _ this] show ?thesis using s(2-4) by (intro exI [of _ s]) auto
qed

end
