(* ===== verification/Epoch_Advance.thy ===== *)
theory Epoch_Advance
  imports Global_Flush
begin

text \<open>
  The epochs that end at a barrier (\<open>advance_epoch\<close> of \<open>incll_globals.cc\<close> with \<open>flush_manual\<close>
  and \<open>ack_flush_manual\<close>): the barriers before and after the flush divide every run into
  phases in which the threads work and phases in which they only advance the epoch.
\<close>

section \<open>Advancing the epoch at a barrier\<close>

text \<open>Where a thread can be, in a phase between and in a phase within two barriers.\<close>

fun adv_place :: "nat \<Rightarrow> nat \<Rightarrow> gf_pc \<Rightarrow> bool" where
  "adv_place g t Work = even g"
| "adv_place g t Adv_enter = even g"
| "adv_place g t (Adv_entered k) \<longleftrightarrow> even g \<and> k = g \<or> odd g \<and> Suc k = g"
| "adv_place g t (Adv_acks i) \<longleftrightarrow> odd g \<and> t = 0"
| "adv_place g t Adv_flush \<longleftrightarrow> odd g \<and> t = 0"
| "adv_place g t Adv_epoch \<longleftrightarrow> odd g \<and> t = 0"
| "adv_place g t (Adv_release i) \<longleftrightarrow> odd g \<and> t = 0"
| "adv_place g t Adv_post \<longleftrightarrow> odd g \<and> t \<noteq> 0"
| "adv_place g t Adv_wait \<longleftrightarrow> odd g \<and> t \<noteq> 0"
| "adv_place g t Adv_checkpoint = odd g"
| "adv_place g t Adv_leave = odd g"
| "adv_place g t (Adv_left k) \<longleftrightarrow> odd g \<and> k = g \<or> even g \<and> Suc k = g"
| "adv_place g t _ = False"

definition at_barrier :: "nat \<Rightarrow> gf_pc \<Rightarrow> bool" where
  "at_barrier g pc \<longleftrightarrow> pc = (if even g then Adv_entered g else Adv_left g)"

fun before_epoch :: "gf_pc \<Rightarrow> bool" where
  "before_epoch (Adv_entered k) = True" | "before_epoch (Adv_acks i) = True" | "before_epoch Adv_flush = True"
| "before_epoch Adv_epoch = True" | "before_epoch _ = False"

fun after_release :: "gf_pc \<Rightarrow> bool" where
  "after_release Adv_checkpoint = True" | "after_release Adv_leave = True" | "after_release (Adv_left k) = True"
| "after_release _ = False"

definition recorded :: "gf \<Rightarrow> u64 \<Rightarrow> bool" where
  "recorded s a \<longleftrightarrow> (\<exists>u < nthreads s. \<exists>k. (gepoch s, a, k) \<in> set (pend s ! u))"

definition adv_inv :: "u64 \<Rightarrow> gf \<Rightarrow> bool" where
  "adv_inv e s \<longleftrightarrow> 0 < nthreads s \<and> (\<forall>t < nthreads s. adv_place (bar_gen s) t (pcs s ! t))
     \<and> int (bar_count s) = pc_count (at_barrier (bar_gen s)) (pcs s)
     \<and> (odd (bar_gen s) \<and> before_epoch (pcs s ! 0) \<longrightarrow> flush_ack_sem s = 0 \<and> \<not> some_pc after_release s)
     \<and> (unat e + flushes s < 2 ^ 64 \<longrightarrow>
          unat (gepoch s) + of_bool (pcs s ! 0 = Adv_epoch) = unat e + flushes s
          \<and> (odd (bar_gen s) \<and> \<not> before_epoch (pcs s ! 0) \<longrightarrow> (\<forall>a. logged s a < gepoch s))
          \<and> (\<forall>a. logged s a \<le> gepoch s \<and> (logged s a = gepoch s \<longrightarrow> recorded s a)))"

lemma adv_inv_init: "0 < n \<Longrightarrow> \<forall>a. lg a < e \<Longrightarrow> adv_inv e (gf_init n e lg)"
  by (auto simp: adv_inv_def gf_init_def pc_count_replicate at_barrier_def less_imp_le)

lemma even_phase_empty:
  assumes "sem_inv s" "adv_inv e s" "even (bar_gen s)" shows "flush_ack_sem s = 0"
proof -
  have "weight m (pcs s ! t) = 0" if "t < nthreads s" for m t
  proof -
    have "adv_place (bar_gen s) t (pcs s ! t)" using assms(2) that by (simp add: adv_inv_def)
    then show ?thesis using assms(3) by (cases "pcs s ! t") (auto simp: weight_def parked_def)
  qed
  then have "map (weight (nthreads s - 1)) (pcs s) = map (\<lambda>pc. 0) (pcs s)"
    using assms(1) by (auto simp: sem_inv_def in_set_conv_nth)
  then show ?thesis using assms(1) by (simp add: sem_inv_def sum_list_0 del: map_eq_conv)
qed

text \<open>A step that keeps the phase of the barrier.\<close>

lemma adv_inv_same:
  assumes inv: "adv_inv e s" and sem: "sem_inv s" and t: "t < nthreads s"
    and s1: "nthreads s1 = nthreads s" "bar_gen s1 = bar_gen s"
      "int (bar_count s1) - int (bar_count s) = of_bool (at_barrier (bar_gen s) pc') - of_bool (at_barrier (bar_gen s) (pcs s ! t))"
    and place: "adv_place (bar_gen s) t pc'"
    and pre: "odd (bar_gen s) \<Longrightarrow> before_epoch ((pcs s)[t := pc'] ! 0) \<Longrightarrow>
       flush_ack_sem s1 = 0 \<and> \<not> after_release pc' \<and> before_epoch (pcs s ! 0)"
    and epoch: "unat e + flushes s1 < 2 ^ 64 \<Longrightarrow> unat e + flushes s < 2 ^ 64 \<and>
       unat (gepoch s1) + of_bool ((pcs s)[t := pc'] ! 0 = Adv_epoch) = unat e + flushes s1
          \<and> (odd (bar_gen s) \<and> \<not> before_epoch ((pcs s)[t := pc'] ! 0) \<longrightarrow> (\<forall>a. logged s1 a < gepoch s1))
          \<and> (\<forall>a. logged s1 a \<le> gepoch s1 \<and> (logged s1 a = gepoch s1 \<longrightarrow> recorded s1 a))"
  shows "adv_inv e (s1\<lparr>pcs := (pcs s)[t := pc']\<rparr>)"
proof -
  let ?s' = "s1\<lparr>pcs := (pcs s)[t := pc']\<rparr>"
  have len: "length (pcs s) = nthreads s" using sem by (simp add: sem_inv_def)
  have "adv_place (bar_gen s) u ((pcs s)[t := pc'] ! u)" if "u < nthreads s" for u
    using inv place that len by (cases "u = t") (auto simp: adv_inv_def)
  moreover have "int (bar_count s1) = pc_count (at_barrier (bar_gen s)) ((pcs s)[t := pc'])"
    using inv s1(3) t len by (simp add: adv_inv_def pc_count_upd)
  moreover have "flush_ack_sem s1 = 0 \<and> \<not> some_pc after_release ?s'" if "odd (bar_gen s)" "before_epoch ((pcs s)[t := pc'] ! 0)"
    using pre [OF that] that inv t len by (auto simp: adv_inv_def some_pc_upd) (auto simp: some_pc_def)
  moreover have "recorded ?s' = recorded s1" by (simp add: recorded_def fun_eq_iff)
  ultimately show ?thesis using inv epoch s1 by (simp add: adv_inv_def)
qed

lemma adv_inv_quiet:
  assumes inv: "adv_inv e s" and sem: "sem_inv s" and t: "t < nthreads s"
    and s1: "nthreads s1 = nthreads s" "bar_gen s1 = bar_gen s"
      "int (bar_count s1) - int (bar_count s) = of_bool (at_barrier (bar_gen s) pc') - of_bool (at_barrier (bar_gen s) (pcs s ! t))"
      "gepoch s1 = gepoch s" "flushes s1 = flushes s" "logged s1 = logged s" "pend s1 = pend s"
    and place: "adv_place (bar_gen s) t pc'"
    and first: "odd (bar_gen s) \<Longrightarrow> t = 0 \<Longrightarrow> before_epoch pc' = before_epoch (pcs s ! t)" "pc' \<noteq> Adv_epoch" "pcs s ! t \<noteq> Adv_epoch"
    and rel: "odd (bar_gen s) \<Longrightarrow> before_epoch (pcs s ! 0) \<Longrightarrow>
       flush_ack_sem s1 = flush_ack_sem s \<and> (after_release pc' \<longrightarrow> after_release (pcs s ! t))"
  shows "adv_inv e (s1\<lparr>pcs := (pcs s)[t := pc']\<rparr>)"
proof -
  let ?p0 = "(pcs s)[t := pc'] ! 0"
  have len: "length (pcs s) = nthreads s" using sem by (simp add: sem_inv_def)
  have p0: "odd (bar_gen s) \<Longrightarrow> before_epoch ?p0 = before_epoch (pcs s ! 0)" "?p0 = Adv_epoch \<longleftrightarrow> pcs s ! 0 = Adv_epoch"
    using first t len by (cases "t = 0"; simp)+
  have rec: "recorded s1 = recorded s" using s1 by (simp add: recorded_def fun_eq_iff)
  show ?thesis
  proof (rule adv_inv_same [OF inv sem t s1(1-3) place])
    assume "odd (bar_gen s)" "before_epoch ?p0"
    then show "flush_ack_sem s1 = 0 \<and> \<not> after_release pc' \<and> before_epoch (pcs s ! 0)"
      using p0 rel inv t len by (auto simp: adv_inv_def some_pc_def)
  qed (use inv p0 in \<open>auto simp: s1 rec adv_inv_def\<close>)
qed

lemma adv_barrier:
  assumes inv: "adv_inv e s" and sem: "sem_inv s" and t: "t < nthreads s"
    and pc: "pcs s ! t = (if even (bar_gen s) then Adv_enter else Adv_leave)"
    and pc': "pc' = (if even (bar_gen s) then Adv_entered (bar_gen s) else Adv_left (bar_gen s))"
  shows "adv_inv e ((barrier_arrive s)\<lparr>pcs := (pcs s)[t := pc']\<rparr>)"
proof -
  let ?g = "bar_gen s" and ?ps = "(pcs s)[t := pc']"
  have len: "length (pcs s) = nthreads s" using sem by (simp add: sem_inv_def)
  have at: "at_barrier ?g pc'" "\<not> at_barrier ?g (pcs s ! t)" using pc pc' by (simp_all add: at_barrier_def)
  have cnt: "pc_count (at_barrier ?g) ?ps = int (bar_count s) + 1"
    using inv at t len by (simp add: adv_inv_def pc_count_upd)
  show ?thesis
  proof (cases "Suc (bar_count s) = nthreads s")
    case True
    have all: "at_barrier ?g pc" if "pc \<in> set ?ps" for pc
      by (rule pc_count_all [OF _ that]) (use True cnt len in simp)
    then have ps: "?ps ! u = pc'" if "u < nthreads s" for u
      using that len pc' by (metis at_barrier_def length_list_update nth_mem)
    have "pc_count (at_barrier (Suc ?g)) ?ps = 0"
    proof (rule pc_count_zero)
      show "\<not> at_barrier (Suc ?g) pc" if "pc \<in> set ?ps" for pc using all [OF that] by (auto simp: at_barrier_def split: if_splits)
    qed
    moreover have "adv_place (Suc ?g) u pc'" for u using pc' by auto
    moreover have "flush_ack_sem s = 0" if "even ?g" by (rule even_phase_empty [OF sem inv that])
    moreover have "\<not> some_pc after_release (s\<lparr>bar_count := 0, bar_gen := Suc ?g, pcs := ?ps\<rparr>)" if "even ?g"
      using that ps pc' len by (simp add: some_pc_def)
    moreover have "before_epoch pc'" if "even ?g" using that pc' by simp
    moreover have n0: "0 < nthreads s" using t by simp
    moreover have "pcs s ! 0 \<noteq> Adv_epoch" using ps [OF n0] pc pc' by (cases "t = 0") (simp_all split: if_splits)
    ultimately show ?thesis using inv True ps pc' pc by (auto simp: adv_inv_def barrier_arrive_def recorded_def)
  next
    case False
    show ?thesis
      by (rule adv_inv_quiet [OF inv sem t]) (use False pc pc' in \<open>auto simp: barrier_arrive_def at_barrier_def\<close>)
  qed
qed

lemma adv_inv_checkpoint:
  assumes inv: "adv_inv e s" and sem: "sem_inv s" and t: "t < nthreads s" and pc: "pcs s ! t = Adv_checkpoint"
  shows "adv_inv e ((gf_checkpoint t s)\<lparr>pcs := (pcs s)[t := Adv_leave]\<rparr>)"
proof -
  have len: "length (pcs s) = nthreads s" using sem by (simp add: sem_inv_def)
  have odd: "odd (bar_gen s)" using inv t pc by (auto simp: adv_inv_def)
  have "\<not> before_epoch (pcs s ! 0)" using inv t pc len odd by (auto simp: adv_inv_def some_pc_def)
  moreover from this have "\<not> before_epoch ((pcs s)[t := Adv_leave] ! 0)" "(pcs s)[t := Adv_leave] ! 0 \<noteq> Adv_epoch" "pcs s ! 0 \<noteq> Adv_epoch"
    using t len by (cases "t = 0"; auto)+
  ultimately show ?thesis
    by (intro adv_inv_same [OF inv sem t])
      (use inv pc odd in \<open>auto simp: gf_checkpoint_def at_barrier_def adv_inv_def recorded_def less_imp_le less_imp_neq\<close>)
qed

lemma adv_inv_record:
  assumes inv: "adv_inv e s" and sem: "sem_inv s" and t: "t < nthreads s" and pc: "pcs s ! t = Work"
  shows "adv_inv e ((record_call t a s)\<lparr>pcs := (pcs s)[t := Work]\<rparr>)"
proof -
  have len: "length (pcs s) = nthreads s" "length (pend s) = nthreads s" using sem by (simp_all add: sem_inv_def)
  have even: "even (bar_gen s)" using inv t pc by (auto simp: adv_inv_def)
  have same: "(pcs s)[t := Work] = pcs s" using pc by (metis list_update_id)
  have "recorded (record_call t a s) b" if "logged (record_call t a s) b = gepoch s" "logged s b = gepoch s \<longrightarrow> recorded s b" for b
    using that t len by (auto simp: recorded_def record_call_def nth_list_update split: if_splits)
  then show ?thesis unfolding same
    by (intro adv_inv_same [OF inv sem t, of _ Work, unfolded same])
      (use inv pc even in \<open>auto simp: record_call_def at_barrier_def adv_inv_def\<close>)
qed

lemma adv_inv_flush:
  assumes inv: "adv_inv e s" and sem: "sem_inv s" and t: "t < nthreads s" and pc: "pcs s ! t = Adv_flush"
  shows "adv_inv e ((global_flush s)\<lparr>pcs := (pcs s)[t := Adv_epoch]\<rparr>)"
proof -
  have len: "length (pcs s) = nthreads s" using sem by (simp add: sem_inv_def)
  have "adv_place (bar_gen s) t Adv_flush" using inv t pc by (metis adv_inv_def)
  then have g: "odd (bar_gen s)" "t = 0" by auto
  then show ?thesis
    by (intro adv_inv_same [OF inv sem t])
      (use inv pc len t in \<open>auto simp: global_flush_def at_barrier_def adv_inv_def recorded_def\<close>)
qed

lemma adv_inv_epoch:
  assumes inv: "adv_inv e s" and sem: "sem_inv s" and t: "t < nthreads s" and pc: "pcs s ! t = Adv_epoch"
  shows "adv_inv e ((s\<lparr>gepoch := gepoch s + 1\<rparr>)\<lparr>pcs := (pcs s)[t := Adv_release 0]\<rparr>)"
proof -
  have len: "length (pcs s) = nthreads s" using sem by (simp add: sem_inv_def)
  have "adv_place (bar_gen s) t Adv_epoch" using inv t pc by (metis adv_inv_def)
  then have g: "odd (bar_gen s)" "t = 0" by auto
  have up: "unat (gepoch s + 1) = Suc (unat (gepoch s)) \<and> (\<forall>a. logged s a < gepoch s + 1)" if "unat e + flushes s < 2 ^ 64"
  proof -
    have "Suc (unat (gepoch s)) < 2 ^ 64" "\<forall>a. logged s a \<le> gepoch s" using inv that pc g(2) by (auto simp: adv_inv_def)
    then have "unat (gepoch s + 1) = Suc (unat (gepoch s))" by (simp add: unat_word_ariths)
    then show ?thesis using \<open>\<forall>a. logged s a \<le> gepoch s\<close> by (simp add: word_less_nat_alt word_le_nat_alt le_imp_less_Suc)
  qed
  then have ne: "logged s a \<noteq> gepoch s + 1" "logged s a \<le> gepoch s + 1" if "unat e + flushes s < 2 ^ 64" for a
    using that by (auto simp: less_imp_le dest: less_imp_neq)
  show ?thesis
  proof (rule adv_inv_same [OF inv sem t])
    assume "unat e + flushes (s\<lparr>gepoch := gepoch s + 1\<rparr>) < 2 ^ 64"
    then have w: "unat e + flushes s < 2 ^ 64" by simp
    have "unat (gepoch s) + 1 = unat e + flushes s" using inv w pc g(2) by (simp add: adv_inv_def)
    then show "unat e + flushes s < 2 ^ 64 \<and>
      unat (gepoch (s\<lparr>gepoch := gepoch s + 1\<rparr>)) + of_bool ((pcs s)[t := Adv_release 0] ! 0 = Adv_epoch) = unat e + flushes (s\<lparr>gepoch := gepoch s + 1\<rparr>) \<and>
      (odd (bar_gen s) \<and> \<not> before_epoch ((pcs s)[t := Adv_release 0] ! 0) \<longrightarrow>
        (\<forall>a. logged (s\<lparr>gepoch := gepoch s + 1\<rparr>) a < gepoch (s\<lparr>gepoch := gepoch s + 1\<rparr>))) \<and>
      (\<forall>a. logged (s\<lparr>gepoch := gepoch s + 1\<rparr>) a \<le> gepoch (s\<lparr>gepoch := gepoch s + 1\<rparr>) \<and>
        (logged (s\<lparr>gepoch := gepoch s + 1\<rparr>) a = gepoch (s\<lparr>gepoch := gepoch s + 1\<rparr>) \<longrightarrow> recorded (s\<lparr>gepoch := gepoch s + 1\<rparr>) a))"
      using w up [OF w] ne [OF w] g(2) t len by auto
  qed (use pc g t len in \<open>auto simp: at_barrier_def\<close>)
qed

abbreviation advance_calls :: "gf_call set" where
  "advance_calls \<equiv> insert Advance (range Record)"

lemma adv_inv_step:
  assumes inv: "adv_inv e s" and sem: "sem_inv s" and "c \<in> advance_calls" and "gf_exec c t s = Some s'"
  shows "adv_inv e s'"
proof -
  obtain pc' s1 where x: "t < length (pcs s)" "gf_next c t (pcs s ! t) s = Some (pc', s1)" "s' = s1\<lparr>pcs := (pcs s)[t := pc']\<rparr>"
    using assms(4) by (rule gf_execE)
  have t: "t < nthreads s" using x(1) sem by (simp add: sem_inv_def)
  have place: "adv_place (bar_gen s) t (pcs s ! t)" using inv t by (simp add: adv_inv_def)
  note quiet = adv_inv_quiet [OF inv sem t] and bar = adv_barrier [OF inv sem t]
  show ?thesis
  proof (cases "pcs s ! t")
    case Work
    show ?thesis
    proof (cases "c = Advance")
      case True
      then have e: "pc' = Adv_enter" "s1 = s" using Work x(2) by (auto simp: gf_next_def)
      show ?thesis unfolding x(3) e by (rule quiet) (use Work place in \<open>auto simp: at_barrier_def\<close>)
    next
      case False
      then show ?thesis using Work x(2,3) assms(3) adv_inv_record [OF inv sem t] by (auto simp: gf_next_def)
    qed
  next
    case Adv_enter
    then show ?thesis using x(2,3) place bar by (auto simp: gf_next_def)
  next
    case (Adv_entered g)
    show ?thesis unfolding x(3) by (rule quiet) (use Adv_entered x(2) place in \<open>auto simp: gf_next_def barrier_pass_def at_barrier_def split: if_splits\<close>)
  next
    case (Adv_acks i)
    show ?thesis unfolding x(3) by (rule quiet) (use Adv_acks x(2) place in \<open>auto simp: gf_next_def sem_wait_ack_def at_barrier_def split: if_splits\<close>)
  next
    case Adv_flush
    then show ?thesis using x(2,3) adv_inv_flush [OF inv sem t] by (simp add: gf_next_def)
  next
    case Adv_epoch
    then show ?thesis using x(2,3) adv_inv_epoch [OF inv sem t] by (auto simp: gf_next_def)
  next
    case (Adv_release i)
    show ?thesis unfolding x(3) by (rule quiet) (use Adv_release x(2) place in \<open>auto simp: gf_next_def sem_post_flush_def at_barrier_def split: if_splits\<close>)
  next
    case Adv_post
    show ?thesis unfolding x(3) by (rule quiet) (use Adv_post x(2) place in \<open>auto simp: gf_next_def sem_post_ack_def at_barrier_def split: if_splits\<close>)
  next
    case Adv_wait
    have "\<not> (odd (bar_gen s) \<and> before_epoch (pcs s ! 0))" if "flush_ack_sem s > 0" using inv that by (auto simp: adv_inv_def)
    then show ?thesis unfolding x(3) using Adv_wait x(2) place
      by (intro quiet) (auto simp: gf_next_def sem_wait_flush_def at_barrier_def split: if_splits)
  next
    case Adv_checkpoint
    then show ?thesis using x(2,3) adv_inv_checkpoint [OF inv sem t] by (auto simp: gf_next_def)
  next
    case Adv_leave
    then show ?thesis using x(2,3) place bar by (auto simp: gf_next_def)
  next
    case (Adv_left g)
    show ?thesis unfolding x(3) by (rule quiet) (use Adv_left x(2) place in \<open>auto simp: gf_next_def barrier_pass_def at_barrier_def split: if_splits\<close>)
  qed (use place in auto)
qed

lemma adv_inv_reach:
  assumes "(gf_step advance_calls)\<^sup>*\<^sup>* (gf_init n e lg) s" "0 < n" "\<forall>a. lg a < e"
  shows "adv_inv e s \<and> sem_inv s"
  using assms(1)
proof (induction rule: rtranclp_induct)
  case base
  show ?case using adv_inv_init assms(2,3) sem_inv_init by blast
next
  case (step y z)
  then show ?case by (auto elim!: gf_step.cases intro: adv_inv_step sem_inv_step)
qed


definition advance_schedule :: "(gf_call \<times> nat) list" where
  "advance_schedule = [(Advance, 0), (Advance, 0), (Advance, 1), (Advance, 1)] @ replicate 2 (Advance, 1) @ replicate 9 (Advance, 0)
     @ replicate 3 (Advance, 1) @ [(Advance, 0), (Advance, 1), (Record 7, 1)]"


end
