(* ===== verification/Value_Rows.thy ===== *)
theory Value_Rows
  imports String_Slice "HOL-Library.Monad_Syntax"
begin

text \<open>
  The rows stored under the keys (\<open>value_bag.hh\<close>, \<open>value_string.hh\<close>, \<open>value_array.hh\<close>).  The
  storage of a row behind its header is a list of bytes; newly allocated storage has
  arbitrary content, given as an argument.  Writing beyond the allocated storage, and a
  loop that would not end, give \<open>None\<close>.
\<close>

section \<open>Writing into storage\<close>

definition splice :: "nat \<Rightarrow> bytes \<Rightarrow> bytes \<Rightarrow> bytes option" where
  "splice off bs buf =
     (if off + length bs \<le> length buf then Some (take off buf @ bs @ drop (off + length bs) buf) else None)"

lemma splice_some:
  assumes "off + length bs \<le> length buf"
  shows "\<exists>buf'. splice off bs buf = Some buf' \<and> length buf' = length buf \<and> take (off + length bs) buf' = take off buf @ bs
    \<and> drop (off + length bs) buf' = drop (off + length bs) buf"
  using assms by (simp add: splice_def)

section \<open>Bags of columns\<close>

text \<open>
  A \<open>value_bag\<close> with 16-bit offsets: \<open>vb_pos\<close> holds the offsets \<open>pos_\<close>, counted from the start
  of \<open>bagdata\<close>, whose first \<open>4 + 2 * ncol\<close> bytes are the number of columns and the offsets.
\<close>

record vbag =
  vb_ts :: u64
  vb_ncol :: nat
  vb_pos :: "nat list"
  vb_s :: bytes

definition offset_of :: "nat \<Rightarrow> nat" where
  "offset_of n = n mod 2 ^ 16"

definition bagdata_size :: nat where "bagdata_size = 4"
definition offset_size :: nat where "offset_size = 2"
definition kvtimestamp_size :: nat where "kvtimestamp_size = 8"

definition vb_empty :: vbag where
  "vb_empty = \<lparr>vb_ts = 0, vb_ncol = 0, vb_pos = [bagdata_size], vb_s = replicate bagdata_size 0\<rparr>"

definition vb_size :: "vbag \<Rightarrow> nat" where
  "vb_size b = kvtimestamp_size + vb_pos b ! vb_ncol b"

definition column_length :: "vbag \<Rightarrow> nat \<Rightarrow> nat" where
  "column_length b i = offset_of (vb_pos b ! (i + 1) + 2 ^ 16 - vb_pos b ! i)"

definition vb_col :: "vbag \<Rightarrow> nat \<Rightarrow> bytes" where
  "vb_col b i = (if i < vb_ncol b then take (column_length b i) (drop (vb_pos b ! i) (vb_s b)) else [])"

definition row_string :: "vbag \<Rightarrow> bytes" where
  "row_string b = take (vb_pos b ! vb_ncol b) (vb_s b)"

type_synonym changes = "(nat \<times> bytes) list"

fun update_size :: "vbag \<Rightarrow> changes \<Rightarrow> nat \<Rightarrow> nat \<Rightarrow> nat \<times> nat" where
  "update_size b [] sz ncol = (sz, ncol)"
| "update_size b ((idx, v) # cs) sz ncol =
     (if idx < vb_ncol b then update_size b cs (sz + length v - column_length b idx) ncol
      else update_size b cs (sz + length v) (idx + 1))"

text \<open>Copying the old columns from \<open>col\<close> to \<open>end_col\<close>; all offsets move by the same amount.\<close>

definition copy_columns :: "vbag \<Rightarrow> nat \<Rightarrow> nat \<Rightarrow> nat \<Rightarrow> nat list \<times> bytes \<Rightarrow> (nat list \<times> bytes) option" where
  "copy_columns b sz col end_col = (\<lambda>(pos, s).
     do { s' \<leftarrow> splice sz (take (vb_pos b ! end_col - vb_pos b ! col) (drop (vb_pos b ! col) (vb_s b))) s;
          Some (map (\<lambda>i. if col \<le> i \<and> i < end_col then offset_of (vb_pos b ! i + sz - vb_pos b ! col) else pos ! i) [0..<length pos], s') })"

definition copy_old :: "vbag \<Rightarrow> nat \<Rightarrow> nat \<Rightarrow> nat \<Rightarrow> nat list \<times> bytes \<Rightarrow> ((nat list \<times> bytes) \<times> nat \<times> nat) option" where
  "copy_old b this_col col sz row =
     (if col \<noteq> this_col \<and> col < vb_ncol b then
        let end_col = min this_col (vb_ncol b)
        in do { row1 \<leftarrow> copy_columns b sz col end_col row;
                Some (row1, sz + (vb_pos b ! end_col - vb_pos b ! col), end_col) }
      else Some (row, sz, col))"

definition mark_empty :: "nat \<Rightarrow> nat \<Rightarrow> nat \<Rightarrow> nat list \<Rightarrow> nat list" where
  "mark_empty sz col this_col pos = map (\<lambda>i. if col \<le> i \<and> i < this_col then offset_of sz else pos ! i) [0..<length pos]"

fun update_loop :: "vbag \<Rightarrow> nat \<Rightarrow> changes \<Rightarrow> nat \<Rightarrow> nat \<Rightarrow> nat list \<times> bytes \<Rightarrow> (nat list \<times> bytes) option" where
  "update_loop b ncol cs col sz row =
     (let this_col = (case cs of [] \<Rightarrow> ncol | (c, v) # r \<Rightarrow> c)
      in if this_col < col then None
         else do { (row1, sz1, col1) \<leftarrow> copy_old b this_col col sz row;
              let pos2 = mark_empty sz1 col1 this_col (fst row1);
              case cs of
                [] \<Rightarrow> Some (pos2[ncol := offset_of sz1], snd row1)
              | (c, v) # r \<Rightarrow>
                  (if this_col = ncol then Some (pos2[ncol := offset_of sz1], snd row1)
                   else do { s3 \<leftarrow> splice sz1 v (snd row1);
                             update_loop b ncol r (Suc c) (sz1 + length v) (pos2[c := offset_of sz1], s3) }) })"

declare update_loop.simps [simp del]

definition vb_update :: "(nat \<Rightarrow> u8) \<Rightarrow> changes \<Rightarrow> u64 \<Rightarrow> vbag \<Rightarrow> vbag option" where
  "vb_update fresh cs ts b =
     (let (sz0, ncol) = update_size b cs (vb_size b) (vb_ncol b);
          sz = (if ncol > vb_ncol b then sz0 + (ncol - vb_ncol b) * offset_size else sz0);
          s0 = map fresh [0..<sz - kvtimestamp_size]
      in if ncol = vb_ncol b \<and> sz = vb_size b \<and> length cs = 1 \<and> length (snd (hd cs)) \<le> 16 then
           do { s1 \<leftarrow> splice 0 (take (sz - kvtimestamp_size) (vb_s b)) s0;
                s2 \<leftarrow> splice (vb_pos b ! fst (hd cs)) (snd (hd cs)) s1;
                Some \<lparr>vb_ts = ts, vb_ncol = vb_ncol b, vb_pos = vb_pos b, vb_s = s2\<rparr> }
         else
           do { (pos, s) \<leftarrow> update_loop b ncol cs 0 (bagdata_size + ncol * offset_size) (replicate (Suc ncol) 0, s0);
                Some \<lparr>vb_ts = ts, vb_ncol = offset_of ncol, vb_pos = pos, vb_s = s\<rparr> })"

definition vb_update1 :: "(nat \<Rightarrow> u8) \<Rightarrow> nat \<Rightarrow> bytes \<Rightarrow> u64 \<Rightarrow> vbag \<Rightarrow> vbag option" where
  "vb_update1 fresh c v = vb_update fresh [(c, v)]"

definition vb_create :: "(nat \<Rightarrow> u8) \<Rightarrow> changes \<Rightarrow> u64 \<Rightarrow> vbag option" where
  "vb_create fresh cs ts = vb_update fresh cs ts vb_empty"

definition vb_create1 :: "(nat \<Rightarrow> u8) \<Rightarrow> bytes \<Rightarrow> u64 \<Rightarrow> vbag option" where
  "vb_create1 fresh str ts =
     (let pos0 = bagdata_size + offset_size
      in do { s \<leftarrow> splice pos0 str (map fresh [0..<bagdata_size + offset_size + length str]);
              Some \<lparr>vb_ts = ts, vb_ncol = 1, vb_pos = [offset_of pos0, offset_of (pos0 + length str)], vb_s = s\<rparr> })"

section \<open>Strings\<close>

text \<open>
  A \<open>value_string\<close>; an index selects a part of it by offset and length.  \<open>beyond\<close> is the memory
  behind the string, which \<open>update\<close> copies when it replaces the string by a longer one.
\<close>

record vstring =
  vs_ts :: u64
  vs_s :: bytes

definition make_index :: "u32 \<Rightarrow> u32 \<Rightarrow> u32" where
  "make_index offset len = offset + push_bit 16 len"

definition index_offset :: "u32 \<Rightarrow> u32" where
  "index_offset idx = idx AND 0xFFFF"

definition index_length :: "u32 \<Rightarrow> u32" where
  "index_length idx = drop_bit 16 idx"

definition vs_empty :: vstring where
  "vs_empty = \<lparr>vs_ts = 0, vs_s = []\<rparr>"

definition vs_size :: "vstring \<Rightarrow> nat" where
  "vs_size v = 16 + length (vs_s v)"

definition vs_col :: "u32 \<Rightarrow> vstring \<Rightarrow> bytes" where
  "vs_col idx v =
     (if idx = 0 then vs_s v
      else let off = min (length (vs_s v)) (unat (index_offset idx))
           in take (min (length (vs_s v) - off) (unat (index_length idx))) (drop off (vs_s v)))"

type_synonym part_changes = "(u32 \<times> bytes) list"

fun vs_update_size :: "part_changes \<Rightarrow> nat \<Rightarrow> nat \<Rightarrow> nat \<times> nat" where
  "vs_update_size [] vallen cutlen = (max vallen cutlen, cutlen)"
| "vs_update_size ((idx, v) # cs) vallen cutlen =
     vs_update_size cs (max vallen (unat (index_offset idx) + length v)) (if idx = 0 then length v else cutlen)"

fun vs_write :: "part_changes \<Rightarrow> bytes \<Rightarrow> bytes option" where
  "vs_write [] s = Some s"
| "vs_write ((idx, v) # cs) s = do { s1 \<leftarrow> splice (unat (index_offset idx)) v s; vs_write cs s1 }"

definition vs_update :: "(nat \<Rightarrow> u8) \<Rightarrow> (nat \<Rightarrow> u8) \<Rightarrow> part_changes \<Rightarrow> u64 \<Rightarrow> vstring \<Rightarrow> vstring option" where
  "vs_update fresh beyond cs ts v =
     (let (vallen, cutlen) = vs_update_size cs 0 (length (vs_s v))
      in do { s1 \<leftarrow> splice 0 (take cutlen (vs_s v @ map beyond [0..<cutlen])) (map fresh [0..<vallen]);
              s2 \<leftarrow> vs_write cs s1;
              Some \<lparr>vs_ts = ts, vs_s = s2\<rparr> })"

definition vs_create :: "(nat \<Rightarrow> u8) \<Rightarrow> (nat \<Rightarrow> u8) \<Rightarrow> part_changes \<Rightarrow> u64 \<Rightarrow> vstring option" where
  "vs_create fresh beyond cs ts = vs_update fresh beyond cs ts vs_empty"

definition vs_create1 :: "bytes \<Rightarrow> u64 \<Rightarrow> vstring" where
  "vs_create1 str ts = \<lparr>vs_ts = ts, vs_s = str\<rparr>"

section \<open>Arrays of columns\<close>

text \<open>
  A \<open>value_array\<close> points to its columns, which rows share: an update copies the pointers and
  allocates only the changed columns, at the addresses \<open>as\<close>.  The columns and rows passed to
  \<open>deallocate_rcu\<close> are collected.
\<close>

record varray =
  va_ts :: u64
  va_cols :: "u64 list"

type_synonym columns = "u64 \<Rightarrow> bytes option"

definition va_empty :: varray where
  "va_empty = \<lparr>va_ts = 0, va_cols = []\<rparr>"

definition va_col :: "columns \<Rightarrow> varray \<Rightarrow> nat \<Rightarrow> bytes" where
  "va_col m r i = (if i < length (va_cols r) \<and> va_cols r ! i \<noteq> 0 then the (m (va_cols r ! i)) else [])"

definition make_column :: "bytes \<Rightarrow> u64 \<Rightarrow> columns \<Rightarrow> u64 \<times> columns" where
  "make_column str a m = (if str \<noteq> [] then (a, m(a \<mapsto> str)) else (0, m))"

definition make_sized_row :: "nat \<Rightarrow> u64 \<Rightarrow> varray" where
  "make_sized_row ncol ts = \<lparr>va_ts = ts, va_cols = replicate ncol 0\<rparr>"

fun va_set_columns :: "changes \<Rightarrow> u64 list \<Rightarrow> u64 list \<Rightarrow> columns \<Rightarrow> (u64 list \<times> columns) option" where
  "va_set_columns [] as ps m = Some (ps, m)"
| "va_set_columns ((c, v) # cs) [] ps m = None"
| "va_set_columns ((c, v) # cs) (a # as) ps m =
     (if c < length ps then let (p, m1) = make_column v a m in va_set_columns cs as (ps[c := p]) m1 else None)"

definition va_update :: "changes \<Rightarrow> u64 list \<Rightarrow> u64 \<Rightarrow> varray \<Rightarrow> columns \<Rightarrow> (varray \<times> columns) option" where
  "va_update cs as ts r m =
     (if cs = [] \<or> ts < va_ts r then None
      else let ncol = max (length (va_cols r)) (fst (last cs) + 1)
           in do { (ps, m1) \<leftarrow> va_set_columns cs as (va_cols r @ replicate (ncol - length (va_cols r)) 0) m;
                   Some (\<lparr>va_ts = ts, va_cols = ps\<rparr>, m1) })"

definition va_create :: "changes \<Rightarrow> u64 list \<Rightarrow> u64 \<Rightarrow> columns \<Rightarrow> (varray \<times> columns) option" where
  "va_create cs as ts m = va_update cs as ts va_empty m"

definition va_create1 :: "bytes \<Rightarrow> u64 \<Rightarrow> u64 \<Rightarrow> columns \<Rightarrow> varray \<times> columns" where
  "va_create1 v a ts m = (let (p, m1) = make_column v a m in (\<lparr>va_ts = ts, va_cols = [p]\<rparr>, m1))"

definition va_deallocate_rcu :: "varray \<Rightarrow> u64 list" where
  "va_deallocate_rcu r = filter (\<lambda>p. p \<noteq> 0) (va_cols r)"

fun va_deallocate_rcu_after_update :: "changes \<Rightarrow> varray \<Rightarrow> u64 list" where
  "va_deallocate_rcu_after_update [] r = []"
| "va_deallocate_rcu_after_update ((c, v) # cs) r =
     (if c < length (va_cols r)
      then (if va_cols r ! c \<noteq> 0 then [va_cols r ! c] else []) @ va_deallocate_rcu_after_update cs r else [])"

section \<open>What a bag stands for\<close>

definition vb_cols :: "vbag \<Rightarrow> bytes list" where
  "vb_cols b = map (vb_col b) [0..<vb_ncol b]"

definition vb_wf :: "vbag \<Rightarrow> bool" where
  "vb_wf b \<longleftrightarrow> length (vb_pos b) = Suc (vb_ncol b) \<and> vb_pos b ! 0 = bagdata_size + vb_ncol b * offset_size
     \<and> sorted (vb_pos b) \<and> vb_pos b ! vb_ncol b \<le> length (vb_s b) \<and> vb_pos b ! vb_ncol b < 2 ^ 16"

text \<open>The columns after a list of changes; columns in between are empty.\<close>

definition set_column :: "nat \<times> bytes \<Rightarrow> bytes list \<Rightarrow> bytes list" where
  "set_column c xs = (xs @ replicate (Suc (fst c) - length xs) [])[fst c := snd c]"

definition cols_update :: "changes \<Rightarrow> bytes list \<Rightarrow> bytes list" where
  "cols_update cs xs = fold set_column cs xs"

definition changes_ok :: "changes \<Rightarrow> bool" where
  "changes_ok cs \<longleftrightarrow> sorted_wrt (<) (map fst cs)"

subsection \<open>Building a row column by column\<close>

definition offs :: "nat \<Rightarrow> bytes list \<Rightarrow> nat \<Rightarrow> nat" where
  "offs hdr new k = hdr + length (concat (take k new))"

definition built :: "nat \<Rightarrow> bytes list \<Rightarrow> nat \<Rightarrow> nat \<Rightarrow> nat list \<Rightarrow> bytes \<Rightarrow> bool" where
  "built hdr new col sz pos s \<longleftrightarrow> col \<le> length new \<and> length pos = Suc (length new) \<and> sz = offs hdr new col
     \<and> (\<forall>i < col. pos ! i = offset_of (offs hdr new i)) \<and> drop hdr (take sz s) = concat (take col new)
     \<and> offs hdr new (length new) \<le> length s"

lemma take_segment: "col \<le> e \<Longrightarrow> e \<le> length xs \<Longrightarrow> take e xs = take col xs @ map ((!) xs) [col..<e]"
proof -
  assume "col \<le> e" "e \<le> length xs"
  then have "map ((!) xs) [col..<e] = drop col (take e xs)" by (intro nth_equalityI) auto
  moreover have "take col (take e xs) = take col xs" using \<open>col \<le> e\<close> by simp
  ultimately show ?thesis by (metis append_take_drop_id)
qed

lemma offs_segment:
  "col \<le> e \<Longrightarrow> e \<le> length new \<Longrightarrow> offs hdr new e = offs hdr new col + length (concat (map ((!) new) [col..<e]))"
  by (simp add: offs_def take_segment)

lemma offs_mono: "e \<le> length new \<Longrightarrow> offs hdr new e \<le> offs hdr new (length new)"
  using offs_segment [of e "length new" new hdr] by simp

lemma built_extend:
  assumes "built hdr new col sz pos s" "col \<le> e" "e \<le> length new" "bs = concat (map ((!) new) [col..<e])"
    "length pos' = length pos" "\<And>i. i < e \<Longrightarrow> pos' ! i = (if i < col then pos ! i else offset_of (offs hdr new i))"
  shows "\<exists>s'. splice sz bs s = Some s' \<and> length s' = length s \<and> built hdr new e (sz + length bs) pos' s'"
proof -
  have b: "sz = offs hdr new col" "drop hdr (take sz s) = concat (take col new)" "offs hdr new (length new) \<le> length s"
    "\<forall>i < col. pos ! i = offset_of (offs hdr new i)" "length pos = Suc (length new)"
    using assms(1) by (auto simp: built_def)
  have e: "offs hdr new e = sz + length bs" using offs_segment [OF assms(2,3)] b(1) assms(4) by simp
  then have "sz + length bs \<le> length s" using offs_mono [OF assms(3), of hdr] b(3) by simp
  from splice_some [OF this] obtain s' where s': "splice sz bs s = Some s'" "length s' = length s" "take (sz + length bs) s' = take sz s @ bs"
    by blast
  have h: "hdr \<le> length (take sz s)" using b(1) \<open>sz + length bs \<le> length s\<close> by (simp add: offs_def)
  have "drop hdr (take (sz + length bs) s') = concat (take col new) @ bs" using s'(3) b(2) h by simp
  then have "drop hdr (take (sz + length bs) s') = concat (take e new)" using take_segment [OF assms(2,3)] assms(4) by simp
  then show ?thesis using s' b assms e by (auto simp: built_def)
qed

lemma splice_nil [simp]: "sz \<le> length s \<Longrightarrow> splice sz [] s = Some s"
  by (simp add: splice_def)

text \<open>The columns of the old row.\<close>

lemma vb_wf_pos:
  assumes "vb_wf b" "i \<le> j" "j \<le> vb_ncol b" shows "vb_pos b ! i \<le> vb_pos b ! j" "vb_pos b ! j < 2 ^ 16" "vb_pos b ! j \<le> length (vb_s b)"
proof -
  have le: "vb_pos b ! i \<le> vb_pos b ! j" if "i \<le> j" "j \<le> vb_ncol b" for i j
    using that assms(1) by (simp add: vb_wf_def sorted_nth_mono)
  show "vb_pos b ! i \<le> vb_pos b ! j" by (rule le [OF assms(2,3)])
  show "vb_pos b ! j < 2 ^ 16" "vb_pos b ! j \<le> length (vb_s b)" using le [OF assms(3) order_refl] assms(1) by (simp_all add: vb_wf_def)
qed

lemma column_length_wf: "vb_wf b \<Longrightarrow> i < vb_ncol b \<Longrightarrow> column_length b i = vb_pos b ! Suc i - vb_pos b ! i"
proof -
  assume b: "vb_wf b" "i < vb_ncol b"
  have "vb_pos b ! i \<le> vb_pos b ! Suc i" "vb_pos b ! Suc i < 2 ^ 16" using vb_wf_pos [OF b(1), of i "Suc i"] b(2) by simp_all
  then have "vb_pos b ! (i + 1) + 2 ^ 16 - vb_pos b ! i = (vb_pos b ! Suc i - vb_pos b ! i) + 2 ^ 16"
    "vb_pos b ! Suc i - vb_pos b ! i < 2 ^ 16" by auto
  then show ?thesis unfolding column_length_def offset_of_def by (simp only: mod_add_self2 mod_less)
qed

lemma old_segment:
  assumes "vb_wf b" "col \<le> e" "e \<le> vb_ncol b"
  shows "take (vb_pos b ! e - vb_pos b ! col) (drop (vb_pos b ! col) (vb_s b)) = concat (map (vb_col b) [col..<e])"
    "length (concat (map (vb_col b) [col..<e])) = vb_pos b ! e - vb_pos b ! col"
proof -
  have "take (vb_pos b ! e - vb_pos b ! col) (drop (vb_pos b ! col) (vb_s b)) = concat (map (vb_col b) [col..<e])"
    using assms(2,3)
  proof (induction e rule: dec_induct)
    case (step e)
    have p: "vb_pos b ! col \<le> vb_pos b ! e" "vb_pos b ! e \<le> vb_pos b ! Suc e"
      using vb_wf_pos(1) [OF assms(1)] step by simp_all
    let ?x = "vb_pos b ! e - vb_pos b ! col" and ?y = "vb_pos b ! Suc e - vb_pos b ! e"
    have "take (?x + ?y) (drop (vb_pos b ! col) (vb_s b))
        = take ?x (drop (vb_pos b ! col) (vb_s b)) @ take ?y (drop (vb_pos b ! e) (vb_s b))"
      unfolding take_add using p by simp
    moreover have "?x + ?y = vb_pos b ! Suc e - vb_pos b ! col" using p by simp
    moreover have "vb_col b e = take ?y (drop (vb_pos b ! e) (vb_s b))" using step column_length_wf [OF assms(1)] by (simp add: vb_col_def)
    ultimately show ?case using step by simp
  qed simp
  then show "take (vb_pos b ! e - vb_pos b ! col) (drop (vb_pos b ! col) (vb_s b)) = concat (map (vb_col b) [col..<e])"
    "length (concat (map (vb_col b) [col..<e])) = vb_pos b ! e - vb_pos b ! col"
    using vb_wf_pos(3) [OF assms] by (metis, metis (no_types, lifting) diff_le_mono length_drop length_take min.absorb2)
qed

subsection \<open>The loop\<close>

lemma mark_empty_nth: "i < length pos \<Longrightarrow> mark_empty sz col e pos ! i = (if col \<le> i \<and> i < e then offset_of sz else pos ! i)"
  "length (mark_empty sz col e pos) = length pos"
  by (simp_all add: mark_empty_def)

lemma copy_columns_built:
  assumes "built hdr new col sz pos s" "vb_wf b" "col \<le> e" "e \<le> vb_ncol b" "e \<le> length new" "\<And>i. col \<le> i \<Longrightarrow> i < e \<Longrightarrow> new ! i = vb_col b i"
  shows "\<exists>pos' s'. copy_columns b sz col e (pos, s) = Some (pos', s') \<and> length s' = length s
    \<and> built hdr new e (sz + (vb_pos b ! e - vb_pos b ! col)) pos' s'"
proof -
  have seg: "map ((!) new) [col..<j] = map (vb_col b) [col..<j]" if "j \<le> e" for j using assms(6) that by simp
  let ?pos' = "map (\<lambda>i. if col \<le> i \<and> i < e then offset_of (vb_pos b ! i + sz - vb_pos b ! col) else pos ! i) [0..<length pos]"
  have len: "length pos = Suc (length new)" and sz: "sz = offs hdr new col" using assms(1) by (simp_all add: built_def)
  have "vb_pos b ! i + sz - vb_pos b ! col = offs hdr new i" if "col \<le> i" "i < e" for i
  proof -
    have "vb_pos b ! col \<le> vb_pos b ! i" using vb_wf_pos(1) [OF assms(2) that(1)] that assms(4) by simp
    moreover have "offs hdr new i = sz + (vb_pos b ! i - vb_pos b ! col)"
      using offs_segment [OF that(1), of new hdr] that assms(4,5) seg [of i] old_segment(2) [OF assms(2) that(1)] sz by simp
    ultimately show ?thesis by simp
  qed
  then have "?pos' ! i = (if i < col then pos ! i else offset_of (offs hdr new i))" if "i < e" for i
    using that assms(5) len by (simp del: upt_Suc)
  from built_extend [OF assms(1,3,5) _ _ this, of "concat (map (vb_col b) [col..<e])"]
  show ?thesis using old_segment [OF assms(2-4)] seg [of e] by (auto simp: copy_columns_def)
qed

text \<open>The columns up to the next change: those of the old row, then empty ones.\<close>

lemma update_gap:
  assumes "built hdr new col sz pos s" "vb_wf b" "col \<le> e" "e \<le> length new"
    "\<And>i. col \<le> i \<Longrightarrow> i < e \<Longrightarrow> new ! i = (if i < vb_ncol b then vb_col b i else [])"
  obtains pos1 s1 sz1 col1 where
    "copy_old b e col sz (pos, s) = Some ((pos1, s1), sz1, col1)"
    "length s1 = length s" "built hdr new e sz1 (mark_empty sz1 col1 e pos1) s1"
proof -
  define e1 where "e1 = (if col \<noteq> e \<and> col < vb_ncol b then min e (vb_ncol b) else col)"
  have e1: "col \<le> e1" "e1 \<le> e" using assms(3) by (auto simp: e1_def)
  obtain pos1 s1 sz1 where step: "copy_old b e col sz (pos, s) = Some ((pos1, s1), sz1, e1)" "length s1 = length s" "built hdr new e1 sz1 pos1 s1"
  proof (cases "col \<noteq> e \<and> col < vb_ncol b")
    case True
    then have "e1 = min e (vb_ncol b)" by (simp add: e1_def)
    then show ?thesis using copy_columns_built [OF assms(1,2) e1(1)] assms(4,5) e1 True that by (auto simp: copy_old_def Let_def)
  next
    case False
    then show ?thesis using assms(1) that by (auto simp: e1_def copy_old_def)
  qed
  have empty: "new ! i = []" if "e1 \<le> i" "i < e" for i
    using that assms(5) [of i] e1 by (auto simp: e1_def split: if_splits)
  then have seg: "concat (map ((!) new) [e1..<j]) = []" if "j \<le> e" for j using that by simp
  have len: "length pos1 = Suc (length new)" "sz1 = offs hdr new e1" using step(3) by (simp_all add: built_def)
  have "mark_empty sz1 e1 e pos1 ! i = (if i < e1 then pos1 ! i else offset_of (offs hdr new i))" if "i < e" for i
    using that assms(4) len offs_segment [of e1 i new hdr] seg [of i] by (simp add: mark_empty_nth)
  from built_extend [OF step(3) e1(2) assms(4) seg [OF order_refl, symmetric] mark_empty_nth(2) this]
  have "built hdr new e sz1 (mark_empty sz1 e1 e pos1) s1"
    using step(3) offs_mono [of e1 new hdr] e1 assms(4) by (auto simp: built_def)
  then show ?thesis using that step(1,2) by blast
qed

lemma update_loop_built:
  assumes "vb_wf b" "vb_ncol b \<le> length new"
  shows "built hdr new col sz pos s \<Longrightarrow> changes_ok cs \<Longrightarrow> \<forall>(c, v) \<in> set cs. col \<le> c \<and> c < length new \<and> new ! c = v \<Longrightarrow>
    \<forall>i < length new. col \<le> i \<longrightarrow> i \<notin> fst ` set cs \<longrightarrow> new ! i = (if i < vb_ncol b then vb_col b i else []) \<Longrightarrow>
    \<exists>pos' s'. update_loop b (length new) cs col sz (pos, s) = Some (pos', s') \<and> length s' = length s \<and> length pos' = Suc (length new)
      \<and> (\<forall>i \<le> length new. pos' ! i = offset_of (offs hdr new i)) \<and> drop hdr (take (offs hdr new (length new)) s') = concat new"
proof (induction cs arbitrary: col sz pos s)
  case Nil
  have "col \<le> length new" using Nil(1) by (simp add: built_def)
  moreover have "new ! i = (if i < vb_ncol b then vb_col b i else [])" if "col \<le> i" "i < length new" for i using Nil(4) that by simp
  ultimately obtain pos1 s1 sz1 col1 where g: "copy_old b (length new) col sz (pos, s) = Some ((pos1, s1), sz1, col1)"
    "length s1 = length s" "built hdr new (length new) sz1 (mark_empty sz1 col1 (length new) pos1) s1"
    using update_gap [OF Nil(1) assms(1) _ order_refl] by blast
  let ?pos' = "(mark_empty sz1 col1 (length new) pos1)[length new := offset_of sz1]"
  have "update_loop b (length new) [] col sz (pos, s) = Some (?pos', s1)"
    using g(1) \<open>col \<le> length new\<close> by (simp add: update_loop.simps [of _ _ "[]"] Let_def)
  moreover have "?pos' ! i = offset_of (offs hdr new i)" if "i \<le> length new" for i
    using that g(3) by (cases "i = length new") (auto simp: built_def)
  ultimately show ?case using g(2,3) by (auto simp: built_def)
next
  case (Cons cv cs)
  obtain c v where cv: "cv = (c, v)" by fastforce
  have c: "col \<le> c" "c < length new" "new ! c = v" using Cons(4) cv by auto
  have lt: "c < c'" if "(c', v') \<in> set cs" for c' v' using Cons(3) that cv by (force simp: changes_ok_def)
  have "new ! i = (if i < vb_ncol b then vb_col b i else [])" if "col \<le> i" "i < c" for i
  proof -
    have "i \<notin> fst ` set (cv # cs)" using that lt cv by force
    then show ?thesis using Cons(5) that c(2) by simp
  qed
  from update_gap [OF Cons(2) assms(1) c(1) less_imp_le [OF c(2)] this] obtain pos1 s1 sz1 col1 where g:
    "copy_old b c col sz (pos, s) = Some ((pos1, s1), sz1, col1)"
    "length s1 = length s" "built hdr new c sz1 (mark_empty sz1 col1 c pos1) s1" by blast
  let ?pos2 = "(mark_empty sz1 col1 c pos1)[c := offset_of sz1]"
  have "\<exists>s3. splice sz1 v s1 = Some s3 \<and> length s3 = length s1 \<and> built hdr new (Suc c) (sz1 + length v) ?pos2 s3"
  proof (rule built_extend [OF g(3)])
    show "?pos2 ! i = (if i < c then mark_empty sz1 col1 c pos1 ! i else offset_of (offs hdr new i))" if "i < Suc c" for i
      using that g(3) c(2) by (cases "i = c") (auto simp: built_def)
  qed (use c in auto)
  then obtain s3 where s3: "splice sz1 v s1 = Some s3" "length s3 = length s1" "built hdr new (Suc c) (sz1 + length v) ?pos2 s3" by blast
  have "changes_ok cs" using Cons(3) by (simp add: changes_ok_def)
  moreover have "\<forall>(c', v') \<in> set cs. Suc c \<le> c' \<and> c' < length new \<and> new ! c' = v'" using Cons(4) lt by force
  moreover have "\<forall>i < length new. Suc c \<le> i \<longrightarrow> i \<notin> fst ` set cs \<longrightarrow> new ! i = (if i < vb_ncol b then vb_col b i else [])"
    using Cons(5) c(1) cv by auto
  moreover have "update_loop b (length new) (cv # cs) col sz (pos, s) = update_loop b (length new) cs (Suc c) (sz1 + length v) (?pos2, s3)"
    using g(1) c s3(1) cv by (simp add: update_loop.simps [of _ _ "(c, v) # cs"])
  ultimately show ?case using Cons(1) [OF s3(3)] s3(2) g(2) by simp
qed

subsection \<open>Sizes\<close>

lemma set_column_nth:
  "length (set_column (c, v) xs) = max (length xs) (Suc c)"
  "i < max (length xs) (Suc c) \<Longrightarrow> set_column (c, v) xs ! i = (if i = c then v else if i < length xs then xs ! i else [])"
  by (auto simp: set_column_def nth_list_update nth_append)

lemma cols_update_Cons: "cols_update ((c, v) # cs) xs = cols_update cs (set_column (c, v) xs)"
  by (simp add: cols_update_def)

lemma cols_update_nth:
  "changes_ok cs \<Longrightarrow> length xs \<le> length (cols_update cs xs)
     \<and> (\<forall>(c, v) \<in> set cs. c < length (cols_update cs xs) \<and> cols_update cs xs ! c = v)
     \<and> (\<forall>i < length (cols_update cs xs). i \<notin> fst ` set cs \<longrightarrow> cols_update cs xs ! i = (if i < length xs then xs ! i else []))"
proof (induction cs arbitrary: xs)
  case Nil
  show ?case by (simp add: cols_update_def)
next
  case (Cons cv cs)
  obtain c v where cv: "cv = (c, v)" by fastforce
  have ok: "changes_ok cs" and c: "c \<notin> fst ` set cs" using Cons(2) cv by (auto simp: changes_ok_def)
  let ?ys = "set_column (c, v) xs" and ?new = "cols_update (cv # cs) xs"
  have eq: "?new = cols_update cs ?ys" by (simp add: cols_update_Cons cv)
  note ih = Cons(1) [OF ok, of ?ys, folded eq]
  have len: "length xs \<le> length ?new" "c < length ?new" using ih by (simp_all add: set_column_nth)
  have "?new ! c = v" using ih c len(2) by (simp add: set_column_nth less_max_iff_disj)
  moreover have "?new ! i = (if i < length xs then xs ! i else [])" if "i < length ?new" "i \<notin> fst ` set (cv # cs)" for i
  proof -
    have "?new ! i = (if i < length ?ys then ?ys ! i else [])" using ih that by simp
    then show ?thesis using that cv by (auto simp: set_column_nth)
  qed
  ultimately show ?case using ih len cv by auto
qed

definition cols_bytes :: "bytes list \<Rightarrow> nat" where
  "cols_bytes xs = length (concat xs)"

lemma cols_bytes_upd: "i < length xs \<Longrightarrow> cols_bytes (xs[i := v]) + length (xs ! i) = cols_bytes xs + length v"
  by (induction xs arbitrary: i) (auto simp: cols_bytes_def split: nat.split)

lemma cols_bytes_set_column:
  "cols_bytes (set_column (c, v) xs) + length (if c < length xs then xs ! c else []) = cols_bytes xs + length v"
proof -
  let ?ys = "xs @ replicate (Suc c - length xs) []"
  have "c < length ?ys" "cols_bytes ?ys = cols_bytes xs" "?ys ! c = (if c < length xs then xs ! c else [])"
    by (auto simp: cols_bytes_def nth_append)
  then show ?thesis using cols_bytes_upd [of c ?ys v] by (simp add: set_column_def)
qed

lemma cols_bytes_mem: "i < length xs \<Longrightarrow> length (xs ! i) \<le> cols_bytes xs"
  by (induction xs arbitrary: i) (auto simp: cols_bytes_def nth_Cons split: nat.split intro: trans_le_add2)

lemma update_size_spec:
  assumes "changes_ok cs" "\<forall>(c, v) \<in> set cs. if c < vb_ncol b then c < length xs \<and> length (xs ! c) = column_length b c else length xs \<le> c"
    "cols_bytes xs \<le> sz" "vb_ncol b \<le> length xs" "ncol = length xs"
  shows "update_size b cs sz ncol = (sz + cols_bytes (cols_update cs xs) - cols_bytes xs, length (cols_update cs xs))"
  using assms
proof (induction cs arbitrary: xs sz ncol)
  case Nil
  then show ?case by (simp add: cols_update_def)
next
  case (Cons cv cs)
  obtain c v where cv: "cv = (c, v)" by fastforce
  have ok: "changes_ok cs" and lt: "\<forall>(c', v') \<in> set cs. c < c'" using Cons(2) cv by (auto simp: changes_ok_def)
  let ?ys = "set_column (c, v) xs"
  have hyp: "if c < vb_ncol b then c < length xs \<and> length (xs ! c) = column_length b c else length xs \<le> c" using Cons(3) cv by auto
  have bytes: "cols_bytes ?ys + length (if c < length xs then xs ! c else []) = cols_bytes xs + length v" by (rule cols_bytes_set_column)
  have old: "\<forall>(c', v') \<in> set cs. if c' < vb_ncol b then c' < length ?ys \<and> length (?ys ! c') = column_length b c' else length ?ys \<le> c'"
    using Cons(3) lt hyp Cons(5) cv by (fastforce simp: set_column_nth split: if_splits)
  have step: "update_size b (cv # cs) sz ncol = update_size b cs (sz + cols_bytes ?ys - cols_bytes xs) (length ?ys)"
  proof (cases "c < vb_ncol b")
    case True
    then have "sz + length v - column_length b c = sz + cols_bytes ?ys - cols_bytes xs"
      using bytes hyp Cons(4) cols_bytes_mem [of c xs] by simp
    then show ?thesis using True hyp Cons(6) cv by (simp add: set_column_nth)
  next
    case False
    then show ?thesis using bytes hyp Cons(4) cv by (simp add: set_column_nth)
  qed
  have "cols_bytes ?ys \<le> sz + cols_bytes ?ys - cols_bytes xs" "vb_ncol b \<le> length ?ys" using Cons(4,5) by (simp_all add: set_column_nth)
  from Cons(1) [OF ok old this refl] show ?case unfolding step using Cons(4) by (simp add: cv cols_update_Cons)
qed

section \<open>Updating a bag\<close>

lemma vb_cols_simps: "length (vb_cols b) = vb_ncol b" "i < vb_ncol b \<Longrightarrow> vb_cols b ! i = vb_col b i"
  by (simp_all add: vb_cols_def)

lemma vb_cols_bytes: "vb_wf b \<Longrightarrow> cols_bytes (vb_cols b) = vb_pos b ! vb_ncol b - vb_pos b ! 0"
  using old_segment(2) [of b 0 "vb_ncol b"] by (simp add: cols_bytes_def vb_cols_def)

text \<open>A row built column by column is well-formed and holds these columns.\<close>

lemma built_row:
  assumes "length pos = Suc (length new)" "\<forall>i \<le> length new. pos ! i = offset_of (offs hdr new i)" "hdr = bagdata_size + length new * offset_size"
    "drop hdr (take (offs hdr new (length new)) s) = concat new" "offs hdr new (length new) \<le> length s" "offs hdr new (length new) < 2 ^ 16"
  shows "vb_wf \<lparr>vb_ts = ts, vb_ncol = offset_of (length new), vb_pos = pos, vb_s = s\<rparr>"
    "vb_cols \<lparr>vb_ts = ts, vb_ncol = offset_of (length new), vb_pos = pos, vb_s = s\<rparr> = new"
proof -
  let ?b = "\<lparr>vb_ts = ts, vb_ncol = offset_of (length new), vb_pos = pos, vb_s = s\<rparr>" and ?n = "length new"
  have "offs hdr new i < 2 ^ 16" if "i \<le> ?n" for i using offs_mono [OF that, of hdr] assms(6) by simp
  then have pos: "pos ! i = offs hdr new i" if "i \<le> ?n" for i using that assms(2) by (simp add: offset_of_def)
  have "?n < 2 ^ 16" using assms(3,6) by (simp add: offs_def offset_size_def)
  then have n: "offset_of ?n = ?n" by (simp add: offset_of_def)
  have mono: "offs hdr new i \<le> offs hdr new j" if "i \<le> j" "j \<le> ?n" for i j using offs_segment [OF that, of hdr] by simp
  have "sorted pos" using mono pos assms(1) by (auto simp: sorted_iff_nth_mono)
  then show wf: "vb_wf ?b" using pos n assms(1,3,5,6) by (simp add: vb_wf_def) (simp add: offs_def)
  have "vb_col ?b i = new ! i" if "i < ?n" for i
  proof -
    let ?x = "length (concat (take i new))"
    have i: "take (Suc i) new = take i new @ [new ! i]" "concat new = concat (take i new) @ new ! i @ concat (drop (Suc i) new)"
      using that id_take_nth_drop [OF that] by (simp_all add: take_Suc_conv_app_nth) (metis concat.simps(2) concat_append)
    then have o: "offs hdr new i = hdr + ?x" "offs hdr new (Suc i) = hdr + ?x + length (new ! i)" by (simp_all add: offs_def)
    have le: "hdr + ?x + length (new ! i) \<le> offs hdr new ?n" using mono [of "Suc i" ?n] that o by simp
    have "take (length (new ! i)) (drop (hdr + ?x) s) = take (length (new ! i)) (drop ?x (drop hdr (take (offs hdr new ?n) s)))"
      using le by (simp add: drop_take min_def add.commute)
    also have "\<dots> = new ! i" unfolding assms(4) by (subst i(2)) simp
    finally show ?thesis using that n pos [of i] pos [of "Suc i"] o column_length_wf [OF wf, of i] by (simp add: vb_col_def)
  qed
  then show "vb_cols ?b = new" using n by (intro nth_equalityI) (simp_all add: vb_cols_simps)
qed

lemma vb_col_length: "vb_wf b \<Longrightarrow> i < vb_ncol b \<Longrightarrow> length (vb_col b i) = column_length b i"
  using vb_wf_pos(1,3) [of b i "Suc i"] by (simp add: vb_col_def column_length_wf)

lemma vb_pos_offs:
  assumes "vb_wf b" "i \<le> vb_ncol b"
  shows "vb_pos b ! i = offs (bagdata_size + vb_ncol b * offset_size) (vb_cols b) i"
    "drop (bagdata_size + vb_ncol b * offset_size) (take (vb_pos b ! vb_ncol b) (vb_s b)) = concat (vb_cols b)"
proof -
  have p0: "vb_pos b ! 0 = bagdata_size + vb_ncol b * offset_size" using assms(1) by (simp add: vb_wf_def)
  have "take i (vb_cols b) = map (vb_col b) [0..<i]" using assms(2) by (simp add: vb_cols_def take_map)
  then show "vb_pos b ! i = offs (bagdata_size + vb_ncol b * offset_size) (vb_cols b) i"
    using old_segment(2) [OF assms(1) _ assms(2), of 0] vb_wf_pos(1) [OF assms(1) _ assms(2), of 0] p0 by (simp add: offs_def)
  show "drop (bagdata_size + vb_ncol b * offset_size) (take (vb_pos b ! vb_ncol b) (vb_s b)) = concat (vb_cols b)"
    using old_segment(1) [OF assms(1), of 0 "vb_ncol b"] p0 by (simp add: drop_take vb_cols_def)
qed

text \<open>Replacing one column by another of the same length in place.\<close>

lemma vb_update_in_place:
  assumes wf: "vb_wf b" and c: "c < vb_ncol b" "length v = column_length b c" and s0: "length s0 = vb_pos b ! vb_ncol b"
  shows "\<exists>s2. (do { s1 \<leftarrow> splice 0 (take (vb_pos b ! vb_ncol b) (vb_s b)) s0; splice (vb_pos b ! c) v s1 }) = Some s2
    \<and> vb_wf \<lparr>vb_ts = ts, vb_ncol = vb_ncol b, vb_pos = vb_pos b, vb_s = s2\<rparr>
    \<and> vb_cols \<lparr>vb_ts = ts, vb_ncol = vb_ncol b, vb_pos = vb_pos b, vb_s = s2\<rparr> = (vb_cols b)[c := v]"
proof -
  let ?n = "vb_ncol b" and ?hdr = "bagdata_size + vb_ncol b * offset_size" and ?xs = "vb_cols b"
  define s1 where "s1 = take (vb_pos b ! ?n) (vb_s b)"
  have len: "length s1 = vb_pos b ! ?n" "length ?xs = ?n" using wf by (simp_all add: s1_def vb_wf_def vb_cols_simps)
  have one: "splice 0 (take (vb_pos b ! ?n) (vb_s b)) s0 = Some s1" using len(1) s0 by (simp add: splice_def s1_def)
  have pc: "vb_pos b ! Suc c = vb_pos b ! c + length v" "vb_pos b ! Suc c \<le> length s1" "?hdr \<le> vb_pos b ! c"
    using column_length_wf [OF wf c(1)] vb_wf_pos(1) [OF wf, of c "Suc c"] vb_wf_pos(1) [OF wf, of "Suc c" ?n] vb_wf_pos(1) [OF wf, of 0 c] c len wf
    by (simp_all add: vb_wf_def)
  define s2 where "s2 = take (vb_pos b ! c) s1 @ v @ drop (vb_pos b ! c + length v) s1"
  have two: "splice (vb_pos b ! c) v s1 = Some s2" using pc by (simp add: splice_def s2_def)
  let ?new = "?xs[c := v]"
  have xc: "length (?xs ! c) = length v" using c vb_col_length [OF wf c(1)] by (simp add: vb_cols_simps)
  have "map length ?new = map length ?xs" using xc by (simp add: map_update list_update_same_conv c len)
  then have "length (concat (take i ?new)) = length (concat (take i ?xs))" for i by (metis length_concat take_map)
  then have off: "offs ?hdr ?new i = vb_pos b ! i" if "i \<le> ?n" for i using vb_pos_offs(1) [OF wf that] by (simp add: offs_def)
  have drop1: "drop ?hdr s1 = concat ?xs" using vb_pos_offs(2) [OF wf, of 0] by (simp add: s1_def)
  have cat: "concat ?xs = concat (take c ?xs) @ ?xs ! c @ concat (drop (Suc c) ?xs)"
    "concat ?new = concat (take c ?xs) @ v @ concat (drop (Suc c) ?xs)"
    using arg_cong [OF id_take_nth_drop [of c ?xs], of concat] upd_conv_take_nth_drop [of c ?xs v] c len by simp_all
  have a: "length (concat (take c ?xs)) = vb_pos b ! c - ?hdr" using vb_pos_offs(1) [OF wf, of c] c by (simp add: offs_def)
  have "drop ?hdr s2 = take (vb_pos b ! c - ?hdr) (drop ?hdr s1) @ v @ drop (vb_pos b ! c + length v - ?hdr) (drop ?hdr s1)"
    using pc len by (simp add: s2_def drop_take min_def)
  also have "\<dots> = concat ?new" unfolding drop1 cat using a xc pc(3) by simp
  finally have d2: "drop ?hdr (take (offs ?hdr ?new (length ?new)) s2) = concat ?new" using off [of ?n] len pc by (simp add: s2_def)
  have "?hdr < 2 ^ 16" using wf vb_wf_pos [OF wf, of 0 ?n] by (simp add: vb_wf_def)
  then have "?n < 2 ^ 16" by (simp add: offset_size_def)
  then have n: "offset_of (length ?new) = ?n" using len by (simp add: offset_of_def)
  have pos: "vb_pos b ! i = offset_of (offs ?hdr ?new i)" if "i \<le> length ?new" for i
    using that off [of i] len vb_wf_pos(2) [OF wf, of i i] by (simp add: offset_of_def)
  have o: "offs ?hdr ?new (length ?new) = vb_pos b ! ?n" "vb_pos b ! ?n < 2 ^ 16" "length (vb_pos b) = Suc (length ?new)"
    using off [of ?n] len wf by (simp_all add: vb_wf_def)
  have "length s2 = vb_pos b ! ?n" using pc len by (simp add: s2_def)
  then have l: "offs ?hdr ?new (length ?new) \<le> length s2" "offs ?hdr ?new (length ?new) < 2 ^ 16" using o by simp_all
  have h: "?hdr = bagdata_size + length ?new * offset_size" using len by simp
  have pos': "\<forall>i \<le> length ?new. vb_pos b ! i = offset_of (offs ?hdr ?new i)" using pos by blast
  note built_row [OF o(3) pos' h d2 l, of ts]
  then show ?thesis using one two unfolding n by simp
qed

text \<open>The size computed for the new row is the size its columns need.\<close>

lemma update_size_wf:
  assumes "vb_wf b" "changes_ok cs"
  shows "update_size b cs (vb_size b) (vb_ncol b) =
    (kvtimestamp_size + bagdata_size + vb_ncol b * offset_size + cols_bytes (cols_update cs (vb_cols b)), length (cols_update cs (vb_cols b)))"
proof -
  have "vb_pos b ! 0 \<le> vb_pos b ! vb_ncol b" using vb_wf_pos(1) [OF assms(1)] by simp
  then have sz: "vb_size b = kvtimestamp_size + bagdata_size + vb_ncol b * offset_size + cols_bytes (vb_cols b)"
    using vb_cols_bytes [OF assms(1)] assms(1) by (simp add: vb_size_def vb_wf_def)
  have "\<forall>(c, v) \<in> set cs. if c < vb_ncol b then c < length (vb_cols b) \<and> length (vb_cols b ! c) = column_length b c else length (vb_cols b) \<le> c"
    using vb_col_length [OF assms(1)] by (auto simp: vb_cols_simps)
  moreover have "cols_bytes (vb_cols b) \<le> vb_size b" "vb_ncol b \<le> length (vb_cols b)" "vb_ncol b = length (vb_cols b)"
    using sz by (simp_all add: vb_cols_simps)
  ultimately have "update_size b cs (vb_size b) (vb_ncol b)
      = (vb_size b + cols_bytes (cols_update cs (vb_cols b)) - cols_bytes (vb_cols b), length (cols_update cs (vb_cols b)))"
    by (rule update_size_spec [OF assms(2)])
  then show ?thesis unfolding sz by simp
qed


lemma vb_empty_wf: "vb_wf vb_empty" "vb_cols vb_empty = []"
  by (simp_all add: vb_wf_def vb_empty_def bagdata_size_def vb_cols_def)

text \<open>
  The 16-bit offsets of a row made from one string.  The stored column is the string
  cut to its length modulo \<open>2 ^ 16\<close>, and the size that \<open>deallocate\<close> reads back wraps too,
  while \<open>create1\<close> allocates the full size: a string of 65536 bytes is stored as the empty one.
\<close>

theorem vb_create1_wraps:
  "\<exists>b. vb_create1 fresh str ts = Some b \<and> vb_col b 0 = take (length str mod 2 ^ 16) str
     \<and> vb_size b = 8 + (length str + 6) mod 2 ^ 16 \<and> length (vb_s b) = length str + 6"
proof -
  let ?s = "map fresh [0..<6] @ str"
  let ?b = "\<lparr>vb_ts = ts, vb_ncol = 1, vb_pos = [6, offset_of (6 + length str)], vb_s = ?s\<rparr>"
  have "splice 6 str (map fresh [0..<6 + length str]) = Some ?s" by (simp add: splice_def take_map)
  then have mk: "vb_create1 fresh str ts = Some ?b"
    by (simp add: vb_create1_def bagdata_size_def offset_size_def offset_of_def)
  have "offset_of (offset_of (6 + length str) + 2 ^ 16 - 6) = offset_of (offset_of (6 + length str) + (2 ^ 16 - 6))" by (simp add: ac_simps)
  also have "\<dots> = offset_of (6 + length str + (2 ^ 16 - 6))" unfolding offset_of_def by (rule mod_add_left_eq)
  also have "\<dots> = offset_of (length str + 2 ^ 16)" by (simp add: ac_simps)
  also have "\<dots> = length str mod 2 ^ 16" unfolding offset_of_def by (rule mod_add_self2)
  finally have "column_length ?b 0 = length str mod 2 ^ 16" by (simp add: column_length_def)
  then have "vb_col ?b 0 = take (length str mod 2 ^ 16) str" by (simp add: vb_col_def)
  moreover have "vb_size ?b = 8 + (length str + 6) mod 2 ^ 16" by (simp add: vb_size_def kvtimestamp_size_def offset_of_def add.commute)
  ultimately show ?thesis using mk by (intro exI [of _ ?b]) simp
qed

section \<open>Parts of strings\<close>

lemma make_index_parts:
  assumes "off < 2 ^ 16" "len < 2 ^ 16"
  shows "index_offset (make_index off len) = off" "index_length (make_index off len) = len"
proof -
  have b: "unat off < 2 ^ 16" "unat len < 2 ^ 16" using assms by (simp_all add: word_less_nat_alt)
  have "unat (push_bit 16 len) = unat len * 2 ^ 16" using b(2) by (simp add: push_bit_eq_mult unat_mult_lem [THEN iffD1])
  then have u: "unat (make_index off len) = unat off + unat len * 2 ^ 16"
    using b unfolding make_index_def by (subst unat_add_lem [THEN iffD1]) simp_all
  have "(0xFFFF :: u32) = mask 16" by (simp add: mask_eq_exp_minus_1)
  then have "index_offset w = take_bit 16 w" for w :: u32 by (simp only: index_offset_def take_bit_eq_mask)
  then have "unat (index_offset w) = unat w mod 2 ^ 16" for w :: u32 by (simp add: take_bit_eq_mod unat_mod)
  moreover have "unat (index_length w) = unat w div 2 ^ 16" for w :: u32
    by (simp add: index_length_def drop_bit_eq_div unat_div)
  ultimately have "unat (index_offset (make_index off len)) = unat off" "unat (index_length (make_index off len)) = unat len"
    using b by (simp_all only: u) simp_all
  then show "index_offset (make_index off len) = off" "index_length (make_index off len) = len" by (simp_all only: word_unat_eq_iff)
qed

text \<open>
  Replacing a part of a string.  An update by one change writes within its storage and
  gives the new string for index 0; for another index it gives the old string with the
  part replaced, where a gap behind the old string keeps whatever the new storage held.
\<close>

lemma vs_update_one:
  "\<exists>row. vs_update fresh beyond [(idx, val)] ts v = Some row \<and> vs_ts row = ts \<and> vs_s row =
     (if idx = 0 then val
      else let off = unat (index_offset idx)
           in take off (vs_s v @ map fresh [length (vs_s v)..<off]) @ val @ drop (off + length val) (vs_s v))"
proof (cases "idx = 0")
  case True
  then show ?thesis by (simp add: vs_update_def index_offset_def splice_def)
next
  case False
  let ?off = "unat (index_offset idx)" and ?n = "length (vs_s v)"
  let ?row = "vs_s v @ map fresh [?n..<max (?off + length val) ?n]"
  have "splice 0 (vs_s v) (map fresh [0..<max (?off + length val) ?n]) = Some ?row"
    by (simp add: splice_def drop_map)
  moreover have "splice ?off val ?row = Some (take ?off ?row @ val @ drop (?off + length val) ?row)" by (simp add: splice_def)
  moreover have "take ?off ?row = take ?off (vs_s v @ map fresh [?n..<?off])" by (cases "?off \<le> ?n") (simp_all add: take_map min_def max_def)
  moreover have "drop (?off + length val) ?row = drop (?off + length val) (vs_s v)" by (simp add: max_def drop_map)
  ultimately show ?thesis using False by (simp add: vs_update_def Let_def)
qed

text \<open>
  C22.  Reading back the part that was written.  For a part that starts within the string the
  update keeps all bytes before and behind it, and reading the same index gives the bytes
  written, although offset and length share one 32-bit index.
\<close>

theorem vs_update_part:
  assumes "off < 2 ^ 16" "length val < 2 ^ 16" "idx = make_index off (of_nat (length val))" "idx \<noteq> 0" "unat off \<le> length (vs_s v)"
  shows "\<exists>row. vs_update fresh beyond [(idx, val)] ts v = Some row \<and> vs_col idx row = val
    \<and> vs_s row = take (unat off) (vs_s v) @ val @ drop (unat off + length val) (vs_s v)"
proof -
  have "unat (of_nat (length val) :: u32) = length val" using assms(2) by (simp add: unat_of_nat take_bit_nat_eq_self)
  moreover have "(of_nat (length val) :: u32) < 2 ^ 16" using assms(2) calculation by (simp add: word_less_nat_alt)
  ultimately have i: "index_offset idx = off" "unat (index_length idx) = length val"
    using make_index_parts [OF assms(1)] assms(3) by simp_all
  obtain row where row: "vs_update fresh beyond [(idx, val)] ts v = Some row"
     "vs_s row = take (unat off) (vs_s v) @ val @ drop (unat off + length val) (vs_s v)"
    using vs_update_one [of fresh beyond idx val ts v] assms(4,5) i by (auto simp: Let_def)
  then show ?thesis using assms(4,5) i by (auto simp: vs_col_def Let_def min_def)
qed

section \<open>Sharing of columns\<close>

definition va_ok :: "columns \<Rightarrow> varray \<Rightarrow> bool" where
  "va_ok m r \<longleftrightarrow> (\<forall>p \<in> set (va_cols r). p \<noteq> 0 \<longrightarrow> m p \<noteq> None)"

definition fresh_columns :: "columns \<Rightarrow> changes \<Rightarrow> u64 list \<Rightarrow> bool" where
  "fresh_columns m cs as \<longleftrightarrow> length as = length cs \<and> distinct as \<and> 0 \<notin> set as \<and> (\<forall>a \<in> set as. m a = None)"

lemma va_set_columns_spec:
  assumes "changes_ok cs" "\<forall>(c, v) \<in> set cs. c < length ps" "fresh_columns m cs as"
    "\<forall>p \<in> set ps. p \<noteq> 0 \<longrightarrow> m p \<noteq> None"
  shows "\<exists>ps' m'. va_set_columns cs as ps m = Some (ps', m') \<and> length ps' = length ps
    \<and> (\<forall>a. m a \<noteq> None \<longrightarrow> m' a = m a)
    \<and> (\<forall>i < length ps. i \<notin> fst ` set cs \<longrightarrow> ps' ! i = ps ! i)
    \<and> (\<forall>(c, v) \<in> set cs. if v = [] then ps' ! c = 0 else ps' ! c \<in> set as \<and> m' (ps' ! c) = Some v)"
  using assms
proof (induction cs arbitrary: as ps m)
  case Nil
  then show ?case by simp
next
  case (Cons cv cs)
  obtain c v where cv: "cv = (c, v)" by fastforce
  obtain a as' where as: "as = a # as'" using Cons(4) by (cases as) (auto simp: fresh_columns_def)
  let ?p = "fst (make_column v a m)" and ?m1 = "snd (make_column v a m)"
  have c: "c < length ps" "c \<notin> fst ` set cs" "changes_ok cs" using Cons(2,3) cv by (auto simp: changes_ok_def)
  have fr: "a \<noteq> 0" "m a = None" "fresh_columns ?m1 cs as'" "a \<notin> set as'"
    using Cons(4) as by (auto simp: fresh_columns_def make_column_def)
  have ok: "\<forall>p \<in> set (ps[c := ?p]). p \<noteq> 0 \<longrightarrow> ?m1 p \<noteq> None"
    using Cons(5) set_update_subset_insert [of ps c ?p] by (fastforce simp: make_column_def)
  obtain ps' m' where ih: "va_set_columns cs as' (ps[c := ?p]) ?m1 = Some (ps', m')" "length ps' = length ps"
     "\<forall>x. ?m1 x \<noteq> None \<longrightarrow> m' x = ?m1 x" "\<forall>i < length ps. i \<notin> fst ` set cs \<longrightarrow> ps' ! i = ps[c := ?p] ! i"
     "\<forall>(c, v) \<in> set cs. if v = [] then ps' ! c = 0 else ps' ! c \<in> set as' \<and> m' (ps' ! c) = Some v"
    using Cons(1) [OF c(3) _ fr(3) ok] Cons(3) by auto
  have "va_set_columns (cv # cs) as ps m = Some (ps', m')" using ih(1) c(1) cv as by (simp add: split_beta)
  moreover have "m' x = m x" if "m x \<noteq> None" for x using ih(3) [rule_format, of x] that fr(2) by (auto simp: make_column_def split: if_splits)
  moreover have "if v = [] then ps' ! c = 0 else ps' ! c = a \<and> m' a = Some v"
    using ih(3,4) c(1,2) by (auto simp: make_column_def)
  ultimately show ?case using ih c cv as by (auto split: if_splits)
qed

lemma cols_update_length: "changes_ok cs \<Longrightarrow> cs \<noteq> [] \<Longrightarrow> length (cols_update cs xs) = max (length xs) (Suc (fst (last cs)))"
proof (induction cs arbitrary: xs)
  case (Cons cv cs)
  obtain c v where cv: "cv = (c, v)" by fastforce
  show ?case
  proof (cases "cs = []")
    case True
    then show ?thesis by (simp add: cols_update_def cv set_column_nth)
  next
    case False
    then have "c < fst (last cs)" "changes_ok cs" using Cons(2) cv by (auto simp: changes_ok_def)
    then show ?thesis using Cons(1) [of "set_column (c, v) xs"] False by (simp add: cols_update_Cons cv set_column_nth)
  qed
qed simp

lemma changes_last: "changes_ok cs \<Longrightarrow> (c, v) \<in> set cs \<Longrightarrow> c \<le> fst (last cs)"
proof (induction cs)
  case (Cons cv cs)
  show ?case
  proof (cases "cs = []")
    case False
    then have "fst cv < fst (last cs)" "changes_ok cs" using Cons(2) by (simp_all add: changes_ok_def)
    then show ?thesis using Cons(1,3) False by fastforce
  qed (use Cons(3) in auto)
qed simp

lemma retired_columns:
  "changes_ok cs \<Longrightarrow> set (va_deallocate_rcu_after_update cs r)
     = {p. p \<noteq> 0 \<and> (\<exists>c \<in> fst ` set cs. c < length (va_cols r) \<and> va_cols r ! c = p)}"
proof (induction cs)
  case (Cons cv cs)
  obtain c v where cv: "cv = (c, v)" by fastforce
  have ok: "changes_ok cs" "\<forall>d \<in> fst ` set cs. c < d" using Cons(2) cv by (auto simp: changes_ok_def)
  show ?case using Cons(1) [OF ok(1)] ok(2) cv by (cases "c < length (va_cols r)") fastforce+
qed simp

lemma distinct_filter_nth:
  "distinct (filter P xs) \<Longrightarrow> i < length xs \<Longrightarrow> j < length xs \<Longrightarrow> P (xs ! i) \<Longrightarrow> xs ! i = xs ! j \<Longrightarrow> i = j"
proof (induction xs arbitrary: i j)
  case (Cons x xs)
  then show ?case by (cases i; cases j) (auto split: if_splits)
qed simp


section \<open>Rows tried out\<close>


theorem vs_update_part_witness:
  "\<exists>row. vs_update (\<lambda>i. 0) (\<lambda>i. 0) [(make_index 1 1, [9])] 5 \<lparr>vs_ts = 4, vs_s = [1, 2, 3]\<rparr> = Some row
     \<and> vs_s row = [1, 9, 3] \<and> vs_col (make_index 1 1) row = [9]"
  using vs_update_part [of 1 "[9]" "make_index 1 1" "\<lparr>vs_ts = 4, vs_s = [1, 2, 3]\<rparr>" "\<lambda>i. 0" "\<lambda>i. 0" 5]
  by (auto simp: make_index_def)


end
