(* ===== verification/Json_Value.thy ===== *)
theory Json_Value
  imports String_Slice "HOL-Library.Monad_Syntax"
begin

text \<open>
  JSON values (\<open>json.hh\<close>, \<open>json.cc\<close>): the tagged union of \<open>Json\<close> as a datatype, the tests and
  conversions the program uses, and pointers into a value.  A signed and an unsigned integer
  are the 64-bit word of the union under two tags, a double is its bit pattern.  An array is
  the list of its elements; an object lists its members in the order of their insertion, as
  \<open>ObjectJson\<close> stores and iterates them.  Numbers are read and written in network byte
  order by the functions of \<open>compiler.hh\<close>.
\<close>

section \<open>Values\<close>

datatype json =
    JNull
  | JBool bool
  | JInt u64
  | JUnsigned u64
  | JDouble u64
  | JString bytes
  | JArray "json list"
  | JObject "(bytes \<times> json) list"

fun is_i :: "json \<Rightarrow> bool" where
  "is_i (JInt x) = True"
| "is_i (JUnsigned x) = True"
| "is_i _ = False"

fun is_s :: "json \<Rightarrow> bool" where
  "is_s (JString s) = True"
| "is_s _ = False"

fun is_a :: "json \<Rightarrow> bool" where
  "is_a (JArray xs) = True"
| "is_a _ = False"

fun is_o :: "json \<Rightarrow> bool" where
  "is_o (JObject ms) = True"
| "is_o _ = False"

text \<open>Decimal numbers as \<open>sprintf\<close> prints them.\<close>

fun decimal :: "nat \<Rightarrow> bytes" where
  "decimal n = (if n < 10 then [of_nat (48 + n)] else decimal (n div 10) @ [of_nat (48 + n mod 10)])"

declare decimal.simps [simp del]

definition string_of_signed :: "u64 \<Rightarrow> bytes" where
  "string_of_signed x = (if sint x < 0 then 45 # decimal (nat (- sint x)) else decimal (unat x))"

definition string_of_unsigned :: "u64 \<Rightarrow> bytes" where
  "string_of_unsigned x = decimal (unat x)"

text \<open>The conversion of a key to a string; other values are not used as keys.\<close>

fun key_to_s :: "json \<Rightarrow> bytes option" where
  "key_to_s (JString s) = Some s"
| "key_to_s (JInt x) = Some (string_of_signed x)"
| "key_to_s (JUnsigned x) = Some (string_of_unsigned x)"
| "key_to_s _ = None"

text \<open>\<open>resize\<close>, and \<open>at_insert(0)\<close>, which extends an empty array.\<close>

definition array_resize :: "int \<Rightarrow> json list \<Rightarrow> json list" where
  "array_resize n xs = take (nat n) xs @ replicate (nat n - length xs) JNull"

definition array_insert0 :: "json list \<Rightarrow> json list" where
  "array_insert0 xs = (if xs = [] then [JNull] else xs)"

text \<open>\<open>get_insert\<close> of an object: the position of the member, appended as null when it is new.\<close>

fun object_find :: "bytes \<Rightarrow> (bytes \<times> json) list \<Rightarrow> nat" where
  "object_find k [] = 0"
| "object_find k (m # ms) = (if fst m = k then 0 else Suc (object_find k ms))"

definition object_get_insert :: "bytes \<Rightarrow> (bytes \<times> json) list \<Rightarrow> nat \<times> (bytes \<times> json) list" where
  "object_get_insert k ms =
     (let i = object_find k ms in (i, if i < length ms then ms else ms @ [(k, JNull)]))"

section \<open>Pointers into a value\<close>

text \<open>A pointer is the path of positions, of elements or of members, that leads to its target.\<close>

fun json_at :: "nat list \<Rightarrow> json \<Rightarrow> json option" where
  "json_at [] j = Some j"
| "json_at (i # p) (JArray xs) = (if i < length xs then json_at p (xs ! i) else None)"
| "json_at (i # p) (JObject ms) = (if i < length ms then json_at p (snd (ms ! i)) else None)"
| "json_at (i # p) _ = None"

fun json_put :: "nat list \<Rightarrow> json \<Rightarrow> json \<Rightarrow> json option" where
  "json_put [] v j = Some v"
| "json_put (i # p) v (JArray xs) =
     (if i < length xs then do { x \<leftarrow> json_put p v (xs ! i); Some (JArray (xs[i := x])) } else None)"
| "json_put (i # p) v (JObject ms) =
     (if i < length ms then do { x \<leftarrow> json_put p v (snd (ms ! i)); Some (JObject (ms[i := (fst (ms ! i), x)])) } else None)"
| "json_put (i # p) v _ = None"

lemma json_put_exists: "json_at p j = Some x \<Longrightarrow> \<exists>j'. json_put p v j = Some j'"
  by (induction p j rule: json_at.induct) (auto split: if_splits)

lemma json_at_put: "json_put p v j = Some j' \<Longrightarrow> json_at p j' = Some v"
  by (induction p v j arbitrary: j' rule: json_put.induct) (auto split: if_splits bind_splits)

lemma json_put_put: "json_put p v j = Some j' \<Longrightarrow> json_put p w j' = json_put p w j"
  by (induction p v j arbitrary: j' rule: json_put.induct) (auto split: if_splits bind_splits)

lemma json_put_elem:
  "json_at p j = Some (JArray xs) \<Longrightarrow> i < length xs \<Longrightarrow> json_put (p @ [i]) v j = json_put p (JArray (xs[i := v])) j"
  by (induction p j rule: json_at.induct) (auto split: if_splits)

lemma json_put_member:
  "json_at p j = Some (JObject ms) \<Longrightarrow> i < length ms
   \<Longrightarrow> json_put (p @ [i]) v j = json_put p (JObject (ms[i := (fst (ms ! i), v)])) j"
  by (induction p j rule: json_at.induct) (auto split: if_splits)

lemma json_at_append: "json_at (p @ q) j = do { x \<leftarrow> json_at p j; json_at q x }"
  by (induction p j rule: json_at.induct) auto

section \<open>Network byte order\<close>

definition write_in_net_order :: "nat \<Rightarrow> nat \<Rightarrow> bytes" where
  "write_in_net_order k x = rev (map (\<lambda>i. of_nat (x div 256 ^ i)) [0..<k])"

definition read_in_net_order :: "bytes \<Rightarrow> nat" where
  "read_in_net_order bs = le_nat (rev bs)"

lemma length_write_in_net_order [simp]: "length (write_in_net_order k x) = k"
  by (simp add: write_in_net_order_def)

lemma le_nat_digits: "le_nat (map (\<lambda>i. of_nat (x div 256 ^ i)) [0..<k]) = x mod 256 ^ k"
proof (induction k arbitrary: x)
  case (Suc k)
  have split: "[0..<Suc k] = 0 # map Suc [0..<k]" by (simp add: upt_conv_Cons map_Suc_upt del: upt_Suc)
  have "le_nat (map (\<lambda>i. of_nat (x div 256 ^ i)) [0..<Suc k])
      = x mod 256 + 256 * le_nat (map (\<lambda>i. of_nat (x div 256 div 256 ^ i)) [0..<k])"
    unfolding split by (simp add: comp_def div_mult2_eq unat_of_nat take_bit_eq_mod)
  also have "\<dots> = x mod 256 ^ Suc k" by (simp add: Suc mod_mult2_eq)
  finally show ?case .
qed simp

lemma read_write_in_net_order [simp]: "read_in_net_order (write_in_net_order k x) = x mod 256 ^ k"
  by (simp add: read_in_net_order_def write_in_net_order_def le_nat_digits)

end
