(* ===== verification/Msgpack.thy ===== *)
theory Msgpack
  imports Json_Value
begin

text \<open>
  The wire and log format of values (\<open>msgpack.hh\<close>, \<open>msgpack.cc\<close>): the writers, the unparser of
  JSON values, the parser that reads typed values from memory, and the streaming parser that
  is fed a message in arbitrary pieces.  An output buffer is the list of bytes appended; the
  input of a parser is the list of bytes in front of its position, and reading past its end
  gives \<open>None\<close>, as does a failed assertion.
\<close>

section \<open>Formats\<close>

definition ffixmap :: nat where "ffixmap = 0x80"
definition nfixmap :: nat where "nfixmap = 0x10"
definition ffixarray :: nat where "ffixarray = 0x90"
definition nfixarray :: nat where "nfixarray = 0x10"
definition ffixstr :: nat where "ffixstr = 0xA0"
definition nfixstr :: nat where "nfixstr = 0x20"
definition fnull :: nat where "fnull = 0xC0"
definition ffalse :: nat where "ffalse = 0xC2"
definition fbin8 :: nat where "fbin8 = 0xC4"
definition fbin16 :: nat where "fbin16 = 0xC5"
definition fbin32 :: nat where "fbin32 = 0xC6"
definition ffloat32 :: nat where "ffloat32 = 0xCA"
definition ffloat64 :: nat where "ffloat64 = 0xCB"
definition fuint8 :: nat where "fuint8 = 0xCC"
definition fuint16 :: nat where "fuint16 = 0xCD"
definition fuint32 :: nat where "fuint32 = 0xCE"
definition fuint64 :: nat where "fuint64 = 0xCF"
definition fint8 :: nat where "fint8 = 0xD0"
definition fint16 :: nat where "fint16 = 0xD1"
definition fint32 :: nat where "fint32 = 0xD2"
definition fint64 :: nat where "fint64 = 0xD3"
definition fstr8 :: nat where "fstr8 = 0xD9"
definition fstr16 :: nat where "fstr16 = 0xDA"
definition fstr32 :: nat where "fstr32 = 0xDB"
definition farray16 :: nat where "farray16 = 0xDC"
definition farray32 :: nat where "farray32 = 0xDD"
definition fmap16 :: nat where "fmap16 = 0xDE"
definition fmap32 :: nat where "fmap32 = 0xDF"
definition nfixuint :: nat where "nfixuint = 0x80"
definition nfixnegint :: nat where "nfixnegint = 0x20"
definition nfixint :: nat where "nfixint = nfixuint + nfixnegint"

lemmas formats =
  ffixmap_def nfixmap_def ffixarray_def nfixarray_def ffixstr_def nfixstr_def fnull_def ffalse_def
  fbin8_def fbin16_def fbin32_def ffloat32_def ffloat64_def fuint8_def fuint16_def fuint32_def
  fuint64_def fint8_def fint16_def fint32_def fint64_def fstr8_def fstr16_def fstr32_def
  farray16_def farray32_def fmap16_def fmap32_def nfixuint_def nfixnegint_def nfixint_def

text \<open>The range tests subtract in 32-bit arithmetic.\<close>

definition in_range :: "u8 \<Rightarrow> u32 \<Rightarrow> u32 \<Rightarrow> bool" where
  "in_range x low n \<longleftrightarrow> ucast x - low < n"

definition in_wrapped_range :: "u8 \<Rightarrow> u32 \<Rightarrow> u32 \<Rightarrow> bool" where
  "in_wrapped_range x low n \<longleftrightarrow> scast x - low < n"

definition is_fixint :: "u8 \<Rightarrow> bool" where
  "is_fixint x = in_wrapped_range x (- of_nat nfixnegint) (of_nat nfixint)"

definition is_null_or_bool :: "u8 \<Rightarrow> bool" where
  "is_null_or_bool x = in_range x (of_nat fnull) 4"

definition is_bool :: "u8 \<Rightarrow> bool" where
  "is_bool x = in_range x (of_nat ffalse) 2"

definition is_fixstr :: "u8 \<Rightarrow> bool" where
  "is_fixstr x = in_range x (of_nat ffixstr) (of_nat nfixstr)"

definition is_fixarray :: "u8 \<Rightarrow> bool" where
  "is_fixarray x = in_range x (of_nat ffixarray) (of_nat nfixarray)"

definition is_fixmap :: "u8 \<Rightarrow> bool" where
  "is_fixmap x = in_range x (of_nat ffixmap) (of_nat nfixmap)"

section \<open>Writers\<close>

definition write_unsigned4 :: "u32 \<Rightarrow> bytes" where
  "write_unsigned4 x =
     (if x < of_nat nfixuint then [ucast x]
      else if x < 256 then [of_nat fuint8, ucast x]
      else if x < 65536 then of_nat fuint16 # write_in_net_order 2 (unat x)
      else of_nat fuint32 # write_in_net_order 4 (unat x))"

definition write_signed4 :: "u32 \<Rightarrow> bytes" where
  "write_signed4 x =
     (if x + of_nat nfixnegint < of_nat nfixint then [ucast x]
      else if x + 128 < 256 then [of_nat fint8, ucast x]
      else if x + 32768 < 65536 then of_nat fint16 # write_in_net_order 2 (unat x)
      else of_nat fint32 # write_in_net_order 4 (unat x))"

definition write_unsigned8 :: "u64 \<Rightarrow> bytes" where
  "write_unsigned8 x =
     (if x < 4294967296 then write_unsigned4 (ucast x) else of_nat fuint64 # write_in_net_order 8 (unat x))"

definition write_signed8 :: "u64 \<Rightarrow> bytes" where
  "write_signed8 x =
     (if x + 2147483648 < 4294967296 then write_signed4 (ucast x) else of_nat fint64 # write_in_net_order 8 (unat x))"

definition write_double :: "u64 \<Rightarrow> bytes" where
  "write_double x = of_nat ffloat64 # write_in_net_order 8 (unat x)"

definition string_header :: "nat \<Rightarrow> bytes" where
  "string_header len =
     (if len < nfixstr then [of_nat (0xA0 + len)]
      else if len < 256 then [of_nat fstr8, of_nat len]
      else if len < 65536 then of_nat fstr16 # write_in_net_order 2 len
      else of_nat fstr32 # write_in_net_order 4 len)"

definition write_string :: "bytes \<Rightarrow> bytes" where
  "write_string s = string_header (length s) @ s"

definition write_array_header :: "nat \<Rightarrow> bytes" where
  "write_array_header sz =
     (if sz < nfixarray then [of_nat (ffixarray + sz)]
      else if sz < 65536 then of_nat farray16 # write_in_net_order 2 sz
      else of_nat farray32 # write_in_net_order 4 sz)"

definition write_map_header :: "nat \<Rightarrow> bytes" where
  "write_map_header sz =
     (if sz < nfixmap then [of_nat (ffixmap + sz)]
      else if sz < 65536 then of_nat fmap16 # write_in_net_order 2 sz
      else of_nat fmap32 # write_in_net_order 4 sz)"

fun unparse_json :: "json \<Rightarrow> bytes" where
  "unparse_json JNull = [of_nat fnull]"
| "unparse_json (JBool b) = [of_nat (ffalse + of_bool b)]"
| "unparse_json (JUnsigned x) = write_unsigned8 x"
| "unparse_json (JInt x) = write_signed8 x"
| "unparse_json (JDouble x) = write_double x"
| "unparse_json (JString s) = write_string s"
| "unparse_json (JArray xs) = write_array_header (length xs) @ concat (map unparse_json xs)"
| "unparse_json (JObject ms) =
     write_map_header (length ms) @ concat (map (\<lambda>m. write_string (fst m) @ unparse_json (snd m)) ms)"

section \<open>Reading typed values\<close>

text \<open>The bytes of a number behind the format byte.\<close>

definition read_num :: "nat \<Rightarrow> bytes \<Rightarrow> (nat \<times> bytes) option" where
  "read_num k bs = (if length bs < k then None else Some (read_in_net_order (take k bs), drop k bs))"

definition sign_extend :: "nat \<Rightarrow> nat \<Rightarrow> int" where
  "sign_extend k x = signed_take_bit (8 * k - 1) (int x)"

text \<open>\<open>read_int\<close>: the mathematical value of the number read; the variable it is assigned to wraps it.\<close>

definition hard_read_int :: "nat \<Rightarrow> bytes \<Rightarrow> (int \<times> bytes) option" where
  "hard_read_int f bs =
     (if f = fuint8 then map_option (map_prod int id) (read_num 1 bs)
      else if f = fuint16 then map_option (map_prod int id) (read_num 2 bs)
      else if f = fuint32 then map_option (map_prod int id) (read_num 4 bs)
      else if f = fuint64 then map_option (map_prod int id) (read_num 8 bs)
      else if f = fint8 then map_option (map_prod (sign_extend 1) id) (read_num 1 bs)
      else if f = fint16 then map_option (map_prod (sign_extend 2) id) (read_num 2 bs)
      else if f = fint32 then map_option (map_prod (sign_extend 4) id) (read_num 4 bs)
      else if f = fint64 then map_option (map_prod (sign_extend 8) id) (read_num 8 bs)
      else None)"

fun read_int :: "bytes \<Rightarrow> (int \<times> bytes) option" where
  "read_int [] = None"
| "read_int (b # bs) = (if is_fixint b then Some (sint b, bs) else hard_read_int (unat b) bs)"

fun try_read_null :: "bytes \<Rightarrow> (bool \<times> bytes) option" where
  "try_read_null [] = None"
| "try_read_null (b # bs) = Some (if unat b = fnull then (True, bs) else (False, b # bs))"

fun read_bool :: "bytes \<Rightarrow> (bool \<times> bytes) option" where
  "read_bool [] = None"
| "read_bool (b # bs) = (if is_bool b then Some (unat b - ffalse \<noteq> 0, bs) else None)"

fun read_double :: "bytes \<Rightarrow> (u64 \<times> bytes) option" where
  "read_double [] = None"
| "read_double (b # bs) = (if unat b = ffloat64 then map_option (map_prod of_nat id) (read_num 8 bs) else None)"

fun read_str :: "bytes \<Rightarrow> (bytes \<times> bytes) option" where
  "read_str [] = None"
| "read_str (b # bs) =
     do { (len, rest) \<leftarrow>
            (if is_fixstr b then Some (unat b - ffixstr, bs)
             else if unat b = fbin8 \<or> unat b = fstr8 then read_num 1 bs
             else if unat b = fbin16 \<or> unat b = fstr16 then read_num 2 bs
             else if unat b = fbin32 \<or> unat b = fstr32 then read_num 4 bs
             else None);
          if length rest < len then None else Some (take len rest, drop len rest) }"

fun read_array_header :: "bytes \<Rightarrow> (nat \<times> bytes) option" where
  "read_array_header [] = None"
| "read_array_header (b # bs) =
     (if is_fixarray b then Some (unat b - ffixarray, bs)
      else if unat b = farray16 then read_num 2 bs
      else if unat b = farray32 then read_num 4 bs
      else None)"

text \<open>The distance \<open>skip_primitives\<close> moves over one value; it stays in place at a format it does not know.\<close>

fun skip_primitive :: "bytes \<Rightarrow> bytes option" where
  "skip_primitive [] = None"
| "skip_primitive (b # bs) =
     (let f = unat b; skip = \<lambda>n. if length (b # bs) < n then None else Some (drop n (b # bs))
      in if is_fixint b \<or> is_null_or_bool b then skip 1
         else if is_fixstr b then skip (1 + (f - ffixstr))
         else if f = fuint8 \<or> f = fint8 then skip 2
         else if f = fuint16 \<or> f = fint16 then skip 3
         else if f = fuint32 \<or> f = fint32 \<or> f = ffloat32 then skip 5
         else if f = fstr8 \<or> f = fbin8 then do { (n, _) \<leftarrow> read_num 1 bs; skip (2 + n) }
         else if f = fstr16 \<or> f = fbin16 then do { (n, _) \<leftarrow> read_num 2 bs; skip (3 + n) }
         else if f = fstr32 \<or> f = fbin32 then do { (n, _) \<leftarrow> read_num 4 bs; skip (5 + n) }
         else Some (b # bs))"

fun skip_primitives :: "nat \<Rightarrow> bytes \<Rightarrow> bytes option" where
  "skip_primitives 0 bs = Some bs"
| "skip_primitives (Suc n) bs = do { bs' \<leftarrow> skip_primitive bs; skip_primitives n bs' }"

section \<open>The streaming parser\<close>

definition nbytes :: "nat list" where
  "nbytes = [0, 0, 0, 0, 2, 3, 5, 0, 0, 0, 5, 9, 2, 3, 5, 9, 2, 3, 5, 9, 0, 0, 0, 0, 0, 2, 3, 5, 3, 5, 3, 5]"

datatype sp_st = St_final | St_error | St_normal | St_partial | St_string

text \<open>A \<open>Json*\<close> of the parser: null, the key buffer, or a place in the result.\<close>

datatype jptr = Null_ptr | Key_ptr | At "nat list"

record sparser =
  sp_state :: sp_st
  sp_stack :: "(jptr \<times> int) list"
  sp_str :: bytes
  sp_json :: json
  sp_jokey :: json

definition sp_init :: sparser where
  "sp_init = \<lparr>sp_state = St_normal, sp_stack = [], sp_str = [], sp_json = JNull, sp_jokey = JNull\<rparr>"

definition sp_reset :: "sparser \<Rightarrow> sparser" where
  "sp_reset sp = sp\<lparr>sp_state := St_normal, sp_stack := []\<rparr>"

definition sp_done :: "sparser \<Rightarrow> bool" where
  "sp_done sp \<longleftrightarrow> sp_state sp = St_final \<or> sp_state sp = St_error"

definition sp_success :: "sparser \<Rightarrow> bool" where
  "sp_success sp \<longleftrightarrow> sp_state sp = St_final"

text \<open>The pointer on top of a stack, or the one to the result.\<close>

definition stack_jp :: "(jptr \<times> int) list \<Rightarrow> jptr" where
  "stack_jp ss = (case ss of [] \<Rightarrow> At [] | (jp, n) # _ \<Rightarrow> jp)"

fun deref :: "jptr \<Rightarrow> sparser \<Rightarrow> json option" where
  "deref Null_ptr sp = None"
| "deref Key_ptr sp = Some (sp_jokey sp)"
| "deref (At p) sp = json_at p (sp_json sp)"

fun assign :: "jptr \<Rightarrow> json \<Rightarrow> sparser \<Rightarrow> sparser option" where
  "assign Null_ptr v sp = None"
| "assign Key_ptr v sp = Some (sp\<lparr>sp_jokey := v\<rparr>)"
| "assign (At p) v sp = do { j \<leftarrow> json_put p v (sp_json sp); Some (sp\<lparr>sp_json := j\<rparr>) }"

text \<open>\<open>float\<close> to \<open>double\<close>.\<close>

fun top_bit :: "nat \<Rightarrow> nat" where
  "top_bit n = (if n \<le> 1 then 0 else Suc (top_bit (n div 2)))"

definition widen_float :: "nat \<Rightarrow> u64" where
  "widen_float x =
     (let s = x div 2 ^ 31; e = x div 2 ^ 23 mod 256; m = x mod 2 ^ 23
      in of_nat (s * 2 ^ 63 +
           (if e = 255 then 2047 * 2 ^ 52 + (if m = 0 then 0 else 2 ^ 51 + m mod 2 ^ 22 * 2 ^ 29)
            else if e = 0 then
              (if m = 0 then 0 else let k = top_bit m in (k + 874) * 2 ^ 52 + (m - 2 ^ k) * 2 ^ (52 - k))
            else (e + 896) * 2 ^ 52 + m * 2 ^ 29)))"

text \<open>What stands at the front of the input: a complete value, the header of a collection or a string, or too little.\<close>

datatype sp_token =
    Tok_error
  | Tok_partial
  | Tok_value json
  | Tok_array int
  | Tok_map int
  | Tok_raw int

text \<open>A format with a body, behind the format byte; \<open>x\<close> is the number in the body.\<close>

definition body_token :: "nat \<Rightarrow> nat \<Rightarrow> sp_token" where
  "body_token f x =
     (if f = ffloat32 then Tok_value (JDouble (widen_float x))
      else if f = ffloat64 then Tok_value (JDouble (of_nat x))
      else if f = fuint8 \<or> f = fuint16 then Tok_value (JInt (of_nat x))
      else if f = fuint32 \<or> f = fuint64 then Tok_value (JUnsigned (of_nat x))
      else if f = fint8 then Tok_value (JInt (of_int (sign_extend 1 x)))
      else if f = fint16 then Tok_value (JInt (of_int (sign_extend 2 x)))
      else if f = fint32 then Tok_value (JInt (of_int (sign_extend 4 x)))
      else if f = fint64 then Tok_value (JInt (of_int (sign_extend 8 x)))
      else if f = fbin8 \<or> f = fstr8 \<or> f = fbin16 \<or> f = fstr16 \<or> f = fbin32 \<or> f = fstr32 then Tok_raw (sign_extend 4 x)
      else if f = farray16 \<or> f = farray32 then Tok_array (sign_extend 4 x)
      else if f = fmap16 \<or> f = fmap32 then Tok_map (sign_extend 4 x)
      else Tok_error)"

fun token :: "bytes \<Rightarrow> sp_token \<times> bytes" where
  "token [] = (Tok_partial, [])"
| "token (b # bs) =
     (if is_fixint b then (Tok_value (JInt (scast b)), bs)
      else if unat b = fnull then (Tok_value JNull, bs)
      else if is_bool b then (Tok_value (JBool (unat b - ffalse \<noteq> 0)), bs)
      else if is_fixmap b then (Tok_map (int (unat b - ffixmap)), bs)
      else if is_fixarray b then (Tok_array (int (unat b - ffixarray)), bs)
      else if is_fixstr b then (Tok_raw (int (unat b - ffixstr)), bs)
      else let n = nbytes ! (unat b - fnull)
           in if n = 0 then (Tok_error, b # bs)
              else if length (b # bs) < n then (Tok_partial, b # bs)
              else (body_token (unat b) (read_in_net_order (take (n - 1) bs)), drop (n - 1) bs))"

text \<open>
  The code behind the label \<open>next\<close>, which adds the value at \<open>jx\<close>: a key selects the member
  to read, a non-empty collection becomes the top of the stack, and anything else completes
  the collections that have no element left.
\<close>

definition sp_close :: "sparser \<Rightarrow> sparser option" where
  "sp_close sp =
     (case dropWhile (\<lambda>(jp, n). n = 0) (sp_stack sp) of
        [] \<Rightarrow> Some (sp\<lparr>sp_stack := [], sp_state := St_final\<rparr>)
      | (jp, n) # ss \<Rightarrow>
          do { jo \<leftarrow> deref (stack_jp ss) sp;
               jp' \<leftarrow> (if is_a jo then (case jp of At p \<Rightarrow> Some (At (butlast p @ [Suc (last p)])) | _ \<Rightarrow> None) else Some Key_ptr);
               Some (sp\<lparr>sp_stack := (jp', n - 1) # ss\<rparr>) })"

definition sp_key :: "sparser \<Rightarrow> sparser option" where
  "sp_key sp =
     (case key_to_s (sp_jokey sp) of
        None \<Rightarrow> Some (sp\<lparr>sp_state := St_error\<rparr>)
      | Some k \<Rightarrow>
          (case sp_stack sp of
             [] \<Rightarrow> None
           | (jp, n) # ss \<Rightarrow>
               (case stack_jp ss of
                  At p \<Rightarrow>
                    (case json_at p (sp_json sp) of
                       Some (JObject ms) \<Rightarrow>
                         do { let (i, ms') = object_get_insert k ms;
                              sp' \<leftarrow> assign (At p) (JObject ms') sp;
                              Some (sp'\<lparr>sp_stack := (At (p @ [i]), n) # ss\<rparr>) }
                     | _ \<Rightarrow> None)
                | _ \<Rightarrow> None)))"

definition sp_next :: "int \<Rightarrow> sparser \<Rightarrow> sparser option" where
  "sp_next n sp =
     (let jx = stack_jp (sp_stack sp)
      in if jx = Key_ptr then sp_key sp
         else do { v \<leftarrow> deref jx sp;
                   (case (v, jx) of
                      (JArray xs, At p) \<Rightarrow>
                        if n \<noteq> 0 then do { sp' \<leftarrow> assign jx (JArray (array_insert0 xs)) sp;
                                            Some (sp'\<lparr>sp_stack := (At (p @ [0]), n - 1) # sp_stack sp\<rparr>) }
                        else sp_close sp
                    | (JObject ms, _) \<Rightarrow> if n \<noteq> 0 then Some (sp\<lparr>sp_stack := (Key_ptr, n - 1) # sp_stack sp\<rparr>) else sp_close sp
                    | _ \<Rightarrow> sp_close sp) })"

text \<open>Storing a token at the current place, then \<open>next\<close>.\<close>

definition sp_add :: "json \<Rightarrow> int \<Rightarrow> sparser \<Rightarrow> sparser option" where
  "sp_add v n sp = do { sp' \<leftarrow> assign (stack_jp (sp_stack sp)) v sp; sp_next n sp' }"

definition sp_array :: "int \<Rightarrow> sparser \<Rightarrow> json option" where
  "sp_array n sp =
     do { old \<leftarrow> deref (stack_jp (sp_stack sp)) sp;
          Some (JArray (array_resize n (case old of JArray xs \<Rightarrow> xs | _ \<Rightarrow> []))) }"

definition token_add :: "sp_token \<Rightarrow> sparser \<Rightarrow> sparser option" where
  "token_add t sp =
     (case t of
        Tok_value v \<Rightarrow> sp_add v 0 sp
      | Tok_map n \<Rightarrow> sp_add (JObject []) n sp
      | Tok_array n \<Rightarrow> do { v \<leftarrow> sp_array n sp; sp_add v n sp }
      | _ \<Rightarrow> None)"

lemma token_shorter: "token bs = (t, rest) \<Longrightarrow> t \<noteq> Tok_error \<Longrightarrow> t \<noteq> Tok_partial \<Longrightarrow> length rest < length bs"
  by (cases bs) (auto simp: Let_def split: if_splits)

function consume_loop :: "bytes \<Rightarrow> sparser \<Rightarrow> (bytes \<times> sparser) option" where
  "consume_loop bs sp =
     (if bs = [] then Some ([], sp\<lparr>sp_state := St_normal\<rparr>)
      else case token bs of
        (Tok_error, rest) \<Rightarrow> Some (rest, sp\<lparr>sp_state := St_error\<rparr>)
      | (Tok_partial, rest) \<Rightarrow> Some ([], sp\<lparr>sp_str := rest, sp_state := St_partial\<rparr>)
      | (Tok_raw n, rest) \<Rightarrow>
          if n < 0 then None
          else if int (length rest) < n then
            Some ([], sp\<lparr>sp_str := rest, sp_stack := (Null_ptr, n) # sp_stack sp, sp_state := St_string\<rparr>)
          else do { sp' \<leftarrow> sp_add (JString (take (nat n) rest)) 0 sp;
                    if sp_done sp' then Some (drop (nat n) rest, sp') else consume_loop (drop (nat n) rest) sp' }
      | (t, rest) \<Rightarrow>
          do { sp' \<leftarrow> token_add t sp;
               if sp_done sp' then Some (rest, sp') else consume_loop rest sp' })"
  by pat_completeness auto
termination
  by (relation "measure (\<lambda>(bs, sp). length bs)") (auto dest!: token_shorter [OF sym])

declare consume_loop.simps [simp del]

definition consume :: "bytes \<Rightarrow> sparser \<Rightarrow> (bytes \<times> sparser) option" where
  "consume bs sp =
     (if sp_done sp then Some (bs, sp)
      else if sp_state sp = St_normal then consume_loop bs sp
      else
        do { let nneed = (if sp_state sp = St_partial then int (nbytes ! (unat (hd (sp_str sp)) - fnull)) else snd (hd (sp_stack sp)));
             let k = nat (nneed - int (length (sp_str sp)));
             let str' = sp_str sp @ take k bs;
             let rest = drop k bs;
             if int (length str') \<noteq> nneed then Some (rest, sp\<lparr>sp_str := str'\<rparr>)
             else if sp_state sp = St_string then
               do { sp' \<leftarrow> sp_add (JString str') 0 (sp\<lparr>sp_str := str', sp_stack := tl (sp_stack sp), sp_state := St_normal\<rparr>);
                    if sp_done sp' then Some (rest, sp') else consume_loop rest sp' }
             else
               do { (_, sp') \<leftarrow> consume_loop str' (sp\<lparr>sp_str := str', sp_state := St_normal\<rparr>);
                    if sp_state sp' \<noteq> St_normal then Some (rest, sp') else consume_loop rest sp' } })"

text \<open>A caller that passes on its input until it is used up or the parser is done.\<close>

function feed :: "bytes \<Rightarrow> sparser \<Rightarrow> (bytes \<times> sparser) option" where
  "feed bs sp =
     do { (rest, sp') \<leftarrow> consume bs sp;
          if sp_done sp' \<or> rest = [] then Some (rest, sp')
          else if length rest < length bs then feed rest sp'
          else None }"
  by pat_completeness auto
termination by (relation "measure (\<lambda>(bs, sp). length bs)") auto

declare feed.simps [simp del]

definition parse :: "bytes \<Rightarrow> json option" where
  "parse bs = do { (rest, sp) \<leftarrow> consume bs sp_init; Some (if sp_success sp then sp_json sp else JNull) }"

section \<open>Format bytes\<close>

lemma byte_bound: "unat (b :: u8) < 256"
  using unsigned_less [of b, where 'a = nat] by (simp del: unsigned_less)

lemma unat_of_nat_byte: "unat (of_nat n :: u8) = n mod 256"
  by (simp add: unsigned_of_nat take_bit_eq_mod)

lemma unat_ucast_byte: "unat (ucast (b :: u8) :: u32) = unat b"
  using byte_bound [of b] by (simp add: unsigned_ucast_eq take_bit_nat_eq_self)

lemma in_range_iff:
  assumes "l + n \<le> 256"
  shows "in_range x (of_nat l) (of_nat n) \<longleftrightarrow> l \<le> unat x \<and> unat x < l + n"
proof -
  have l: "unat (of_nat l :: u32) = l" "unat (of_nat n :: u32) = n" using assms by (simp_all add: unsigned_of_nat take_bit_nat_eq_self)
  have "unat (ucast x - of_nat l :: u32) = (if l \<le> unat x then unat x - l else unat x + 2 ^ 32 - l)"
    by (simp add: unat_sub_if' unat_ucast_byte l)
  then show ?thesis using assms l byte_bound [of x] unfolding in_range_def word_less_nat_alt by auto
qed

lemma byte_tests:
  "is_null_or_bool b \<longleftrightarrow> 0xC0 \<le> unat b \<and> unat b < 0xC4"
  "is_bool b \<longleftrightarrow> 0xC2 \<le> unat b \<and> unat b < 0xC4"
  "is_fixstr b \<longleftrightarrow> 0xA0 \<le> unat b \<and> unat b < 0xC0"
  "is_fixarray b \<longleftrightarrow> 0x90 \<le> unat b \<and> unat b < 0xA0"
  "is_fixmap b \<longleftrightarrow> 0x80 \<le> unat b \<and> unat b < 0x90"
  using in_range_iff [of "0xC0" 4 b] in_range_iff [of "0xC2" 2 b] in_range_iff [of "0xA0" 32 b] in_range_iff [of "0x90" 16 b] in_range_iff [of "0x80" 16 b]
  by (simp_all add: is_null_or_bool_def is_bool_def is_fixstr_def is_fixarray_def is_fixmap_def formats)

lemma signed_take_bit_nat:
  assumes "n < 2 ^ Suc m"
  shows "signed_take_bit m (int n) = (if n < 2 ^ m then int n else int n - 2 ^ Suc m)"
proof -
  have n: "int n < 2 ^ Suc m" using assms by (metis of_nat_less_iff of_nat_numeral of_nat_power)
  have "(int n + 2 ^ m) mod 2 ^ Suc m = int n - 2 ^ m" if "\<not> n < 2 ^ m"
  proof -
    have "(2 ^ m :: int) \<le> int n" using that by (simp flip: of_nat_le_iff)
    then have "(int n + 2 ^ m - 2 ^ Suc m) mod 2 ^ Suc m = int n - 2 ^ m" using n by (subst mod_pos_pos_trivial) simp_all
    then show ?thesis by (simp only: minus_mod_self2)
  qed
  moreover have "(int n + 2 ^ m) mod 2 ^ Suc m = int n + 2 ^ m" if "n < 2 ^ m"
  proof -
    have "int n < 2 ^ m" using that by (simp flip: of_nat_less_iff)
    then show ?thesis by (subst mod_pos_pos_trivial) simp_all
  qed
  ultimately show ?thesis by (simp add: signed_take_bit_eq_take_bit_shift take_bit_eq_mod)
qed

lemma sint_byte: "sint (b :: u8) = (if unat b < 128 then int (unat b) else int (unat b) - 256)"
  using signed_take_bit_nat [of "unat b" 7] byte_bound [of b] by (simp add: sint_uint)

lemma sign_extend_eq:
  assumes "n < 256 ^ k" "0 < k"
  shows "sign_extend k n = (if 2 * n < 256 ^ k then int n else int n - 256 ^ k)"
proof -
  have k: "(256 :: 'a::comm_semiring_1) ^ k = 2 ^ Suc (8 * k - 1)" using assms(2) power_mult [of "2 :: 'a" 8 k] by simp
  then have "n < 2 ^ Suc (8 * k - 1)" using assms(1) by (simp only: k)
  then show ?thesis unfolding sign_extend_def k by (simp add: signed_take_bit_nat)
qed

lemma is_fixint_iff: "is_fixint b \<longleftrightarrow> unat b < 0x80 \<or> 0xE0 \<le> unat b"
proof -
  have "(scast b + 32 :: u32) = of_int (sint b + 32)" by simp
  then have u: "unat (scast b + 32 :: u32) = nat (take_bit 32 (sint b + 32))"
    by (simp only: unat_eq_nat_uint uint_word_of_int_eq) simp
  obtain n where n: "unat b = n" "n < 256" using byte_bound [of b] by simp
  then have "sint b = (if n < 128 then int n else int n - 256)" using sint_byte [of b] by (simp only: n)
  moreover have "(int n - 224) mod 4294967296 = int n - 224 + 4294967296" if "n < 224"
    by (rule trans [OF mod_add_self2 [symmetric] mod_pos_pos_trivial]) (use that in simp_all)
  ultimately have "take_bit 32 (sint b + 32) = (if n < 128 then int n + 32 else if n < 224 then int n - 224 + 2 ^ 32 else int n - 224)"
    using n(2) by (auto simp: take_bit_eq_mod)
  with u have "unat (scast b + 32 :: u32) = (if n < 128 then n + 32 else if n < 224 then n + 4294967072 else n - 224)"
    by (simp add: nat_add_distrib nat_diff_distrib')
  moreover have "is_fixint b \<longleftrightarrow> unat (scast b + 32 :: u32) < 160"
    by (simp add: is_fixint_def in_wrapped_range_def word_less_nat_alt formats)
  ultimately show ?thesis unfolding n(1) using n(2) by auto
qed

lemma offset_less:
  fixes y :: "'a::len word"
  assumes "int c \<le> 2 ^ (LENGTH('a) - 1)" "int n \<le> int c + 2 ^ (LENGTH('a) - 1)" "n < 2 ^ LENGTH('a)"
  shows "y + of_nat c < of_nat n \<longleftrightarrow> - int c \<le> sint y \<and> sint y < int n - int c"
proof -
  let ?h = "2 ^ (LENGTH('a) - 1) :: int"
  have two: "2 ^ LENGTH('a) = 2 * ?h" by (simp flip: power_Suc)
  have s: "- ?h \<le> sint y" "sint y < ?h" by (simp_all add: sint_greater_eq sint_less)
  have "y + of_nat c = of_int (sint y + int c)" by simp
  then have u: "uint (y + of_nat c) = (sint y + int c) mod (2 * ?h)" by (simp only: uint_word_of_int two)
  have n: "uint (of_nat n :: 'a word) = int n" using assms(3) by (simp add: unsigned_of_nat take_bit_nat_eq_self)
  show ?thesis
  proof (cases "0 \<le> sint y + int c")
    case True
    then have "(sint y + int c) mod (2 * ?h) = sint y + int c" using s(2) assms(1) by (intro mod_pos_pos_trivial) linarith+
    then show ?thesis using True by (simp only: word_less_def u n) linarith
  next
    case False
    then have "(sint y + int c + 2 * ?h) mod (2 * ?h) = sint y + int c + 2 * ?h" using s(1) by (intro mod_pos_pos_trivial) linarith+
    then have "(sint y + int c) mod (2 * ?h) = sint y + int c + 2 * ?h" by simp
    then show ?thesis using False s(1) assms(2) by (simp only: word_less_def u n) linarith
  qed
qed

lemma sign_extend_low:
  fixes y :: "'a::len word"
  assumes "8 * k \<le> LENGTH('a)" "0 < k" "- (2 ^ (8 * k - 1)) \<le> sint y" "sint y < 2 ^ (8 * k - 1)"
  shows "sign_extend k (unat y mod 256 ^ k) = sint y"
proof -
  have k: "(256 :: nat) ^ k = 2 ^ (8 * k)" by (simp add: power_mult)
  have "int (unat y mod 256 ^ k) = take_bit (8 * k) (uint y)" by (simp add: k take_bit_eq_mod of_nat_mod)
  moreover have "take_bit (8 * k) (uint y) = take_bit (8 * k) (sint y)" using assms(1)
    by (simp add: sint_uint take_bit_signed_take_bit)
  ultimately have "sign_extend k (unat y mod 256 ^ k) = signed_take_bit (8 * k - 1) (take_bit (8 * k) (sint y))"
    by (simp add: sign_extend_def)
  also have "\<dots> = signed_take_bit (8 * k - 1) (sint y)" using assms(2) by (subst signed_take_bit_take_bit) auto
  also have "\<dots> = sint y" using assms(3,4) by (simp add: signed_take_bit_int_eq_self_iff)
  finally show ?thesis .
qed

section \<open>What is written is read\<close>

lemma read_num_write [simp]: "read_num k (write_in_net_order k x @ rest) = Some (x mod 256 ^ k, rest)"
  by (simp add: read_num_def)


text \<open>A format: decoding what was encoded gives the value back and leaves the rest of the input.\<close>

locale wire_format =
  fixes encode :: "'a \<Rightarrow> bytes" and decode :: "bytes \<Rightarrow> ('b \<times> bytes) option" and ok :: "'a \<Rightarrow> bool" and view :: "'a \<Rightarrow> 'b"
  assumes decode_encode: "ok x \<Longrightarrow> decode (encode x @ rest) = Some (view x, rest)"
begin

fun decode_n :: "nat \<Rightarrow> bytes \<Rightarrow> ('b list \<times> bytes) option" where
  "decode_n 0 bs = Some ([], bs)"
| "decode_n (Suc n) bs = do { (x, bs1) \<leftarrow> decode bs; (xs, bs2) \<leftarrow> decode_n n bs1; Some (x # xs, bs2) }"

lemma decode_n_encode:
  "(\<And>x. x \<in> set xs \<Longrightarrow> ok x) \<Longrightarrow> decode_n (length xs) (concat (map encode xs) @ rest) = Some (map view xs, rest)"
  by (induction xs) (simp_all add: decode_encode)

lemma encode_prefix_free:
  "ok x \<Longrightarrow> ok y \<Longrightarrow> encode x @ r = encode y @ s \<Longrightarrow> view x = view y \<and> r = s"
  using decode_encode [of x r] decode_encode [of y s] by simp

end

lemma word_conds32:
  "x < of_nat nfixuint \<longleftrightarrow> unat (x :: u32) < 128" "x < 256 \<longleftrightarrow> unat x < 256" "x < 65536 \<longleftrightarrow> unat x < 65536"
  by (simp_all add: word_less_nat_alt formats)

lemma net_byte: "write_in_net_order 1 n = [of_nat n]" "write_in_net_order (Suc 0) n = [of_nat n]"
  by (simp_all add: write_in_net_order_def)

lemma ucast_byte: "(ucast (x :: 'a::len word) :: u8) = of_nat (unat x)"
  by (simp add: word_unat_eq_iff unsigned_ucast_eq unsigned_of_nat)

lemma read_int_format:
  assumes "f \<in> {fuint8, fuint16, fuint32, fuint64, fint8, fint16, fint32, fint64}"
  shows "read_int (of_nat f # bs) = hard_read_int f bs"
proof -
  have "unat (of_nat f :: u8) = f" using assms by (auto simp: unat_of_nat_byte formats)
  then show ?thesis using assms by (auto simp: is_fixint_iff formats)
qed

lemma hard_read_int_simps:
  "hard_read_int fuint8 (of_nat v # rest) = Some (int (v mod 256), rest)"
  "hard_read_int fuint16 (write_in_net_order 2 v @ rest) = Some (int (v mod 256 ^ 2), rest)"
  "hard_read_int fuint32 (write_in_net_order 4 v @ rest) = Some (int (v mod 256 ^ 4), rest)"
  "hard_read_int fuint64 (write_in_net_order 8 v @ rest) = Some (int (v mod 256 ^ 8), rest)"
  "hard_read_int fint8 (of_nat v # rest) = Some (sign_extend 1 (v mod 256), rest)"
  "hard_read_int fint16 (write_in_net_order 2 v @ rest) = Some (sign_extend 2 (v mod 256 ^ 2), rest)"
  "hard_read_int fint32 (write_in_net_order 4 v @ rest) = Some (sign_extend 4 (v mod 256 ^ 4), rest)"
  "hard_read_int fint64 (write_in_net_order 8 v @ rest) = Some (sign_extend 8 (v mod 256 ^ 8), rest)"
  using read_num_write [of 1 v rest]
  by (simp_all add: hard_read_int_def formats net_byte)

lemma unat_bounds: "unat (x :: u32) < 256 ^ 4" "unat (y :: u64) < 256 ^ 8"
  using unsigned_less [of x, where 'a = nat] unsigned_less [of y, where 'a = nat] by (simp_all del: unsigned_less)

lemma fixint_byte: "n < 128 \<Longrightarrow> read_int (of_nat n # rest) = Some (int n, rest)"
  by (simp add: is_fixint_iff sint_byte unat_of_nat_byte)

lemmas read_int_simps = fixint_byte read_int_format hard_read_int_simps
declare read_int.simps [simp del]

lemma write_unsigned4_nat:
  "write_unsigned4 x = (let n = unat x in if n < 128 then [of_nat n] else if n < 256 then [of_nat fuint8, of_nat n]
     else if n < 65536 then of_nat fuint16 # write_in_net_order 2 n else of_nat fuint32 # write_in_net_order 4 n)"
  unfolding write_unsigned4_def word_conds32 ucast_byte Let_def by (rule refl)

lemma read_int_unsigned4: "read_int (write_unsigned4 x @ rest) = Some (int (unat x), rest)"
proof -
  obtain n where n: "unat x = n" "n < 256 ^ 4" using unat_bounds(1) [of x] by simp
  then show ?thesis unfolding write_unsigned4_nat Let_def n(1) by (simp add: read_int_simps)
qed

lemma write_unsigned8_nat:
  "write_unsigned8 x = (if unat x < 2 ^ 32 then write_unsigned4 (ucast x) else of_nat fuint64 # write_in_net_order 8 (unat x))"
  by (simp add: write_unsigned8_def word_less_nat_alt)

lemma unat_ucast32: "unat (x :: u64) < 2 ^ 32 \<Longrightarrow> unat (ucast x :: u32) = unat x"
  by (simp add: unsigned_ucast_eq take_bit_nat_eq_self)

lemma read_int_unsigned8: "read_int (write_unsigned8 x @ rest) = Some (int (unat x), rest)"
proof (cases "unat x < 2 ^ 32")
  case True
  then show ?thesis by (simp only: write_unsigned8_nat read_int_unsigned4 unat_ucast32 if_True)
next
  case False
  obtain n where n: "unat x = n" "n < 256 ^ 8" using unat_bounds(2) [of x] by simp
  then show ?thesis using False unfolding write_unsigned8_nat n(1) by (simp add: read_int_simps)
qed

lemma signed_conds:
  "(y :: u32) + of_nat nfixnegint < of_nat nfixint \<longleftrightarrow> -32 \<le> sint y \<and> sint y < 128"
  "y + 128 < 256 \<longleftrightarrow> -128 \<le> sint y \<and> sint y < 128"
  "y + 32768 < 65536 \<longleftrightarrow> -32768 \<le> sint y \<and> sint y < 32768"
  "(x :: u64) + 2147483648 < 4294967296 \<longleftrightarrow> -2147483648 \<le> sint x \<and> sint x < 2147483648"
  using offset_less [of 32 160 y] offset_less [of 128 256 y] offset_less [of 32768 65536 y] offset_less [of 2147483648 4294967296 x]
  by (simp_all add: formats)

lemma sint_ucast32:
  assumes "-2147483648 \<le> sint (x :: u64)" "sint x < 2147483648"
  shows "sint (ucast x :: u32) = sint x"
proof -
  have "sint (ucast x :: u32) = signed_take_bit 31 (take_bit 32 (uint x))" by (simp add: sint_uint unsigned_ucast_eq)
  also have "\<dots> = signed_take_bit 31 (sint x)" by (simp add: sint_uint signed_take_bit_take_bit)
  finally show ?thesis using assms by (simp add: signed_take_bit_int_eq_self)
qed

lemma sint_low_byte:
  assumes "-128 \<le> sint (y :: u32)" "sint y < 128"
  shows "sint (of_nat (unat y) :: u8) = sint y"
proof -
  have "int (unat (of_nat (unat y) :: u8)) = int (unat y mod 256)" by (simp only: unat_of_nat_byte)
  then show ?thesis using sign_extend_low [of 1 y] assms by (simp add: sint_uint sign_extend_def)
qed

lemma fixint_low_byte: "-32 \<le> sint (y :: u32) \<Longrightarrow> sint y < 128 \<Longrightarrow> is_fixint (of_nat (unat y))"
proof -
  assume y: "-32 \<le> sint y" "sint y < 128"
  obtain n where n: "unat (of_nat (unat y) :: u8) = n" by blast
  have "sint y = (if n < 128 then int n else int n - 256)"
    using sint_low_byte [of y] sint_byte [of "of_nat (unat y)"] y unfolding n by linarith
  then show ?thesis unfolding is_fixint_iff n using y by (auto split: if_splits)
qed

lemma fixint_signed: "-32 \<le> sint (y :: u32) \<Longrightarrow> sint y < 128 \<Longrightarrow> read_int (of_nat (unat y) # rest) = Some (sint y, rest)"
  using sint_low_byte [of y] fixint_low_byte [of y] by (simp add: read_int.simps)

lemma read_int_signed4: "read_int (write_signed4 y @ rest) = Some (sint y, rest)"
proof -
  have "sign_extend 1 (unat y mod 256) = sint y" if "-128 \<le> sint y" "sint y < 128" using sign_extend_low [of 1 y] that by simp
  moreover have "sign_extend 2 (unat y mod 256 ^ 2) = sint y" if "-32768 \<le> sint y" "sint y < 32768" using sign_extend_low [of 2 y] that by simp
  moreover have "sign_extend 4 (unat y mod 256 ^ 4) = sint y" using sign_extend_low [of 4 y] sint_greater_eq [of y] sint_less [of y] by simp
  moreover have b: "(ucast y :: u8) = of_nat (unat y)" by (rule ucast_byte)
  ultimately show ?thesis unfolding write_signed4_def signed_conds
    by (auto simp: read_int_simps fixint_signed b simp del: of_nat_unat)
qed

lemma read_int_signed8: "read_int (write_signed8 x @ rest) = Some (sint x, rest)"
proof (cases "-2147483648 \<le> sint x \<and> sint x < 2147483648")
  case True
  then show ?thesis by (simp only: write_signed8_def signed_conds read_int_signed4 sint_ucast32 if_True simp_thms)
next
  case False
  have "sign_extend 8 (unat x mod 256 ^ 8) = sint x" using sign_extend_low [of 8 x] sint_greater_eq [of x] sint_less [of x] by simp
  then show ?thesis using False unfolding write_signed8_def signed_conds by (auto simp: read_int_simps)
qed

lemma read_str_write_string:
  assumes "length s < 2 ^ 32"
  shows "read_str (write_string s @ rest) = Some (s, rest)"
proof -
  have [simp]: "unat (of_nat f :: u8) = f" if "f < 256" for f using that by (simp add: unat_of_nat_byte)
  have "read_num 1 (of_nat (length s) # s @ rest) = Some (length s, s @ rest)" if "length s < 256"
    using read_num_write [of 1 "length s" "s @ rest"] that by (simp add: net_byte)
  then show ?thesis using assms
    by (simp add: write_string_def string_header_def byte_tests formats del: of_nat_add)
qed

lemma read_array_header_write:
  assumes "n < 2 ^ 32"
  shows "read_array_header (write_array_header n @ rest) = Some (n, rest)"
proof -
  have [simp]: "unat (of_nat f :: u8) = f" if "f < 256" for f using that by (simp add: unat_of_nat_byte)
  show ?thesis using assms by (simp add: write_array_header_def byte_tests formats del: of_nat_add)
qed

interpretation signed_format: wire_format write_signed8 read_int "\<lambda>x. True" sint
  by unfold_locales (rule read_int_signed8)

interpretation unsigned_format: wire_format write_unsigned8 read_int "\<lambda>x. True" "\<lambda>x. int (unat x)"
  by unfold_locales (rule read_int_unsigned8)

interpretation string_format: wire_format write_string read_str "\<lambda>s. length s < 2 ^ 32" id
  by unfold_locales (simp add: read_str_write_string)

interpretation array_format: wire_format write_array_header read_array_header "\<lambda>n. n < 2 ^ 32" id
  by unfold_locales (simp add: read_array_header_write)

end
