(* ===== verification/Msgpack_Stream.thy ===== *)
theory Msgpack_Stream
  imports Msgpack
begin

text \<open>
  The streaming parser of \<open>msgpack.cc\<close> against the unparser: the tokens of each format, the
  round trip of every JSON value, and that the pieces in which an input arrives do not matter.
\<close>

section \<open>Tokens\<close>

lemma unat_of_nat_small: "f < 256 \<Longrightarrow> unat (of_nat f :: u8) = f"
  by (simp add: unat_of_nat_byte)

lemma token_body:
  assumes "nbytes ! (f - 0xC0) = Suc k" "0xC4 \<le> f" "f < 0xE0"
  shows "token (of_nat f # write_in_net_order k v @ rest) = (body_token f (v mod 256 ^ k), rest)"
  using assms by (simp add: byte_tests is_fixint_iff unat_of_nat_small formats del: of_nat_add)

lemma nbytes_formats:
  "nbytes ! 4 = 2" "nbytes ! 5 = 3" "nbytes ! 6 = 5" "nbytes ! 10 = 5" "nbytes ! 11 = 9" "nbytes ! 12 = 2" "nbytes ! 13 = 3"
  "nbytes ! 14 = 5" "nbytes ! 15 = 9" "nbytes ! 16 = 2" "nbytes ! 17 = 3" "nbytes ! 18 = 5" "nbytes ! 19 = 9" "nbytes ! 25 = 2"
  "nbytes ! 26 = 3" "nbytes ! 27 = 5" "nbytes ! 28 = 3" "nbytes ! 29 = 5" "nbytes ! 30 = 3" "nbytes ! 31 = 5"
  by (simp_all add: nbytes_def)

declare token.simps(2) [simp del]

lemma token_body1:
  "nbytes ! (f - 0xC0) = 2 \<Longrightarrow> 0xC4 \<le> f \<Longrightarrow> f < 0xE0 \<Longrightarrow> token (of_nat f # of_nat v # rest) = (body_token f (v mod 256), rest)"
  using token_body [of f 1 v rest] by (simp add: net_byte)

lemma token_formats:
  "token (of_nat ffloat64 # write_in_net_order 8 v @ rest) = (body_token ffloat64 (v mod 256 ^ 8), rest)"
  "token (of_nat fuint16 # write_in_net_order 2 v @ rest) = (body_token fuint16 (v mod 256 ^ 2), rest)"
  "token (of_nat fuint32 # write_in_net_order 4 v @ rest) = (body_token fuint32 (v mod 256 ^ 4), rest)"
  "token (of_nat fuint64 # write_in_net_order 8 v @ rest) = (body_token fuint64 (v mod 256 ^ 8), rest)"
  "token (of_nat fint16 # write_in_net_order 2 v @ rest) = (body_token fint16 (v mod 256 ^ 2), rest)"
  "token (of_nat fint32 # write_in_net_order 4 v @ rest) = (body_token fint32 (v mod 256 ^ 4), rest)"
  "token (of_nat fint64 # write_in_net_order 8 v @ rest) = (body_token fint64 (v mod 256 ^ 8), rest)"
  "token (of_nat fstr16 # write_in_net_order 2 v @ rest) = (body_token fstr16 (v mod 256 ^ 2), rest)"
  "token (of_nat fstr32 # write_in_net_order 4 v @ rest) = (body_token fstr32 (v mod 256 ^ 4), rest)"
  "token (of_nat farray16 # write_in_net_order 2 v @ rest) = (body_token farray16 (v mod 256 ^ 2), rest)"
  "token (of_nat farray32 # write_in_net_order 4 v @ rest) = (body_token farray32 (v mod 256 ^ 4), rest)"
  "token (of_nat fmap16 # write_in_net_order 2 v @ rest) = (body_token fmap16 (v mod 256 ^ 2), rest)"
  "token (of_nat fmap32 # write_in_net_order 4 v @ rest) = (body_token fmap32 (v mod 256 ^ 4), rest)"
  by (rule token_body; simp add: formats nbytes_formats)+

lemma token_formats1:
  "token (of_nat fuint8 # of_nat v # rest) = (body_token fuint8 (v mod 256), rest)"
  "token (of_nat fint8 # of_nat v # rest) = (body_token fint8 (v mod 256), rest)"
  "token (of_nat fstr8 # of_nat v # rest) = (body_token fstr8 (v mod 256), rest)"
  by (rule token_body1; simp add: formats nbytes_formats)+

lemma body_tokens:
  "body_token ffloat64 x = Tok_value (JDouble (of_nat x))"
  "body_token fuint8 x = Tok_value (JInt (of_nat x))" "body_token fuint16 x = Tok_value (JInt (of_nat x))"
  "body_token fuint32 x = Tok_value (JUnsigned (of_nat x))" "body_token fuint64 x = Tok_value (JUnsigned (of_nat x))"
  "body_token fint8 x = Tok_value (JInt (of_int (sign_extend 1 x)))" "body_token fint16 x = Tok_value (JInt (of_int (sign_extend 2 x)))"
  "body_token fint32 x = Tok_value (JInt (of_int (sign_extend 4 x)))" "body_token fint64 x = Tok_value (JInt (of_int (sign_extend 8 x)))"
  "body_token fstr8 x = Tok_raw (sign_extend 4 x)" "body_token fstr16 x = Tok_raw (sign_extend 4 x)" "body_token fstr32 x = Tok_raw (sign_extend 4 x)"
  "body_token farray16 x = Tok_array (sign_extend 4 x)" "body_token farray32 x = Tok_array (sign_extend 4 x)"
  "body_token fmap16 x = Tok_map (sign_extend 4 x)" "body_token fmap32 x = Tok_map (sign_extend 4 x)"
  by (simp_all add: body_token_def formats)

lemma sign_extend_small: "n < 2 ^ 31 \<Longrightarrow> sign_extend 4 n = int n"
  by (simp add: sign_extend_eq)

lemmas token_simps = token_formats token_formats1 body_tokens sign_extend_small

lemma token_headers:
  assumes "n < 2 ^ 31"
  shows "token (string_header n @ rest) = (Tok_raw (int n), rest)"
    and "token (write_array_header n @ rest) = (Tok_array (int n), rest)"
    and "token (write_map_header n @ rest) = (Tok_map (int n), rest)"
proof -
  have fixs: "token (of_nat (0xA0 + n) # rest) = (Tok_raw (int n), rest)" if "n < 32"
    using that by (simp add: token.simps byte_tests is_fixint_iff unat_of_nat_small formats del: of_nat_add)
  have fixa: "token (of_nat (0x90 + n) # rest) = (Tok_array (int n), rest)" if "n < 16"
    using that by (simp add: token.simps byte_tests is_fixint_iff unat_of_nat_small formats del: of_nat_add)
  have fixm: "token (of_nat (0x80 + n) # rest) = (Tok_map (int n), rest)" if "n < 16"
    using that by (simp add: token.simps byte_tests is_fixint_iff unat_of_nat_small formats del: of_nat_add)
  show "token (string_header n @ rest) = (Tok_raw (int n), rest)"
    using assms fixs by (simp add: string_header_def token_simps nfixstr_def del: of_nat_add)
  show "token (write_array_header n @ rest) = (Tok_array (int n), rest)"
    using assms fixa by (simp add: write_array_header_def token_simps nfixarray_def ffixarray_def del: of_nat_add)
  show "token (write_map_header n @ rest) = (Tok_map (int n), rest)"
    using assms fixm by (simp add: write_map_header_def token_simps nfixmap_def ffixmap_def del: of_nat_add)
qed

lemma token_unsigned: "token (write_unsigned8 x @ rest) = (Tok_value (if unat x < 65536 then JInt x else JUnsigned x), rest)"
proof (cases "unat x < 2 ^ 32")
  case True
  obtain n where n: "unat x = n" by blast
  then have x: "x = of_nat n" by auto
  have "unat (ucast x :: u32) = n" using True n unat_ucast32 [of x] by simp
  moreover have "token (of_nat n # rest) = (Tok_value (JInt (of_nat n)), rest)" if "n < 128"
    using that by (simp add: token.simps is_fixint_iff unat_of_nat_small scast_eq sint_byte)
  ultimately show ?thesis using True unfolding write_unsigned8_nat write_unsigned4_nat n
    by (simp add: token_simps flip: x)
next
  case False
  obtain n where n: "unat x = n" "n < 256 ^ 8" using unat_bounds(2) [of x] by simp
  then have x: "x = of_nat n" by auto
  show ?thesis using False n(2) unfolding write_unsigned8_nat n(1) by (simp add: token_simps flip: x)
qed

lemma token_signed4: "token (write_signed4 y @ rest) = (Tok_value (JInt (of_int (sint y))), rest)"
proof -
  have "sign_extend 1 (unat y mod 256) = sint y" if "-128 \<le> sint y" "sint y < 128" using sign_extend_low [of 1 y] that by simp
  moreover have "sign_extend 2 (unat y mod 256 ^ 2) = sint y" if "-32768 \<le> sint y" "sint y < 32768" using sign_extend_low [of 2 y] that by simp
  moreover have "sign_extend 4 (unat y mod 256 ^ 4) = sint y" using sign_extend_low [of 4 y] sint_greater_eq [of y] sint_less [of y] by simp
  moreover have "token (of_nat (unat y) # rest) = (Tok_value (JInt (of_int (sint y))), rest)" if "-32 \<le> sint y" "sint y < 128"
  proof -
    have "(scast (of_nat (unat y) :: u8) :: u64) = of_int (sint y)" using sint_low_byte [of y] that by (simp only: scast_eq sint_low_byte)
    then show ?thesis using fixint_low_byte [OF that] by (simp only: token.simps if_True)
  qed
  ultimately show ?thesis unfolding write_signed4_def signed_conds ucast_byte
    by (auto simp: token_simps simp del: of_nat_unat)
qed

lemma token_signed: "token (write_signed8 x @ rest) = (Tok_value (JInt x), rest)"
proof (cases "-2147483648 \<le> sint x \<and> sint x < 2147483648")
  case True
  then show ?thesis by (simp add: write_signed8_def signed_conds token_signed4 sint_ucast32)
next
  case False
  have "sign_extend 8 (unat x mod 256 ^ 8) = sint x" using sign_extend_low [of 8 x] sint_greater_eq [of x] sint_less [of x] by simp
  then show ?thesis using False unfolding write_signed8_def signed_conds by (auto simp: token_simps)
qed

lemma token_double: "token (write_double x @ rest) = (Tok_value (JDouble x), rest)"
  using unat_bounds(2) [of x] by (simp add: write_double_def token_simps)

lemma token_constants:
  "token (of_nat fnull # rest) = (Tok_value JNull, rest)"
  "token (of_nat (ffalse + of_bool b) # rest) = (Tok_value (JBool b), rest)"
  by (cases b; simp add: token.simps byte_tests is_fixint_iff formats)+

section \<open>Parsing what was unparsed\<close>

text \<open>Small unsigned numbers come back with the tag of signed ones; \<open>operator==\<close> treats them as equal.\<close>

fun canon :: "json \<Rightarrow> json" where
  "canon (JUnsigned x) = (if unat x < 65536 then JInt x else JUnsigned x)"
| "canon (JArray xs) = JArray (map canon xs)"
| "canon (JObject ms) = JObject (map (\<lambda>m. (fst m, canon (snd m))) ms)"
| "canon j = j"

fun json_ok :: "json \<Rightarrow> bool" where
  "json_ok (JString s) \<longleftrightarrow> length s < 2 ^ 31"
| "json_ok (JArray xs) \<longleftrightarrow> length xs < 2 ^ 31 \<and> list_all json_ok xs"
| "json_ok (JObject ms) \<longleftrightarrow> length ms < 2 ^ 31 \<and> distinct (map fst ms)
     \<and> list_all (\<lambda>m. length (fst m) < 2 ^ 31 \<and> json_ok (snd m)) ms"
| "json_ok j \<longleftrightarrow> True"

text \<open>How the parser goes on when the value at its place is complete.\<close>

definition resume :: "bytes \<Rightarrow> sparser \<Rightarrow> (bytes \<times> sparser) option" where
  "resume rest sp = do { sp' \<leftarrow> sp_close sp; if sp_done sp' then Some (rest, sp') else consume_loop rest sp' }"

definition ready :: "nat list \<Rightarrow> sparser \<Rightarrow> bool" where
  "ready p sp \<longleftrightarrow> sp_state sp = St_normal \<and> stack_jp (sp_stack sp) = At p \<and> json_at p (sp_json sp) \<noteq> None"

definition put_json :: "nat list \<Rightarrow> json \<Rightarrow> sparser \<Rightarrow> sparser" where
  "put_json p v sp = sp\<lparr>sp_json := the (json_put p v (sp_json sp))\<rparr>"

lemma assign_ready: "ready p sp \<Longrightarrow> assign (At p) v sp = Some (put_json p v sp)"
  using json_put_exists [of p "sp_json sp" _ v] by (auto simp: ready_def put_json_def)

lemma put_json_fields [simp]:
  "sp_state (put_json p v sp) = sp_state sp" "sp_stack (put_json p v sp) = sp_stack sp" "sp_jokey (put_json p v sp) = sp_jokey sp"
  by (simp_all add: put_json_def)

lemma json_at_put_json: "json_at p (sp_json sp) \<noteq> None \<Longrightarrow> json_at p (sp_json (put_json p v sp)) = Some v"
  using json_put_exists [of p "sp_json sp" _ v] json_at_put [of p v "sp_json sp"] by (auto simp: put_json_def)

lemma put_json_twice: "json_at p (sp_json sp) \<noteq> None \<Longrightarrow> put_json p w (put_json p v sp) = put_json p w sp"
  using json_put_exists [of p "sp_json sp" _ v] json_put_put [of p v "sp_json sp"] by (auto simp: put_json_def)

lemma string_header_not_Nil [simp]: "string_header n \<noteq> []"
  by (simp add: string_header_def)

lemma deref_update [simp]:
  "deref jp (sp\<lparr>sp_stack := ss\<rparr>) = deref jp sp" "deref jp (sp\<lparr>sp_state := st\<rparr>) = deref jp sp" "deref jp (sp\<lparr>sp_str := s\<rparr>) = deref jp sp"
  by (cases jp; simp)+

lemma sp_close_zero: "sp_stack sp = (x, 0) # ss \<Longrightarrow> sp_close sp = sp_close (sp\<lparr>sp_stack := ss\<rparr>)"
  by (cases "dropWhile (\<lambda>(jp, n). n = 0) ss") (simp_all add: sp_close_def del: dropWhile_eq_Nil_conv split: prod.splits)

lemma ready_put: "ready p sp \<Longrightarrow> ready p (put_json p v sp)"
  using json_at_put_json [of p sp v] by (simp add: ready_def)

lemma sp_add_ready:
  assumes "ready p sp"
  shows "sp_add v n sp =
     (let sp' = put_json p v sp
      in case v of
           JArray xs \<Rightarrow>
             if n \<noteq> 0 then Some (put_json p (JArray (array_insert0 xs)) sp\<lparr>sp_stack := (At (p @ [0]), n - 1) # sp_stack sp\<rparr>) else sp_close sp'
         | JObject ms \<Rightarrow> if n \<noteq> 0 then Some (sp'\<lparr>sp_stack := (Key_ptr, n - 1) # sp_stack sp\<rparr>) else sp_close sp'
         | _ \<Rightarrow> sp_close sp')"
proof -
  have r: "stack_jp (sp_stack sp) = At p" "json_at p (sp_json sp) \<noteq> None" using assms by (simp_all add: ready_def)
  have "sp_add v n sp = sp_next n (put_json p v sp)" using assign_ready [OF assms] by (simp add: sp_add_def r(1) del: assign.simps)
  moreover have "deref (At p) (put_json p v sp) = Some v" using json_at_put_json [OF r(2)] by simp
  moreover have "assign (At p) w (put_json p v sp) = Some (put_json p w sp)" for w
    using assign_ready [OF ready_put [OF assms]] by (simp add: put_json_twice [OF r(2)] del: assign.simps)
  ultimately show ?thesis by (cases v) (simp_all add: sp_next_def r(1) Let_def del: assign.simps deref.simps)
qed

text \<open>A complete scalar.\<close>

lemma consume_scalar:
  assumes "ready p sp" "\<not> is_a v" "\<not> is_o v" "token (bs @ rest) = (Tok_value v, rest)" "bs \<noteq> []"
  shows "consume_loop (bs @ rest) sp = resume rest (put_json p v sp)"
proof -
  have "sp_add v 0 sp = sp_close (put_json p v sp)" using assms(2,3) sp_add_ready [OF assms(1), of v 0] by (cases v) simp_all
  then show ?thesis using assms(4,5) by (subst consume_loop.simps) (simp add: token_add_def resume_def)
qed

lemma consume_string:
  assumes "ready p sp" "length s < 2 ^ 31"
  shows "consume_loop (write_string s @ rest) sp = resume rest (put_json p (JString s) sp)"
proof -
  show ?thesis using token_headers(1) [OF assms(2), of "s @ rest"] sp_add_ready [OF assms(1), of "JString s" 0]
    by (subst consume_loop.simps) (simp add: write_string_def resume_def cong: if_cong)
qed

text \<open>A key selects a new member.\<close>

lemma object_find_new: "k \<notin> fst ` set ms \<Longrightarrow> object_find k ms = length ms"
  by (induction ms) auto

lemma consume_key:
  assumes "sp_state sp = St_normal" "sp_stack sp = (Key_ptr, n) # ss" "stack_jp ss = At p" "json_at p (sp_json sp) = Some (JObject ms)"
    "k \<notin> fst ` set ms" "length k < 2 ^ 31"
  shows "consume_loop (write_string k @ rest) sp
    = consume_loop rest (put_json p (JObject (ms @ [(k, JNull)])) sp\<lparr>sp_jokey := JString k, sp_stack := (At (p @ [length ms]), n) # ss\<rparr>)"
proof -
  obtain j where j: "json_put p (JObject (ms @ [(k, JNull)])) (sp_json sp) = Some j" using json_put_exists [OF assms(4)] by blast
  have "sp_add (JString k) 0 sp = sp_key (sp\<lparr>sp_jokey := JString k\<rparr>)" using assms(2) by (simp add: sp_add_def sp_next_def stack_jp_def)
  also have "\<dots> = Some (put_json p (JObject (ms @ [(k, JNull)])) sp\<lparr>sp_jokey := JString k, sp_stack := (At (p @ [length ms]), n) # ss\<rparr>)"
    using assms(2-5) j by (simp add: sp_key_def object_get_insert_def object_find_new put_json_def Let_def)
  finally have add: "sp_add (JString k) 0 sp = \<dots>" .
  show ?thesis using token_headers(1) [OF assms(6), of "k @ rest"] assms(1)
    by (subst consume_loop.simps) (simp add: write_string_def add sp_done_def)
qed


text \<open>Completing a value moves to the next element, the next key, or out of a finished collection.\<close>

lemma resume_zero: "sp_stack sp = (x, 0) # ss \<Longrightarrow> resume rest sp = resume rest (sp\<lparr>sp_stack := ss\<rparr>)"
  by (simp add: resume_def sp_close_zero)

lemma resume_element:
  assumes "sp_state sp = St_normal" "sp_stack sp = (At (p @ [i]), n) # ss" "n \<noteq> 0" "stack_jp ss = At p" "json_at p (sp_json sp) = Some (JArray xs)"
  shows "resume rest sp = consume_loop rest (sp\<lparr>sp_stack := (At (p @ [Suc i]), n - 1) # ss\<rparr>)"
  using assms by (simp add: resume_def sp_close_def sp_done_def)

lemma resume_member:
  assumes "sp_state sp = St_normal" "sp_stack sp = (jp, n) # ss" "n \<noteq> 0" "stack_jp ss = At p" "json_at p (sp_json sp) = Some (JObject ms)"
  shows "resume rest sp = consume_loop rest (sp\<lparr>sp_stack := (Key_ptr, n - 1) # ss\<rparr>)"
  using assms by (simp add: resume_def sp_close_def sp_done_def)

definition parses :: "json \<Rightarrow> bool" where
  "parses j \<longleftrightarrow> (\<forall>p sp rest. ready p sp \<longrightarrow>
     (\<exists>k. consume_loop (unparse_json j @ rest) sp = resume rest (put_json p (canon j) sp\<lparr>sp_jokey := k\<rparr>)))"

lemma parsesD:
  assumes "parses j" "ready p sp"
  obtains k where "consume_loop (unparse_json j @ rest) sp = resume rest (put_json p (canon j) sp\<lparr>sp_jokey := k\<rparr>)"
  using assms unfolding parses_def by blast

lemma put_json_elem:
  "json_at p (sp_json sp) = Some (JArray xs) \<Longrightarrow> i < length xs \<Longrightarrow> put_json (p @ [i]) v sp = put_json p (JArray (xs[i := v])) sp"
  by (simp add: put_json_def json_put_elem)

lemma put_json_member:
  "json_at p (sp_json sp) = Some (JObject ms) \<Longrightarrow> i < length ms \<Longrightarrow> put_json (p @ [i]) v sp = put_json p (JObject (ms[i := (fst (ms ! i), v)])) sp"
  by (simp add: put_json_def json_put_member)

lemma put_json_commute [simp]:
  "put_json p v (sp\<lparr>sp_stack := ss\<rparr>) = put_json p v sp\<lparr>sp_stack := ss\<rparr>" "put_json p v (sp\<lparr>sp_jokey := k\<rparr>) = put_json p v sp\<lparr>sp_jokey := k\<rparr>"
  by (simp_all add: put_json_def)

lemma consume_elements:
  assumes "js \<noteq> []" "\<And>j. j \<in> set js \<Longrightarrow> parses j" "sp_state sp = St_normal" "sp_stack sp = (At (p @ [i]), int (length js) - 1) # ss"
    "stack_jp ss = At p" "json_at p (sp_json sp) = Some (JArray xs)" "length xs = i + length js"
  shows "\<exists>k. consume_loop (concat (map unparse_json js) @ rest) sp
    = resume rest (put_json p (JArray (take i xs @ map canon js)) sp\<lparr>sp_jokey := k, sp_stack := ss\<rparr>)"
  using assms
proof (induction js arbitrary: i sp xs)
  case (Cons j js)
  have "ready (p @ [i]) sp" using Cons.prems by (simp add: ready_def stack_jp_def json_at_append)
  then obtain k where k: "consume_loop (unparse_json j @ concat (map unparse_json js) @ rest) sp
      = resume (concat (map unparse_json js) @ rest) (put_json (p @ [i]) (canon j) sp\<lparr>sp_jokey := k\<rparr>)"
    using parsesD [OF Cons.prems(2)] by (metis list.set_intros(1))
  let ?xs = "xs[i := canon j]"
  let ?sp = "put_json p (JArray ?xs) sp\<lparr>sp_jokey := k\<rparr>"
  have put: "put_json (p @ [i]) (canon j) sp = put_json p (JArray ?xs) sp" using put_json_elem [OF Cons.prems(6)] Cons.prems(7) by simp
  have at: "json_at p (sp_json ?sp) = Some (JArray ?xs)" using json_at_put_json Cons.prems(6) by simp
  show ?case
  proof (cases "js = []")
    case True
    then have "?xs = take i xs @ [canon j]" using Cons.prems(7) by (simp add: upd_conv_take_nth_drop)
    moreover have "sp_stack sp = (At (p @ [i]), 0) # ss" using Cons.prems(4) True by simp
    then have "resume rest ?sp = resume rest (?sp\<lparr>sp_stack := ss\<rparr>)" using resume_zero [of ?sp "At (p @ [i])" ss] by simp
    ultimately show ?thesis using k True put by (intro exI [of _ k]) simp
  next
    case False
    have "resume (concat (map unparse_json js) @ rest) ?sp = consume_loop (concat (map unparse_json js) @ rest) (?sp\<lparr>sp_stack := (At (p @ [Suc i]), int (length js) - 1) # ss\<rparr>)"
      using Cons.prems(3,4,5) False at by (subst resume_element [where xs = ?xs and n = "int (length js)"]) simp_all
    moreover have "take (Suc i) ?xs = take i xs @ [canon j]" using Cons.prems(7) by (simp add: take_Suc_conv_app_nth)
    moreover note Cons.IH [OF False, of "?sp\<lparr>sp_stack := (At (p @ [Suc i]), int (length js) - 1) # ss\<rparr>" "Suc i" ?xs]
    ultimately show ?thesis using Cons.prems(2,3,5,6,7) k put at by (auto simp: put_json_twice)
  qed
qed simp

lemma consume_members:
  assumes "ms \<noteq> []" "\<And>m. m \<in> set ms \<Longrightarrow> parses (snd m) \<and> length (fst m) < 2 ^ 31" "distinct (map fst ms)" "fst ` set ds \<inter> fst ` set ms = {}"
    "sp_state sp = St_normal" "sp_stack sp = (Key_ptr, int (length ms) - 1) # ss" "stack_jp ss = At p" "json_at p (sp_json sp) = Some (JObject ds)"
  shows "\<exists>k. consume_loop (concat (map (\<lambda>m. write_string (fst m) @ unparse_json (snd m)) ms) @ rest) sp
    = resume rest (put_json p (JObject (ds @ map (\<lambda>m. (fst m, canon (snd m))) ms)) sp\<lparr>sp_jokey := k, sp_stack := ss\<rparr>)"
  using assms
proof (induction ms arbitrary: ds sp)
  case (Cons m ms)
  let ?rest = "concat (map (\<lambda>m. write_string (fst m) @ unparse_json (snd m)) ms) @ rest"
  let ?sp1 = "put_json p (JObject (ds @ [(fst m, JNull)])) sp\<lparr>sp_jokey := JString (fst m), sp_stack := (At (p @ [length ds]), int (length ms)) # ss\<rparr>"
  let ?ds = "ds @ [(fst m, canon (snd m))]"
  have key: "consume_loop (write_string (fst m) @ unparse_json (snd m) @ ?rest) sp = consume_loop (unparse_json (snd m) @ ?rest) ?sp1"
    by (rule consume_key) (use Cons.prems in auto)
  have at1: "json_at p (sp_json ?sp1) = Some (JObject (ds @ [(fst m, JNull)]))" using json_at_put_json Cons.prems(8) by simp
  then have ready: "ready (p @ [length ds]) ?sp1" using Cons.prems(5) by (simp add: ready_def stack_jp_def json_at_append)
  have pm: "parses (snd m)" using Cons.prems(2) by simp
  then obtain k where k: "consume_loop (unparse_json (snd m) @ ?rest) ?sp1
      = resume ?rest (put_json (p @ [length ds]) (canon (snd m)) ?sp1\<lparr>sp_jokey := k\<rparr>)"
    using parsesD [OF pm ready] by blast
  let ?sp = "put_json p (JObject ?ds) sp\<lparr>sp_jokey := k, sp_stack := (At (p @ [length ds]), int (length ms)) # ss\<rparr>"
  have put: "put_json (p @ [length ds]) (canon (snd m)) ?sp1\<lparr>sp_jokey := k\<rparr> = ?sp"
    using put_json_member [OF at1, of "length ds" "canon (snd m)"] Cons.prems(8) by (simp add: put_json_twice)
  have at: "json_at p (sp_json ?sp) = Some (JObject ?ds)" using json_at_put_json Cons.prems(8) by simp
  show ?case
  proof (cases "ms = []")
    case True
    then have "resume rest ?sp = resume rest (?sp\<lparr>sp_stack := ss\<rparr>)" using resume_zero [of ?sp "At (p @ [length ds])" ss] by simp
    then show ?thesis using key k True put by (intro exI [of _ k]) simp
  next
    case False
    have "resume ?rest ?sp = consume_loop ?rest (?sp\<lparr>sp_stack := (Key_ptr, int (length ms) - 1) # ss\<rparr>)"
      using Cons.prems(5,7) False at by (subst resume_member [where ms = ?ds and n = "int (length ms)" and ss = ss and p = p]) simp_all
    moreover have "fst ` set ?ds \<inter> fst ` set ms = {}" using Cons.prems(3,4) by auto
    moreover note Cons.IH [OF False, of ?ds "?sp\<lparr>sp_stack := (Key_ptr, int (length ms) - 1) # ss\<rparr>"]
    ultimately have "\<exists>k'. resume ?rest ?sp = resume rest (put_json p (JObject (?ds @ map (\<lambda>m. (fst m, canon (snd m))) ms)) ?sp\<lparr>sp_jokey := k', sp_stack := ss\<rparr>)"
      using Cons.prems(2,3,5,7) at by simp
    then show ?thesis using key k put Cons.prems(8) by (simp add: put_json_twice)
  qed
qed simp

lemma put_json_jokey: "put_json p v sp\<lparr>sp_jokey := sp_jokey sp\<rparr> = put_json p v sp"
  by (simp add: put_json_def)

lemma parses_scalar:
  "json_ok j \<Longrightarrow> \<not> is_a j \<Longrightarrow> \<not> is_o j \<Longrightarrow> parses j"
proof -
  assume j: "json_ok j" "\<not> is_a j" "\<not> is_o j"
  have "consume_loop (unparse_json j @ rest) sp = resume rest (put_json p (canon j) sp)" if r: "ready p sp" for p sp rest
  proof (cases j)
    case (JUnsigned x)
    then show ?thesis using consume_scalar [OF r, of "canon j" "write_unsigned8 x" rest] token_unsigned [of x rest]
      by (auto simp: write_unsigned8_def write_unsigned4_def)
  next
    case (JInt x)
    then show ?thesis using consume_scalar [OF r, of "JInt x" "write_signed8 x" rest] token_signed [of x rest]
      by (auto simp: write_signed8_def write_signed4_def)
  next
    case (JDouble x)
    then show ?thesis using consume_scalar [OF r, of "JDouble x" "write_double x" rest] token_double [of x rest]
      by (auto simp: write_double_def)
  next
    case (JString x)
    then show ?thesis using consume_string [OF r] j(1) by simp
  next
    case JNull
    then show ?thesis using consume_scalar [OF r, of "JNull" "[of_nat fnull]" rest] token_constants(1) [of rest] by simp
  next
    case (JBool b)
    then show ?thesis using consume_scalar [OF r, of "JBool b" "[of_nat (ffalse + of_bool b)]" rest] token_constants(2) [of b rest] by simp
  qed (use j in simp_all)
  then show ?thesis unfolding parses_def using put_json_jokey by metis
qed

lemma parses_array:
  assumes "length xs < 2 ^ 31" "\<And>x. x \<in> set xs \<Longrightarrow> parses x"
  shows "parses (JArray xs)"
  unfolding parses_def
proof (intro allI impI)
  fix p sp rest
  assume r: "ready p sp"
  then obtain old where old: "json_at p (sp_json sp) = Some old" by (auto simp: ready_def)
  let ?n = "length xs" and ?body = "concat (map unparse_json xs) @ rest"
  let ?ys = "array_resize (int ?n) (case old of JArray xs \<Rightarrow> xs | _ \<Rightarrow> [])"
  have len: "length ?ys = ?n" by (simp add: array_resize_def)
  have hd: "write_array_header ?n \<noteq> []" by (simp add: write_array_header_def)
  have "sp_array (int ?n) sp = Some (JArray ?ys)" using r old by (simp add: sp_array_def ready_def)
  then have loop: "consume_loop (unparse_json (JArray xs) @ rest) sp
      = do { sp' \<leftarrow> sp_add (JArray ?ys) (int ?n) sp; if sp_done sp' then Some (?body, sp') else consume_loop ?body sp' }"
    using token_headers(2) [OF assms(1), of ?body] hd by (subst consume_loop.simps) (simp add: token_add_def)
  show "\<exists>k. consume_loop (unparse_json (JArray xs) @ rest) sp = resume rest (put_json p (canon (JArray xs)) sp\<lparr>sp_jokey := k\<rparr>)"
  proof (cases "xs = []")
    case True
    then show ?thesis using loop sp_add_ready [OF r, of "JArray []" 0]
      by (intro exI [of _ "sp_jokey sp"]) (simp add: array_resize_def resume_def put_json_jokey cong: if_cong)
  next
    case False
    let ?sp = "put_json p (JArray ?ys) sp\<lparr>sp_stack := (At (p @ [0]), int ?n - 1) # sp_stack sp\<rparr>"
    have "?ys \<noteq> []" using len False by auto
    then have "sp_add (JArray ?ys) (int ?n) sp = Some ?sp" using sp_add_ready [OF r, of "JArray ?ys" "int ?n"] False by (simp add: array_insert0_def)
    moreover have "\<not> sp_done ?sp" using r by (simp add: sp_done_def ready_def)
    moreover have "json_at p (sp_json ?sp) = Some (JArray ?ys)" using json_at_put_json old by simp
    then have "\<exists>k. consume_loop ?body ?sp = resume rest (put_json p (JArray (take 0 ?ys @ map canon xs)) ?sp\<lparr>sp_jokey := k, sp_stack := sp_stack sp\<rparr>)"
      using r len assms(2) False by (intro consume_elements) (simp_all add: ready_def)
    moreover have "put_json p v ?sp\<lparr>sp_jokey := k, sp_stack := sp_stack sp\<rparr> = put_json p v sp\<lparr>sp_jokey := k\<rparr>" for v k
      using old by (simp add: put_json_twice)
    ultimately show ?thesis using loop by simp
  qed
qed

lemma parses_object:
  assumes "length ms < 2 ^ 31" "distinct (map fst ms)" "\<And>m. m \<in> set ms \<Longrightarrow> parses (snd m) \<and> length (fst m) < 2 ^ 31"
  shows "parses (JObject ms)"
  unfolding parses_def
proof (intro allI impI)
  fix p sp rest
  assume r: "ready p sp"
  let ?n = "length ms" and ?body = "concat (map (\<lambda>m. write_string (fst m) @ unparse_json (snd m)) ms) @ rest"
  have hd: "write_map_header ?n \<noteq> []" by (simp add: write_map_header_def)
  have loop: "consume_loop (unparse_json (JObject ms) @ rest) sp
      = do { sp' \<leftarrow> sp_add (JObject []) (int ?n) sp; if sp_done sp' then Some (?body, sp') else consume_loop ?body sp' }"
    using token_headers(3) [OF assms(1), of ?body] hd by (subst consume_loop.simps) (simp add: token_add_def)
  show "\<exists>k. consume_loop (unparse_json (JObject ms) @ rest) sp = resume rest (put_json p (canon (JObject ms)) sp\<lparr>sp_jokey := k\<rparr>)"
  proof (cases "ms = []")
    case True
    then show ?thesis using loop sp_add_ready [OF r, of "JObject []" 0]
      by (intro exI [of _ "sp_jokey sp"]) (simp add: resume_def put_json_jokey cong: if_cong)
  next
    case False
    let ?sp = "put_json p (JObject []) sp\<lparr>sp_stack := (Key_ptr, int ?n - 1) # sp_stack sp\<rparr>"
    have "sp_add (JObject []) (int ?n) sp = Some ?sp" using sp_add_ready [OF r, of "JObject []" "int ?n"] False by simp
    moreover have "\<not> sp_done ?sp" using r by (simp add: sp_done_def ready_def)
    moreover have "json_at p (sp_json ?sp) = Some (JObject [])" using json_at_put_json r by (simp add: ready_def)
    then have "\<exists>k. consume_loop ?body ?sp = resume rest (put_json p (JObject ([] @ map (\<lambda>m. (fst m, canon (snd m))) ms)) ?sp\<lparr>sp_jokey := k, sp_stack := sp_stack sp\<rparr>)"
      using r assms(2,3) False by (intro consume_members) (simp_all add: ready_def)
    moreover have "put_json p v ?sp\<lparr>sp_jokey := k, sp_stack := sp_stack sp\<rparr> = put_json p v sp\<lparr>sp_jokey := k\<rparr>" for v k
      using r by (simp add: put_json_twice ready_def)
    ultimately show ?thesis using loop by simp
  qed
qed

lemma parses_ok: "json_ok j \<Longrightarrow> parses j"
proof (induction j)
  case (JArray xs)
  then show ?case by (intro parses_array) (auto simp: list_all_iff)
next
  case (JObject ms)
  then show ?case by (intro parses_object) (fastforce simp: list_all_iff)+
qed (rule parses_scalar; simp)+

lemma consume_unparse:
  assumes "json_ok j" "sp_state sp = St_normal" "sp_stack sp = []"
  shows "\<exists>sp'. consume (unparse_json j @ rest) sp = Some (rest, sp') \<and> sp_success sp' \<and> sp_json sp' = canon j"
proof -
  have "ready [] sp" using assms(2,3) by (simp add: ready_def stack_jp_def)
  then obtain k where "consume_loop (unparse_json j @ rest) sp = resume rest (put_json [] (canon j) sp\<lparr>sp_jokey := k\<rparr>)"
    using parsesD [OF parses_ok [OF assms(1)]] by blast
  then show ?thesis using assms(2,3)
    by (simp add: consume_def sp_done_def resume_def sp_close_def sp_success_def) (simp add: put_json_def)
qed

section \<open>Parsing in pieces\<close>

text \<open>The buffer for partial tokens matters in two states only.\<close>

definition sp_view :: "sparser \<Rightarrow> sparser" where
  "sp_view sp = (if sp_state sp = St_partial \<or> sp_state sp = St_string then sp else sp\<lparr>sp_str := []\<rparr>)"

abbreviation result_view :: "(bytes \<times> sparser) option \<Rightarrow> (bytes \<times> sparser) option" where
  "result_view \<equiv> map_option (map_prod (\<lambda>a. a) sp_view)"

abbreviation with_str :: "bytes \<Rightarrow> sparser \<Rightarrow> sparser" where
  "with_str s \<equiv> \<lambda>sp. sp\<lparr>sp_str := s\<rparr>"

lemma assign_str: "assign jp v (sp\<lparr>sp_str := s\<rparr>) = map_option (with_str s) (assign jp v sp)"
  by (cases jp) (simp_all add: map_option_bind split: bind_splits)

lemma str_commute:
  "sp\<lparr>sp_str := s, sp_stack := ss\<rparr> = sp\<lparr>sp_stack := ss, sp_str := s\<rparr>" "sp\<lparr>sp_str := s, sp_state := st\<rparr> = sp\<lparr>sp_state := st, sp_str := s\<rparr>"
  "sp\<lparr>sp_str := s, sp_json := j\<rparr> = sp\<lparr>sp_json := j, sp_str := s\<rparr>"
  by simp_all

lemma sp_close_str: "sp_close (sp\<lparr>sp_str := s\<rparr>) = map_option (with_str s) (sp_close sp)"
  by (cases "dropWhile (\<lambda>(jp, n). n = 0) (sp_stack sp)")
    (simp_all add: sp_close_def map_option_bind comp_def str_commute split: prod.splits del: dropWhile_eq_Nil_conv)

lemma sp_key_str: "sp_key (sp\<lparr>sp_str := s\<rparr>) = map_option (with_str s) (sp_key sp)"
  by (simp add: sp_key_def map_option_bind comp_def Let_def str_commute split: option.splits list.splits jptr.splits json.splits prod.splits)

lemma sp_next_str: "sp_next n (sp\<lparr>sp_str := s\<rparr>) = map_option (with_str s) (sp_next n sp)"
proof (cases "stack_jp (sp_stack sp)")
  case (At p)
  show ?thesis
  proof (cases "json_at p (sp_json sp)")
    case (Some v)
    then show ?thesis using At by (cases v) (simp_all add: sp_next_def sp_close_str map_option_bind comp_def str_commute)
  qed (simp add: sp_next_def At)
qed (simp_all add: sp_next_def sp_key_str)

lemma sp_add_str: "sp_add v n (sp\<lparr>sp_str := s\<rparr>) = map_option (with_str s) (sp_add v n sp)"
  by (cases "assign (stack_jp (sp_stack sp)) v sp") (simp_all add: sp_add_def assign_str sp_next_str del: assign.simps)

lemma token_add_str: "token_add t (sp\<lparr>sp_str := s\<rparr>) = map_option (with_str s) (token_add t sp)"
  by (cases t; cases "deref (stack_jp (sp_stack sp)) sp") (simp_all add: token_add_def sp_add_str sp_array_def)

lemma sp_done_str [simp]: "sp_done (sp\<lparr>sp_str := s\<rparr>) = sp_done sp"
  by (simp add: sp_done_def)

lemma sp_view_done: "sp_done sp \<Longrightarrow> sp_view (sp\<lparr>sp_str := s\<rparr>) = sp_view sp"
  by (auto simp: sp_view_def sp_done_def)

lemma consume_loop_str: "result_view (consume_loop bs (sp\<lparr>sp_str := s\<rparr>)) = result_view (consume_loop bs sp)"
proof (induction bs sp rule: consume_loop.induct)
  case (1 bs sp)
  obtain t r where t: "token bs = (t, r)" by (cases "token bs")
  show ?case
  proof (cases "bs = []")
    case True
    then show ?thesis by (simp add: consume_loop.simps sp_view_def)
  next
    case False
    note eqs = consume_loop.simps [of bs sp] consume_loop.simps [of bs "sp\<lparr>sp_str := s\<rparr>"]
    show ?thesis
    proof (cases t)
      case (Tok_raw n)
      then show ?thesis using False 1 t
        by (cases "sp_add (JString (take (nat n) r)) 0 sp") (auto simp: eqs sp_add_str sp_view_done str_commute)
    next
      case Tok_error
      then show ?thesis using False t by (simp add: eqs sp_view_def)
    next
      case Tok_partial
      then show ?thesis using False t by (simp add: eqs sp_view_def str_commute)
    qed (use False t 1 in \<open>cases "token_add t sp"; auto simp: eqs token_add_str sp_view_done\<close>)+
  qed
qed

lemma consume_loop_end: "consume_loop bs sp = Some (r, sp') \<Longrightarrow> sp_done sp' \<or> r = []"
proof (induction bs sp rule: consume_loop.induct)
  case (1 bs sp)
  obtain t r' where t: "token bs = (t, r')" by (cases "token bs")
  show ?case using 1 t by (cases t) (auto simp: consume_loop.simps [of bs sp] sp_done_def split: if_splits bind_splits)
qed

lemma feed_once:
  assumes "\<And>r sp'. consume bs sp = Some (r, sp') \<Longrightarrow> sp_done sp' \<or> r = []"
  shows "feed bs sp = consume bs sp"
  using assms by (cases "consume bs sp") (auto simp: feed.simps [of bs sp])

lemma feed_normal: "sp_state sp = St_normal \<Longrightarrow> feed bs sp = consume_loop bs sp"
  using feed_once [of bs sp] consume_loop_end [of bs sp] by (simp add: consume_def sp_done_def)

lemma feed_string:
  assumes "sp_state sp = St_string" "sp_stack sp = (x, n) # ss" "int (length (sp_str sp)) < n"
  shows "feed bs sp =
     (let k = nat n - length (sp_str sp); s = sp_str sp @ take k bs
      in if length bs < k then Some ([], sp\<lparr>sp_str := s\<rparr>)
         else do { sp' \<leftarrow> sp_add (JString s) 0 (sp\<lparr>sp_str := s, sp_stack := ss, sp_state := St_normal\<rparr>);
                   if sp_done sp' then Some (drop k bs, sp') else consume_loop (drop k bs) sp' })"
proof -
  let ?k = "nat n - length (sp_str sp)"
  have "nat (n - int (length (sp_str sp))) = ?k" by simp
  then have c: "consume bs sp =
     (let s = sp_str sp @ take ?k bs
      in if length bs < ?k then Some ([], sp\<lparr>sp_str := s\<rparr>)
         else do { sp' \<leftarrow> sp_add (JString s) 0 (sp\<lparr>sp_str := s, sp_stack := ss, sp_state := St_normal\<rparr>);
                   if sp_done sp' then Some (drop ?k bs, sp') else consume_loop (drop ?k bs) sp' })"
    using assms by (auto simp: consume_def sp_done_def Let_def min_def cong: if_cong)
  have "feed bs sp = consume bs sp"
    by (rule feed_once) (auto simp: c Let_def split: if_splits bind_splits dest: consume_loop_end)
  then show ?thesis by (simp add: c Let_def)
qed

lemma token_append: "token a = (t, r) \<Longrightarrow> t \<noteq> Tok_partial \<Longrightarrow> token (a @ b) = (t, r @ b)"
  by (cases a) (auto simp: token.simps Let_def split: if_splits)

lemma body_token_complete: "body_token f x \<noteq> Tok_partial"
  by (simp add: body_token_def)

lemma token_partial:
  assumes "token a = (Tok_partial, r)" "a \<noteq> []"
  shows "r = a" "length a < nbytes ! (unat (hd a) - fnull)"
    "length (a @ c) = nbytes ! (unat (hd a) - fnull) \<Longrightarrow> \<exists>t. token (a @ c) = (t, []) \<and> t \<noteq> Tok_partial"
    "length (a @ c) < nbytes ! (unat (hd a) - fnull) \<Longrightarrow> token (a @ c) = (Tok_partial, a @ c)"
  using assms by (cases a; auto simp: token.simps Let_def body_token_complete split: if_splits)+


text \<open>What the parser is waiting for when it returns.\<close>

definition waiting :: "sparser \<Rightarrow> bool" where
  "waiting sp \<longleftrightarrow>
     (sp_state sp = St_partial \<longrightarrow> sp_str sp \<noteq> [] \<and> length (sp_str sp) < nbytes ! (unat (hd (sp_str sp)) - fnull))
     \<and> (sp_state sp = St_string \<longrightarrow> (\<exists>jp n ss. sp_stack sp = (jp, n) # ss \<and> int (length (sp_str sp)) < n))"

lemma waiting_done: "sp_done sp \<Longrightarrow> waiting sp"
  by (auto simp: waiting_def sp_done_def)

lemma consume_loop_waiting: "consume_loop bs sp = Some (r, sp') \<Longrightarrow> waiting sp'"
proof (induction bs sp rule: consume_loop.induct)
  case (1 bs sp)
  obtain t r' where t: "token bs = (t, r')" by (cases "token bs")
  show ?case
  proof (cases "bs = [] \<or> t = Tok_partial \<or> t = Tok_error")
    case True
    then show ?thesis using 1(5) t token_partial(1,2) [of bs r']
      by (cases "bs = []") (auto simp: consume_loop.simps [of bs sp] consume_loop.simps [of "[]"] waiting_def)
  next
    case False
    then show ?thesis using 1 t
      by (cases t) (auto simp: consume_loop.simps [of bs sp] waiting_done split: if_splits bind_splits, auto simp: waiting_def)
  qed
qed

lemma feed_Nil: "waiting sp \<Longrightarrow> \<not> sp_done sp \<Longrightarrow> feed [] sp = Some ([], sp)"
proof (cases "sp_state sp")
  case St_normal
  then show ?thesis by (simp add: feed_normal consume_loop.simps)
qed (auto simp: feed.simps [of "[]"] consume_def sp_done_def waiting_def Let_def)

lemma feed_partial_more:
  assumes "sp_state sp = St_partial" "sp_str sp \<noteq> []" "length (sp_str sp @ bs) < nbytes ! (unat (hd (sp_str sp)) - fnull)"
  shows "feed bs sp = Some ([], sp\<lparr>sp_str := sp_str sp @ bs\<rparr>)"
proof -
  have "consume bs sp = Some ([], sp\<lparr>sp_str := sp_str sp @ bs\<rparr>)" using assms by (auto simp: consume_def sp_done_def Let_def)
  then show ?thesis by (simp add: feed.simps [of bs sp])
qed

lemma feed_partial_complete:
  assumes "sp_state sp = St_partial" "sp_str sp \<noteq> []" "length (sp_str sp @ c) = nbytes ! (unat (hd (sp_str sp)) - fnull)" "c \<noteq> []"
  shows "feed (c @ bs) sp =
     do { (_, sp') \<leftarrow> consume_loop (sp_str sp @ c) (sp\<lparr>sp_str := sp_str sp @ c, sp_state := St_normal\<rparr>);
          if sp_done sp' then Some (bs, sp') else feed bs sp' }"
proof -
  let ?h = "consume_loop (sp_str sp @ c) (sp\<lparr>sp_str := sp_str sp @ c, sp_state := St_normal\<rparr>)"
  have "nat (int (nbytes ! (unat (hd (sp_str sp)) - fnull)) - int (length (sp_str sp))) = length c" using assms(3) by auto
  then have c: "consume (c @ bs) sp =
     do { (_, sp') \<leftarrow> ?h; if sp_state sp' \<noteq> St_normal then Some (bs, sp') else consume_loop bs sp' }"
    using assms by (simp add: consume_def sp_done_def Let_def cong: if_cong)
  show ?thesis
  proof (cases ?h)
    case None
    then show ?thesis using c by (simp add: feed.simps [of "c @ bs"])
  next
    case (Some rs)
    obtain r sp' where rs: "rs = (r, sp')" by (cases rs)
    show ?thesis
    proof (cases "sp_state sp' = St_normal")
      case True
      then have "feed (c @ bs) sp = consume (c @ bs) sp"
        by (intro feed_once) (auto simp: c Some rs dest: consume_loop_end)
      then show ?thesis using True by (simp add: c Some rs feed_normal sp_done_def)
    next
      case False
      then show ?thesis using c assms(4) Some rs feed_Nil [of sp'] consume_loop_waiting
        by (cases "bs = []") (auto simp: feed.simps [of "c @ bs"] feed.simps [of c])
    qed
  qed
qed


text \<open>How parsing continues with the next piece of the input.\<close>

definition go_on :: "bytes \<Rightarrow> (bytes \<times> sparser) option \<Rightarrow> (bytes \<times> sparser) option" where
  "go_on bs r = do { (rest, sp) \<leftarrow> r; if sp_done sp then Some (rest @ bs, sp) else feed bs sp }"

lemma loop_string_split:
  assumes "sp_state sp = St_normal" "0 \<le> n" "int (length r) < n"
  shows "result_view (feed bs (sp\<lparr>sp_str := r, sp_stack := (Null_ptr, n) # sp_stack sp, sp_state := St_string\<rparr>))
    = result_view (if int (length (r @ bs)) < n then Some ([], sp\<lparr>sp_str := r @ bs, sp_stack := (Null_ptr, n) # sp_stack sp, sp_state := St_string\<rparr>)
        else do { sp' \<leftarrow> sp_add (JString (take (nat n) (r @ bs))) 0 sp;
                  if sp_done sp' then Some (drop (nat n) (r @ bs), sp') else consume_loop (drop (nat n) (r @ bs)) sp' })"
proof -
  let ?k = "nat n - length r"
  have *: "take (nat n) (r @ bs) = r @ take ?k bs" "drop (nat n) (r @ bs) = drop ?k bs" using assms(3) by auto
  have sp: "sp\<lparr>sp_str := s, sp_stack := sp_stack sp, sp_state := St_normal\<rparr> = sp\<lparr>sp_str := s\<rparr>" for s using assms(1) by (cases sp) simp
  have "feed bs (sp\<lparr>sp_str := r, sp_stack := (Null_ptr, n) # sp_stack sp, sp_state := St_string\<rparr>)
    = (if length bs < ?k then Some ([], sp\<lparr>sp_str := r @ take ?k bs, sp_stack := (Null_ptr, n) # sp_stack sp, sp_state := St_string\<rparr>)
       else do { sp' \<leftarrow> sp_add (JString (r @ take ?k bs)) 0 (sp\<lparr>sp_str := r @ take ?k bs\<rparr>);
                 if sp_done sp' then Some (drop ?k bs, sp') else consume_loop (drop ?k bs) sp' })"
    using assms(3) sp by (subst feed_string [where x = Null_ptr and n = n and ss = "sp_stack sp"]) (simp_all add: Let_def)
  then show ?thesis using assms(2,3)
    by (cases "sp_add (JString (r @ take ?k bs)) 0 sp") (auto simp: * sp_add_str consume_loop_str sp_view_done)
qed

lemma assign_state: "assign jp v sp = Some sp' \<Longrightarrow> sp_state sp' = sp_state sp"
  by (cases jp) (auto split: bind_splits)

lemma sp_close_state: "sp_close sp = Some sp' \<Longrightarrow> sp_done sp' \<or> sp_state sp' = sp_state sp"
  by (auto simp: sp_close_def sp_done_def split: list.splits bind_splits)

lemma sp_key_state: "sp_key sp = Some sp' \<Longrightarrow> sp_done sp' \<or> sp_state sp' = sp_state sp"
  by (auto simp: sp_key_def sp_done_def Let_def split: option.splits list.splits jptr.splits json.splits prod.splits bind_splits)

lemma sp_next_state: "sp_next n sp = Some sp' \<Longrightarrow> sp_done sp' \<or> sp_state sp' = sp_state sp"
  using sp_close_state [of sp sp'] sp_key_state [of sp sp'] assign_state
  by (fastforce simp: sp_next_def Let_def split: if_splits bind_splits json.splits jptr.splits)

lemma sp_add_state: "sp_add v n sp = Some sp' \<Longrightarrow> sp_done sp' \<or> sp_state sp' = sp_state sp"
  using sp_next_state assign_state by (fastforce simp: sp_add_def split: bind_splits)

lemma token_add_state: "token_add t sp = Some sp' \<Longrightarrow> sp_done sp' \<or> sp_state sp' = sp_state sp"
  using sp_add_state by (auto simp: token_add_def split: sp_token.splits bind_splits)

definition add_loop :: "sparser option \<Rightarrow> bytes \<Rightarrow> (bytes \<times> sparser) option" where
  "add_loop r rest = do { sp' \<leftarrow> r; if sp_done sp' then Some (rest, sp') else consume_loop rest sp' }"

lemma add_loop_split:
  assumes "\<And>sp'. r = Some sp' \<Longrightarrow> \<not> sp_done sp' \<Longrightarrow> result_view (consume_loop (rest @ b) sp') = result_view (go_on b (consume_loop rest sp'))"
  shows "result_view (add_loop r (rest @ b)) = result_view (go_on b (add_loop r rest))"
  using assms by (cases r) (auto simp: add_loop_def go_on_def)

lemma consume_loop_token:
  "bs \<noteq> [] \<Longrightarrow> token bs = (Tok_raw n, rest) \<Longrightarrow> 0 \<le> n \<Longrightarrow> n \<le> int (length rest)
     \<Longrightarrow> consume_loop bs sp = add_loop (sp_add (JString (take (nat n) rest)) 0 sp) (drop (nat n) rest)"
  "bs \<noteq> [] \<Longrightarrow> token bs = (Tok_raw n, rest) \<Longrightarrow> n < 0 \<Longrightarrow> consume_loop bs sp = None"
  "bs \<noteq> [] \<Longrightarrow> token bs = (Tok_raw n, rest) \<Longrightarrow> 0 \<le> n \<Longrightarrow> int (length rest) < n
     \<Longrightarrow> consume_loop bs sp = Some ([], sp\<lparr>sp_str := rest, sp_stack := (Null_ptr, n) # sp_stack sp, sp_state := St_string\<rparr>)"
  "bs \<noteq> [] \<Longrightarrow> token bs = (Tok_partial, rest) \<Longrightarrow> consume_loop bs sp = Some ([], sp\<lparr>sp_str := rest, sp_state := St_partial\<rparr>)"
  "bs \<noteq> [] \<Longrightarrow> token bs = (Tok_error, rest) \<Longrightarrow> consume_loop bs sp = Some (rest, sp\<lparr>sp_state := St_error\<rparr>)"
  "bs \<noteq> [] \<Longrightarrow> token bs = (t, rest) \<Longrightarrow> t \<notin> {Tok_error, Tok_partial} \<Longrightarrow> \<forall>n. t \<noteq> Tok_raw n \<Longrightarrow> consume_loop bs sp = add_loop (token_add t sp) rest"
  by (simp_all add: consume_loop.simps [of bs] add_loop_def not_less) (cases t; simp)

lemma feed_str: "sp_state sp = St_normal \<Longrightarrow> result_view (feed bs (sp\<lparr>sp_str := s\<rparr>)) = result_view (feed bs sp)"
  by (simp add: feed_normal consume_loop_str)

lemma state_same: "sp_state sp = st \<Longrightarrow> sp\<lparr>sp_state := st\<rparr> = sp"
  by (cases sp) simp

lemma header_split:
  assumes "token h = (t, [])" "t \<noteq> Tok_partial" "h \<noteq> []" "sp_state sp = St_normal"
  shows "result_view (consume_loop (h @ b) sp)
    = result_view (do { (_, sp') \<leftarrow> consume_loop h (sp\<lparr>sp_str := s\<rparr>); if sp_done sp' then Some (b, sp') else feed b sp' })"
proof -
  have tb: "token (h @ b) = (t, b)" using token_append [OF assms(1,2)] by simp
  have hb: "h @ b \<noteq> []" using assms(3) by simp
  have val: "result_view (add_loop r b) = result_view (do { (_, sp') \<leftarrow> add_loop (map_option (with_str s) r) []; if sp_done sp' then Some (b, sp') else feed b sp' })"
    if "\<And>sp'. r = Some sp' \<Longrightarrow> sp_done sp' \<or> sp_state sp' = St_normal" for r
    using that by (cases r) (auto simp: add_loop_def consume_loop.simps [of "[]"] sp_view_done sp_done_def feed_normal consume_loop_str str_commute state_same)
  show ?thesis
  proof (cases "\<exists>n. t = Tok_raw n")
    case True
    then obtain n where t: "t = Tok_raw n" by blast
    consider "n < 0" | "n = 0" | "0 < n" by linarith
    then show ?thesis
    proof cases
      case 1
      then show ?thesis using consume_loop_token(2) [OF assms(3)] consume_loop_token(2) [OF hb] assms(1) tb t by simp
    next
      case 2
      then show ?thesis
        using consume_loop_token(1) [OF assms(3), of 0 "[]"] consume_loop_token(1) [OF hb, of 0 b] assms(1,4) tb t
          val [of "sp_add (JString []) 0 sp"] sp_add_state [of "JString []" 0 sp] by (simp add: sp_add_str)
    next
      case 3
      have "consume_loop h (sp\<lparr>sp_str := s\<rparr>) = Some ([], sp\<lparr>sp_str := [], sp_stack := (Null_ptr, n) # sp_stack sp, sp_state := St_string\<rparr>)"
        using consume_loop_token(3) [OF assms(3), of n "[]"] assms(1) t 3 by simp
      moreover have "consume_loop (h @ b) sp = (if int (length ([] @ b)) < n then Some ([], sp\<lparr>sp_str := [] @ b, sp_stack := (Null_ptr, n) # sp_stack sp, sp_state := St_string\<rparr>)
        else do { sp' \<leftarrow> sp_add (JString (take (nat n) ([] @ b))) 0 sp;
                  if sp_done sp' then Some (drop (nat n) ([] @ b), sp') else consume_loop (drop (nat n) ([] @ b)) sp' })"
        using consume_loop_token(1,3) [OF hb, of n b] tb t 3 by (simp add: add_loop_def cong: if_cong)
      ultimately show ?thesis using loop_string_split [OF assms(4), of n "[]" b] 3 by (simp add: sp_done_def)
    qed
  next
    case False
    then show ?thesis
    proof (cases "t = Tok_error")
      case True
      then show ?thesis using consume_loop_token(5) [OF assms(3)] consume_loop_token(5) [OF hb] assms(1) tb
        by (simp add: sp_done_def sp_view_def)
    next
      case err: False
      then show ?thesis using False consume_loop_token(6) [OF assms(3,1)] consume_loop_token(6) [OF hb tb] assms(2,4)
          val [of "token_add t sp"] token_add_state [of t sp] by (simp add: token_add_str)
    qed
  qed
qed

lemma loop_split:
  assumes "sp_state sp = St_normal"
  shows "result_view (consume_loop (a @ b) sp) = result_view (go_on b (consume_loop a sp))"
  using assms
proof (induction a sp rule: consume_loop.induct)
  case (1 a sp)
  obtain t r where t: "token a = (t, r)" by (cases "token a")
  show ?case
  proof (cases "a = []")
    case True
    then show ?thesis using 1(5) by (simp add: go_on_def consume_loop.simps [of "[]"] sp_done_def feed_normal state_same)
  next
    case a: False
    then have ab: "a @ b \<noteq> []" by simp
    show ?thesis
    proof (cases "t = Tok_partial")
      case True
      then have t: "token a = (Tok_partial, r)" using t by simp
      note p = token_partial [OF this a]
      let ?n = "nbytes ! (unat (hd a) - fnull)" and ?sp = "sp\<lparr>sp_str := a, sp_state := St_partial\<rparr>"
      have go: "go_on b (consume_loop a sp) = feed b ?sp" using consume_loop_token(4) [OF a t] p(1) by (simp add: go_on_def sp_done_def)
      show ?thesis
      proof (cases "length (a @ b) < ?n")
        case True
        then show ?thesis using go consume_loop_token(4) [OF ab p(4)] feed_partial_more [of ?sp b] a by (simp add: str_commute)
      next
        case False
        define c where "c = take (?n - length a) b"
        define d where "d = drop (?n - length a) b"
        have b: "b = c @ d" by (simp add: c_def d_def)
        have len: "length (a @ c) = ?n" "c \<noteq> []" using False p(2) by (auto simp: c_def)
        obtain t' where t': "token (a @ c) = (t', [])" "t' \<noteq> Tok_partial" using p(3) len(1) by blast
        have "sp\<lparr>sp_str := a @ c, sp_state := St_normal\<rparr> = sp\<lparr>sp_str := a @ c\<rparr>" using 1(5) by (cases sp) simp
        then show ?thesis using go b header_split [OF t' _ 1(5), of d "a @ c"] feed_partial_complete [of ?sp c d] a len
          by (simp add: str_commute)
      qed
    next
      case np: False
      note tb = token_append [OF t this, of b]
      show ?thesis
      proof (cases "\<exists>n. t = Tok_raw n")
        case True
        then obtain n where n: "t = Tok_raw n" by blast
        note ta = t [unfolded n] and tab = tb [unfolded n]
        consider "n < 0" | "0 \<le> n" "n \<le> int (length r)" | "0 \<le> n" "int (length r) < n" by linarith
        then show ?thesis
        proof cases
          case 1
          then show ?thesis using consume_loop_token(2) [OF a ta] consume_loop_token(2) [OF ab tab] by (simp add: go_on_def)
        next
          case 2
          let ?r = "sp_add (JString (take (nat n) r)) 0 sp"
          have "result_view (add_loop ?r (drop (nat n) r @ b)) = result_view (go_on b (add_loop ?r (drop (nat n) r)))"
            by (rule add_loop_split) (use 1 a ta 2 in \<open>auto dest: sp_add_state\<close>)
          then show ?thesis using consume_loop_token(1) [OF a ta] consume_loop_token(1) [OF ab tab] 2 by simp
        next
          case 3
          have "consume_loop (a @ b) sp = (if int (length (r @ b)) < n then Some ([], sp\<lparr>sp_str := r @ b, sp_stack := (Null_ptr, n) # sp_stack sp, sp_state := St_string\<rparr>)
            else do { sp' \<leftarrow> sp_add (JString (take (nat n) (r @ b))) 0 sp;
                      if sp_done sp' then Some (drop (nat n) (r @ b), sp') else consume_loop (drop (nat n) (r @ b)) sp' })"
            using consume_loop_token(1,3) [OF ab tab] 3 by (simp add: add_loop_def cong: if_cong)
          then show ?thesis using consume_loop_token(3) [OF a ta] loop_string_split [OF 1(5), of n r b] 3
            by (simp add: go_on_def sp_done_def)
        qed
      next
        case nr: False
        show ?thesis
        proof (cases "t = Tok_error")
          case True
          then show ?thesis using consume_loop_token(5) [OF a] consume_loop_token(5) [OF ab] t tb by (simp add: go_on_def sp_done_def)
        next
          case False
          have "result_view (add_loop (token_add t sp) (r @ b)) = result_view (go_on b (add_loop (token_add t sp) r))"
            by (rule add_loop_split) (use 1 a t False np nr token_add_state [of t sp] in \<open>cases t; auto\<close>)
          then show ?thesis using consume_loop_token(6) [OF a t] consume_loop_token(6) [OF ab tb] np nr False by simp
        qed
      qed
    qed
  qed
qed


lemma feed_split:
  assumes "waiting sp" "\<not> sp_done sp"
  shows "result_view (feed (a @ b) sp) = result_view (go_on b (feed a sp))"
  using assms
proof (induction "length a" arbitrary: a sp rule: less_induct)
  case less
  note assms = less.prems
  show ?case
proof (cases "sp_state sp")
  case St_normal
  then show ?thesis by (simp add: feed_normal loop_split)
next
  case St_string
  then obtain jp n ss where s: "sp_stack sp = (jp, n) # ss" "int (length (sp_str sp)) < n" using assms(1) by (auto simp: waiting_def)
  note f = feed_string [OF St_string s]
  let ?k = "nat n - length (sp_str sp)"
  show ?thesis
  proof (cases "length a < ?k")
    case True
    then have a: "feed a sp = Some ([], sp\<lparr>sp_str := sp_str sp @ a\<rparr>)" by (simp add: f Let_def)
    have s': "sp_state (sp\<lparr>sp_str := sp_str sp @ a\<rparr>) = St_string" "sp_stack (sp\<lparr>sp_str := sp_str sp @ a\<rparr>) = (jp, n) # ss" "int (length (sp_str (sp\<lparr>sp_str := sp_str sp @ a\<rparr>))) < n"
      using True St_string s by auto
    have "feed b (sp\<lparr>sp_str := sp_str sp @ a\<rparr>) = feed (a @ b) sp" unfolding f feed_string [OF s'] using True
      by (auto simp: Let_def cong: if_cong)
    then show ?thesis using a St_string by (simp add: go_on_def sp_done_def)
  next
    case False
    let ?s = "sp_str sp @ take ?k a"
    let ?r = "sp_add (JString ?s) 0 (sp\<lparr>sp_str := ?s, sp_stack := ss, sp_state := St_normal\<rparr>)"
    have "feed a sp = add_loop ?r (drop ?k a)" "feed (a @ b) sp = add_loop ?r (drop ?k a @ b)" using False by (simp_all add: f Let_def add_loop_def cong: if_cong)
    moreover have "result_view (add_loop ?r (drop ?k a @ b)) = result_view (go_on b (add_loop ?r (drop ?k a)))"
      by (rule add_loop_split, rule loop_split) (auto dest: sp_add_state)
    ultimately show ?thesis by simp
  qed
next
  case St_partial
  then have s: "sp_str sp \<noteq> []" "length (sp_str sp) < nbytes ! (unat (hd (sp_str sp)) - fnull)" using assms(1) by (auto simp: waiting_def)
  let ?n = "nbytes ! (unat (hd (sp_str sp)) - fnull)"
  show ?thesis
  proof (cases "length (sp_str sp @ a) < ?n")
    case True
    note a = feed_partial_more [OF St_partial s(1) True]
    let ?sp = "sp\<lparr>sp_str := sp_str sp @ a\<rparr>"
    show ?thesis
    proof (cases "length (sp_str sp @ a @ b) < ?n")
      case True
      then show ?thesis using feed_partial_more [OF St_partial s(1) True] feed_partial_more [of ?sp b] a St_partial s(1) by (simp add: go_on_def sp_done_def)
    next
      case False
      define c where "c = take (?n - length (sp_str sp @ a)) b"
      define d where "d = drop (?n - length (sp_str sp @ a)) b"
      have b: "b = c @ d" by (simp add: c_def d_def)
      have len: "length (sp_str sp @ a @ c) = ?n" "c \<noteq> []" using False True by (auto simp: c_def)
      have "feed ((a @ c) @ d) sp = feed (c @ d) ?sp"
        using feed_partial_complete [OF St_partial s(1), of "a @ c" d] feed_partial_complete [of ?sp c d] St_partial s(1) len by simp
      then show ?thesis using a b St_partial by (simp add: go_on_def sp_done_def)
    qed
  next
    case False
    define c where "c = take (?n - length (sp_str sp)) a"
    define d where "d = drop (?n - length (sp_str sp)) a"
    have a: "a = c @ d" by (simp add: c_def d_def)
    have len: "length (sp_str sp @ c) = ?n" "c \<noteq> []" using False s(2) by (auto simp: c_def)
    note fc = feed_partial_complete [OF St_partial s(1) len]
    let ?h = "consume_loop (sp_str sp @ c) (sp\<lparr>sp_str := sp_str sp @ c, sp_state := St_normal\<rparr>)"
    show ?thesis
    proof (cases ?h)
      case None
      then show ?thesis using fc a by (simp add: go_on_def)
    next
      case (Some rs)
      obtain r sp' where rs: "rs = (r, sp')" by (cases rs)
      have "length d < length a" using a len(2) by simp
      then have "result_view (feed (d @ b) sp') = result_view (go_on b (feed d sp'))" if "\<not> sp_done sp'"
        using less.hyps consume_loop_waiting Some rs that by blast
      then show ?thesis using fc a Some rs by (simp add: go_on_def)
    qed
  qed
qed (use assms in \<open>simp_all add: sp_done_def\<close>)
qed

text \<open>Feeding an input that arrives in pieces.\<close>

fun feed_pieces :: "bytes list \<Rightarrow> sparser \<Rightarrow> (bytes \<times> sparser) option" where
  "feed_pieces [] sp = Some ([], sp)"
| "feed_pieces (p # ps) sp =
     do { (rest, sp') \<leftarrow> feed p sp;
          if sp_done sp' then Some (rest @ concat ps, sp') else feed_pieces ps sp' }"

lemma consume_waiting:
  assumes "waiting sp" "consume bs sp = Some (r, sp')"
  shows "waiting sp'"
proof (cases "sp_state sp")
  case St_string
  then show ?thesis using assms
    by (auto simp: consume_def sp_done_def Let_def waiting_done [unfolded sp_done_def] split: if_splits bind_splits dest: consume_loop_waiting)
      (auto simp: waiting_def)
next
  case St_partial
  then show ?thesis using assms
    by (auto simp: consume_def sp_done_def Let_def split: if_splits bind_splits dest: consume_loop_waiting) (auto simp: waiting_def)
qed (use assms in \<open>auto simp: consume_def sp_done_def waiting_done [unfolded sp_done_def] dest: consume_loop_waiting\<close>)

lemma feed_waiting: "waiting sp \<Longrightarrow> feed bs sp = Some (r, sp') \<Longrightarrow> waiting sp'"
proof (induction bs sp rule: feed.induct)
  case (1 bs sp)
  from 1(3) show ?case using 1(1) consume_waiting [OF 1(2), of bs] by (auto simp: feed.simps [of bs sp] split: bind_splits if_splits)
qed

lemma feed_pieces_concat:
  "waiting sp \<Longrightarrow> \<not> sp_done sp \<Longrightarrow> result_view (feed_pieces ps sp) = result_view (feed (concat ps) sp)"
proof (induction ps arbitrary: sp)
  case Nil
  then show ?case by (simp add: feed_Nil)
next
  case (Cons p ps)
  then show ?case using feed_split [OF Cons.prems, of p "concat ps"] feed_waiting [OF Cons.prems(1)]
    by (cases "feed p sp") (auto simp: go_on_def)
qed

text \<open>
  C27.  Pieces do not matter.  Feeding the streaming parser an input in any pieces, cut in
  the middle of a number, a string or a header, leads to the same rest, state and result as
  feeding it the whole, up to a buffer that is not read again.
\<close>

theorem msgpack_pieces: "result_view (feed_pieces ps sp_init) = result_view (feed (concat ps) sp_init)"
  by (rule feed_pieces_concat) (simp_all add: waiting_def sp_init_def sp_done_def)

text \<open>
  C26.  Round trip of the wire format.  The bytes of a well-formed value, in any pieces and
  with anything behind them, make the parser succeed; it leaves exactly what stands behind
  them, and its result is the value, where unsigned numbers below 65536 come back as signed
  ones.
\<close>

theorem msgpack_roundtrip:
  assumes "json_ok j" "concat ps = unparse_json j @ rest"
  shows "\<exists>sp. feed_pieces ps sp_init = Some (rest, sp) \<and> sp_success sp \<and> sp_json sp = canon j"
proof -
  obtain sp where sp: "consume (concat ps) sp_init = Some (rest, sp)" "sp_success sp" "sp_json sp = canon j"
    using consume_unparse [OF assms(1), of sp_init rest] assms(2) by (auto simp: sp_init_def)
  then have "feed (concat ps) sp_init = Some (rest, sp)" by (simp add: feed.simps [of "concat ps"] sp_done_def sp_success_def)
  then have "result_view (feed_pieces ps sp_init) = Some (rest, sp_view sp)"
    using feed_pieces_concat [of sp_init ps] by (simp add: waiting_def sp_init_def sp_done_def)
  then obtain sp' where "feed_pieces ps sp_init = Some (rest, sp')" "sp_view sp' = sp_view sp" by auto
  moreover have "sp_state sp' = sp_state sp" "sp_json sp' = sp_json sp"
    using calculation(2) by (simp_all add: sp_view_def split: if_splits) (metis sparser.select_convs(1,4) sparser.surjective sparser.update_convs(3))+
  ultimately show ?thesis using sp by (auto simp: sp_success_def)
qed

theorem msgpack_roundtrip_witness:
  "\<exists>sp. feed_pieces [[0x92, 0xA2, 65], [66, 7, 1]] sp_init = Some ([1], sp) \<and> sp_success sp \<and> sp_json sp = JArray [JString [65, 66], JInt 7]"
proof -
  have u: "unparse_json (JArray [JString [65, 66], JUnsigned 7]) = [0x92, 0xA2, 65, 66, 7]"
    by (simp add: write_array_header_def write_string_def string_header_def write_unsigned8_def write_unsigned4_def formats)
  show ?thesis
    using msgpack_roundtrip [of "JArray [JString [65, 66], JUnsigned 7]" "[[0x92, 0xA2, 65], [66, 7, 1]]" "[1]"] by (simp add: u del: unparse_json.simps feed_pieces.simps)
qed

end
