(* ===== verification/Log_Records.thy ===== *)
theory Log_Records
  imports Msgpack Kvthread
begin

text \<open>
  The value log (\<open>log.hh\<close>, \<open>log.cc\<close>): the layouts of its records, writing them
  (\<open>loginfo::record\<close> and one round of the logger thread, \<open>loginfo::run\<close>) and reading them
  (\<open>logrecord::extract\<close>).  A log is its buffer, the spare buffer the logger swaps in, the four
  epochs and the file.  \<open>record\<close> returns \<open>None\<close> where it would wait for the logger to make
  room.  Numbers are little-endian; a record with a key is padded by its structure, so that
  its last four bytes are whatever the buffer held before.
\<close>

section \<open>Records in memory\<close>

definition le_bytes :: "nat \<Rightarrow> nat \<Rightarrow> bytes" where
  "le_bytes k n = map (\<lambda>i. of_nat (n div 256 ^ i)) [0..<k]"

definition field :: "nat \<Rightarrow> nat \<Rightarrow> bytes \<Rightarrow> nat" where
  "field off k buf = le_nat (take k (drop off buf))"

definition logcmd_none :: nat where "logcmd_none = 0"
definition logcmd_put :: nat where "logcmd_put = 0x5455506B"
definition logcmd_replace :: nat where "logcmd_replace = 0x3155506B"
definition logcmd_modify :: nat where "logcmd_modify = 0x444F4D6B"
definition logcmd_remove :: nat where "logcmd_remove = 0x4D45526B"
definition logcmd_epoch :: nat where "logcmd_epoch = 0x4F50456B"
definition logcmd_quiesce :: nat where "logcmd_quiesce = 0x4955516B"
definition logcmd_wake :: nat where "logcmd_wake = 0x4B41576B"

lemmas logcmds = logcmd_none_def logcmd_put_def logcmd_replace_def logcmd_modify_def logcmd_remove_def
  logcmd_epoch_def logcmd_quiesce_def logcmd_wake_def

definition logrec_base_size :: nat where "logrec_base_size = 8"
definition logrec_epoch_size :: nat where "logrec_epoch_size = 16"
definition logrec_kv_size :: nat where "logrec_kv_size = 24"
definition logrec_kvdelta_size :: nat where "logrec_kvdelta_size = 32"

lemmas logrec_sizes = logrec_base_size_def logrec_epoch_size_def logrec_kv_size_def logrec_kvdelta_size_def

text \<open>The bytes each \<open>store\<close> writes and the size it returns.\<close>

definition store_base :: "nat \<Rightarrow> bytes \<times> nat" where
  "store_base command = (le_bytes 4 command @ le_bytes 4 logrec_base_size, logrec_base_size)"

definition store_epoch :: "nat \<Rightarrow> u64 \<Rightarrow> bytes \<times> nat" where
  "store_epoch command epoch =
     (le_bytes 4 command @ le_bytes 4 logrec_epoch_size @ le_bytes 8 (unat epoch), logrec_epoch_size)"

definition store_kv :: "nat \<Rightarrow> bytes \<Rightarrow> bytes \<Rightarrow> u64 \<Rightarrow> bytes \<times> nat" where
  "store_kv command key val t =
     (let n = logrec_kv_size + length key + length val
      in (le_bytes 4 command @ le_bytes 4 n @ le_bytes 8 (unat t) @ le_bytes 4 (length key) @ key @ val, n))"

definition store_kvdelta :: "nat \<Rightarrow> bytes \<Rightarrow> bytes \<Rightarrow> u64 \<Rightarrow> u64 \<Rightarrow> bytes \<times> nat" where
  "store_kvdelta command key val prev_ts t =
     (let n = logrec_kvdelta_size + length key + length val
      in (le_bytes 4 command @ le_bytes 4 n @ le_bytes 8 (unat t) @ le_bytes 8 (unat prev_ts) @ le_bytes 4 (length key) @ key @ val, n))"

section \<open>Reading records\<close>

record logrecord =
  lr_command :: nat
  lr_key :: bytes
  lr_val :: bytes
  lr_ts :: u64
  lr_prev_ts :: u64
  lr_epoch :: u64

definition logrecord_init :: logrecord where
  "logrecord_init = \<lparr>lr_command = 0, lr_key = [], lr_val = [], lr_ts = 0, lr_prev_ts = 0, lr_epoch = 0\<rparr>"

text \<open>
  \<open>extract\<close> on the bytes up to the end of the log; it overwrites the fields of the record
  that the command has and returns the bytes behind.
\<close>

definition log_extract :: "nat \<Rightarrow> bytes \<Rightarrow> logrecord \<Rightarrow> logrecord \<times> bytes" where
  "log_extract maxkeylen buf lr =
     (let command = field 0 4 buf; sz = field 4 4 buf; fail = (lr\<lparr>lr_command := logcmd_none\<rparr>, [])
      in if length buf < logrec_base_size \<or> sz < logrec_base_size \<or> length buf < sz \<or> command = logcmd_none then fail
         else if command = logcmd_put \<or> command = logcmd_replace \<or> command = logcmd_remove then
           (let keylen = field 16 4 buf
            in if sz < logrec_kv_size \<or> maxkeylen < keylen \<or> sz < logrec_kv_size + keylen then fail
               else (lr\<lparr>lr_command := command, lr_ts := of_nat (field 8 8 buf), lr_key := take keylen (drop 20 buf),
                        lr_val := take (sz - logrec_kv_size - keylen) (drop (20 + keylen) buf)\<rparr>, drop sz buf))
         else if command = logcmd_modify then
           (let keylen = field 24 4 buf
            in if maxkeylen < keylen \<or> sz < logrec_kvdelta_size + keylen then fail
               else (lr\<lparr>lr_command := command, lr_ts := of_nat (field 8 8 buf), lr_prev_ts := of_nat (field 16 8 buf),
                        lr_key := take keylen (drop 28 buf),
                        lr_val := take (sz - logrec_kvdelta_size - keylen) (drop (28 + keylen) buf)\<rparr>, drop sz buf))
         else if command = logcmd_epoch then
           (if sz < logrec_epoch_size then fail
            else (lr\<lparr>lr_command := command, lr_epoch := of_nat (field 8 8 buf)\<rparr>, drop sz buf))
         else (lr\<lparr>lr_command := command\<rparr>, drop sz buf))"

section \<open>Writing\<close>

record query_times =
  qt_epoch :: u64
  qt_ts :: u64
  qt_prev_ts :: u64

record loginfo =
  li_buf :: bytes
  li_pos :: nat
  li_waiting :: bool
  log_epoch :: u64
  quiescent_epoch :: u64
  wake_epoch :: u64
  flushed_epoch :: u64
  x_buf :: bytes
  log_file :: bytes

definition loginfo_init :: "bytes \<Rightarrow> bytes \<Rightarrow> bytes \<Rightarrow> loginfo" where
  "loginfo_init buf xbuf file =
     \<lparr>li_buf = buf, li_pos = 0, li_waiting = False, log_epoch = 0, quiescent_epoch = 0, wake_epoch = 0, flushed_epoch = 0,
      x_buf = xbuf, log_file = file\<rparr>"

definition quiescent :: "loginfo \<Rightarrow> bool" where
  "quiescent li \<longleftrightarrow> quiescent_epoch li \<noteq> 0 \<and> quiescent_epoch li = flushed_epoch li"

text \<open>Storing a record at the position and moving on.\<close>

definition put_record :: "bytes \<times> nat \<Rightarrow> loginfo \<Rightarrow> loginfo" where
  "put_record r li = li\<lparr>li_buf := buf_write (li_buf li) (li_pos li) (fst r), li_pos := li_pos li + snd r\<rparr>"

text \<open>
  \<open>loginfo::record\<close> for the thread that holds the lock of the log, with the global wake epoch;
  the compare-and-swap loop ends with the wake epoch raised to the query's.
\<close>

definition record_epoch :: "query_times \<Rightarrow> loginfo \<Rightarrow> loginfo" where
  "record_epoch qt li =
     (if qt_epoch qt \<noteq> log_epoch li then put_record (store_epoch logcmd_epoch (qt_epoch qt)) (li\<lparr>log_epoch := qt_epoch qt\<rparr>) else li)"

definition record_unquiesce :: "query_times \<Rightarrow> loginfo \<times> u64 \<Rightarrow> loginfo \<times> u64" where
  "record_unquiesce qt = (\<lambda>(li, we).
     if quiescent_epoch li \<noteq> 0 then
       (li\<lparr>flushed_epoch := (if flushed_epoch li = quiescent_epoch li then qt_epoch qt else flushed_epoch li), quiescent_epoch := 0\<rparr>,
        if circ_less we (qt_epoch qt) then qt_epoch qt else we)
     else (li, we))"

definition record_wake :: "query_times \<Rightarrow> u64 \<Rightarrow> loginfo \<Rightarrow> loginfo" where
  "record_wake qt gwe li =
     (let we = (if gwe \<noteq> wake_epoch li \<and> circ_less (qt_epoch qt) gwe then qt_epoch qt else gwe)
      in if we \<noteq> wake_epoch li then put_record (store_base logcmd_wake) (li\<lparr>wake_epoch := we\<rparr>) else li)"

definition record_kv :: "nat \<Rightarrow> query_times \<Rightarrow> bytes \<Rightarrow> bytes \<Rightarrow> loginfo \<Rightarrow> loginfo" where
  "record_kv command qt key val li =
     put_record
       (if command = logcmd_put \<and> qt_prev_ts qt \<noteq> 0 \<and> qt_prev_ts qt AND 1 = 0
        then store_kvdelta logcmd_modify key val (qt_prev_ts qt) (qt_ts qt)
        else store_kv command key val (qt_ts qt)) li"

definition record_log :: "nat \<Rightarrow> query_times \<Rightarrow> bytes \<Rightarrow> bytes \<Rightarrow> loginfo \<times> u64 \<Rightarrow> (loginfo \<times> u64) option" where
  "record_log command qt key val = (\<lambda>(li, we).
     if length (li_buf li) - li_pos li < logrec_kvdelta_size + length key + length val + logrec_epoch_size + logrec_base_size
        \<or> li_waiting li then None
     else (let (li1, we1) = record_unquiesce qt (record_epoch qt li, we)
           in Some (record_kv command qt key val (record_wake qt we1 li1), we1)))"

text \<open>The other \<open>record\<close>, which packs the request of a put.\<close>

definition record_request :: "nat \<Rightarrow> query_times \<Rightarrow> bytes \<Rightarrow> json list \<Rightarrow> loginfo \<times> u64 \<Rightarrow> (loginfo \<times> u64) option" where
  "record_request command qt key req =
     record_log command qt key (write_array_header (length req) @ concat (map unparse_json req))"

text \<open>One round of the logger thread, given the global epochs.\<close>

definition logger_quiesce :: "bool \<Rightarrow> u64 \<Rightarrow> u64 \<Rightarrow> loginfo \<Rightarrow> loginfo" where
  "logger_quiesce recovering ge we li =
     (if \<not> recovering \<and> li_pos li = 0 \<and> quiescent_epoch li = 0 \<and> ge \<noteq> log_epoch li \<and> ge \<noteq> we \<and> \<not> li_waiting li then
        (let li1 = put_record (store_epoch logcmd_epoch ge) (li\<lparr>quiescent_epoch := ge, log_epoch := ge\<rparr>);
             li2 = (if ge = wake_epoch li then put_record (store_base logcmd_wake) li1 else li1)
         in put_record (store_base logcmd_quiesce) li2)
      else li)"

definition logger_flush :: "bool \<Rightarrow> loginfo \<Rightarrow> loginfo" where
  "logger_flush recovering li =
     (if \<not> recovering \<and> li_pos li > 0 then
        li\<lparr>li_buf := x_buf li, x_buf := li_buf li, li_pos := 0, log_file := log_file li @ take (li_pos li) (li_buf li),
           flushed_epoch := log_epoch li\<rparr>
      else li)"

definition logger_round :: "bool \<Rightarrow> u64 \<Rightarrow> u64 \<Rightarrow> loginfo \<Rightarrow> loginfo" where
  "logger_round recovering ge we li =
     (let li1 = (if wake_epoch li \<noteq> we then li\<lparr>wake_epoch := we, quiescent_epoch := 0\<rparr> else li)
      in logger_flush recovering (logger_quiesce recovering ge we li1))"

section \<open>The entries of a log\<close>

datatype lentry =
    E_epoch u64
  | E_wake
  | E_quiesce
  | E_kv nat bytes bytes u64
  | E_delta bytes bytes u64 u64

fun entry_store :: "lentry \<Rightarrow> bytes \<times> nat" where
  "entry_store (E_epoch e) = store_epoch logcmd_epoch e"
| "entry_store E_wake = store_base logcmd_wake"
| "entry_store E_quiesce = store_base logcmd_quiesce"
| "entry_store (E_kv c k v t) = store_kv c k v t"
| "entry_store (E_delta k v p t) = store_kvdelta logcmd_modify k v p t"

fun entry_ok :: "nat \<Rightarrow> lentry \<Rightarrow> bool" where
  "entry_ok m (E_kv c k v t) \<longleftrightarrow> c \<in> {logcmd_put, logcmd_replace, logcmd_remove} \<and> length k \<le> m \<and> logrec_kv_size + length k + length v < 2 ^ 32"
| "entry_ok m (E_delta k v p t) \<longleftrightarrow> length k \<le> m \<and> logrec_kvdelta_size + length k + length v < 2 ^ 32"
| "entry_ok m _ \<longleftrightarrow> True"

definition entry_of :: "logrecord \<Rightarrow> lentry option" where
  "entry_of lr =
     (let c = lr_command lr
      in if c = logcmd_epoch then Some (E_epoch (lr_epoch lr))
         else if c = logcmd_wake then Some E_wake
         else if c = logcmd_quiesce then Some E_quiesce
         else if c = logcmd_put \<or> c = logcmd_replace \<or> c = logcmd_remove then Some (E_kv c (lr_key lr) (lr_val lr) (lr_ts lr))
         else if c = logcmd_modify then Some (E_delta (lr_key lr) (lr_val lr) (lr_prev_ts lr) (lr_ts lr))
         else None)"

definition read_entry :: "nat \<Rightarrow> bytes \<Rightarrow> (lentry \<times> bytes) option" where
  "read_entry m buf = (case log_extract m buf logrecord_init of (lr, rest) \<Rightarrow> map_option (\<lambda>e. (e, rest)) (entry_of lr))"

text \<open>The bytes of an entry: what is stored, then the padding.\<close>

definition entry_bytes :: "lentry \<times> bytes \<Rightarrow> bytes" where
  "entry_bytes = (\<lambda>(e, pad). fst (entry_store e) @ pad)"

definition padded :: "nat \<Rightarrow> lentry \<times> bytes \<Rightarrow> bool" where
  "padded m = (\<lambda>(e, pad). entry_ok m e \<and> length (entry_bytes (e, pad)) = snd (entry_store e))"

lemma length_le_bytes [simp]: "length (le_bytes k n) = k"
  by (simp add: le_bytes_def)

lemma le_nat_le_bytes: "le_nat (le_bytes k n) = n mod 256 ^ k"
  by (simp add: le_bytes_def le_nat_digits)

lemma field_at: "take k (drop off buf) = le_bytes k n \<Longrightarrow> n < 256 ^ k \<Longrightarrow> field off k buf = n"
  by (simp add: field_def le_nat_le_bytes)

lemmas stores = store_base_def store_epoch_def store_kv_def store_kvdelta_def Let_def

lemma unat_u64: "unat (x :: u64) < 18446744073709551616"
  using unat_bounds(2) [of x] by simp

lemma read_entry_bytes:
  assumes "padded m x"
  shows "read_entry m (entry_bytes x @ rest) = Some (fst x, rest)"
proof -
  obtain e pad where x: "x = (e, pad)" by (cases x)
  show ?thesis
  proof (cases e)
    case (E_epoch ep)
    let ?b = "le_bytes 4 logcmd_epoch @ le_bytes 4 logrec_epoch_size @ le_bytes 8 (unat ep) @ rest"
    have "pad = []" using assms x E_epoch by (simp add: padded_def entry_bytes_def stores logrec_sizes)
    moreover have "field 0 4 ?b = logcmd_epoch" "field 4 4 ?b = logrec_epoch_size" "field 8 8 ?b = unat ep"
      by (rule field_at; auto simp: logcmds logrec_sizes unat_u64)+
    ultimately show ?thesis using x E_epoch
      by (simp add: read_entry_def log_extract_def entry_of_def entry_bytes_def stores Let_def logcmds logrec_sizes)
  next
    case (E_kv c k v t)
    let ?n = "logrec_kv_size + length k + length v"
    let ?b = "le_bytes 4 c @ le_bytes 4 ?n @ le_bytes 8 (unat t) @ le_bytes 4 (length k) @ k @ v @ pad @ rest"
    have c: "c \<in> {logcmd_put, logcmd_replace, logcmd_remove}" "length k \<le> m" "?n < 2 ^ 32" "length pad = 4"
      using assms x E_kv by (auto simp: padded_def entry_bytes_def stores logrec_sizes)
    have "field 0 4 ?b = c" "field 4 4 ?b = ?n" "field 8 8 ?b = unat t" "field 16 4 ?b = length k"
      by (rule field_at; use c in \<open>auto simp: logcmds logrec_sizes unat_u64\<close>)+
    then show ?thesis using x E_kv c
      by (auto simp: read_entry_def log_extract_def entry_of_def entry_bytes_def stores Let_def logcmds logrec_sizes)
  next
    case (E_delta k v p t)
    let ?n = "logrec_kvdelta_size + length k + length v"
    let ?b = "le_bytes 4 logcmd_modify @ le_bytes 4 ?n @ le_bytes 8 (unat t) @ le_bytes 8 (unat p) @ le_bytes 4 (length k) @ k @ v @ pad @ rest"
    have c: "length k \<le> m" "?n < 2 ^ 32" "length pad = 4"
      using assms x E_delta by (auto simp: padded_def entry_bytes_def stores logrec_sizes)
    have "field 0 4 ?b = logcmd_modify" "field 4 4 ?b = ?n" "field 8 8 ?b = unat t" "field 16 8 ?b = unat p" "field 24 4 ?b = length k"
      by (rule field_at; use c in \<open>auto simp: logcmds logrec_sizes unat_u64\<close>)+
    then show ?thesis using x E_delta c
      by (auto simp: read_entry_def log_extract_def entry_of_def entry_bytes_def stores Let_def logcmds logrec_sizes)
  next
    case E_wake
    let ?b = "le_bytes 4 logcmd_wake @ le_bytes 4 logrec_base_size @ rest"
    have "pad = []" using assms x E_wake by (simp add: padded_def entry_bytes_def stores logrec_sizes)
    moreover have "field 0 4 ?b = logcmd_wake" "field 4 4 ?b = logrec_base_size"
      by (rule field_at; auto simp: logcmds logrec_sizes unat_u64)+
    ultimately show ?thesis using x E_wake
      by (simp add: read_entry_def log_extract_def entry_of_def entry_bytes_def stores Let_def logcmds logrec_sizes)
  next
    case E_quiesce
    let ?b = "le_bytes 4 logcmd_quiesce @ le_bytes 4 logrec_base_size @ rest"
    have "pad = []" using assms x E_quiesce by (simp add: padded_def entry_bytes_def stores logrec_sizes)
    moreover have "field 0 4 ?b = logcmd_quiesce" "field 4 4 ?b = logrec_base_size"
      by (rule field_at; auto simp: logcmds logrec_sizes unat_u64)+
    ultimately show ?thesis using x E_quiesce
      by (simp add: read_entry_def log_extract_def entry_of_def entry_bytes_def stores Let_def logcmds logrec_sizes)
  qed
qed


lemma field_take: "off + k \<le> n \<Longrightarrow> field off k (take n buf) = field off k buf"
  by (simp add: field_def drop_take min_def)

lemma read_entry_truncated:
  assumes "padded m x" "n < length (entry_bytes x)"
  shows "read_entry m (take n (entry_bytes x)) = None"
proof (cases "n < 8")
  case True
  then show ?thesis using assms(2) by (simp add: read_entry_def log_extract_def entry_of_def logcmds logrec_sizes Let_def)
next
  case False
  have "field 4 4 (take n (entry_bytes x)) = field 4 4 (entry_bytes x)" using False by (simp add: field_take)
  moreover have "field 4 4 (entry_bytes x) = length (entry_bytes x)"
  proof -
    obtain e pad where x: "x = (e, pad)" by (cases x)
    have "length (entry_bytes x) = snd (entry_store e)" "entry_ok m e" using assms(1) x by (simp_all add: padded_def)
    moreover have "field 4 4 (entry_bytes x) = snd (entry_store e)"
      using calculation(2) x by (cases e; intro field_at) (auto simp: entry_bytes_def stores logrec_sizes)
    ultimately show ?thesis by simp
  qed
  ultimately have "log_extract m (take n (entry_bytes x)) logrecord_init = (logrecord_init\<lparr>lr_command := logcmd_none\<rparr>, [])"
    using assms(2) by (simp add: log_extract_def Let_def)
  then show ?thesis by (simp add: read_entry_def entry_of_def logcmds)
qed

text \<open>Reading entries as long as there are any.\<close>

function read_all :: "(bytes \<Rightarrow> ('a \<times> bytes) option) \<Rightarrow> bytes \<Rightarrow> 'a list" where
  "read_all rd bs =
     (case rd bs of
        None \<Rightarrow> []
      | Some (x, rest) \<Rightarrow> x # (if length rest < length bs then read_all rd rest else []))"
  by pat_completeness auto
termination by (relation "measure (\<lambda>(rd, bs). length bs)") auto

declare read_all.simps [simp del]

text \<open>A format of records that are recognised as incomplete when they are cut off.\<close>

locale record_format = wire_format encode decode ok view
  for encode :: "'a \<Rightarrow> bytes" and decode :: "bytes \<Rightarrow> ('b \<times> bytes) option" and ok :: "'a \<Rightarrow> bool" and view :: "'a \<Rightarrow> 'b" +
  assumes decode_truncated: "ok x \<Longrightarrow> n < length (encode x) \<Longrightarrow> decode (take n (encode x)) = None"
    and decode_Nil: "decode [] = None"
begin

lemma encode_not_Nil: "ok x \<Longrightarrow> 0 < length (encode x)"
  using decode_encode [of x "[]"] decode_Nil by fastforce

lemma read_all_Nil: "read_all decode [] = []"
  by (simp add: read_all.simps [of decode "[]"] decode_Nil)

lemma read_all_Cons: "ok x \<Longrightarrow> read_all decode (encode x @ bs) = view x # read_all decode bs"
  using encode_not_Nil [of x] by (simp add: read_all.simps [of decode "encode x @ bs"] decode_encode)

lemma read_all_encoded: "(\<And>x. x \<in> set xs \<Longrightarrow> ok x) \<Longrightarrow> read_all decode (concat (map encode xs)) = map view xs"
  by (induction xs) (simp_all add: read_all_Nil read_all_Cons)

lemma read_all_truncated:
  "(\<And>x. x \<in> set xs \<Longrightarrow> ok x) \<Longrightarrow> \<exists>j. read_all decode (take n (concat (map encode xs))) = take j (map view xs)"
proof (induction xs arbitrary: n)
  case (Cons x xs)
  show ?case
  proof (cases "n < length (encode x)")
    case True
    then show ?thesis using decode_truncated [of x n] Cons.prems by (intro exI [of _ 0]) (simp add: read_all.simps)
  next
    case False
    obtain j where "read_all decode (take (n - length (encode x)) (concat (map encode xs))) = take j (map view xs)"
      using Cons.IH Cons.prems by (metis list.set_intros(2))
    then show ?thesis using False Cons.prems by (intro exI [of _ "Suc j"]) (simp add: read_all_Cons)
  qed
qed (simp add: read_all_Nil)

end

interpretation log_format: record_format entry_bytes "read_entry m" "padded m" fst for m
proof unfold_locales
  show "read_entry m [] = None" by (simp add: read_entry_def log_extract_def entry_of_def logcmds logrec_sizes Let_def)
qed (simp_all add: read_entry_bytes read_entry_truncated)

section \<open>What a log holds\<close>

text \<open>Every change with the epoch that the last epoch record before it announced.\<close>

fun attribute :: "u64 \<Rightarrow> lentry list \<Rightarrow> (u64 \<times> lentry) list" where
  "attribute e [] = []"
| "attribute e (E_epoch e' # es) = attribute e' es"
| "attribute e (E_wake # es) = attribute e es"
| "attribute e (E_quiesce # es) = attribute e es"
| "attribute e (x # es) = (e, x) # attribute e es"

fun last_epoch :: "u64 \<Rightarrow> lentry list \<Rightarrow> u64" where
  "last_epoch e [] = e"
| "last_epoch e (E_epoch e' # es) = last_epoch e' es"
| "last_epoch e (x # es) = last_epoch e es"

lemma attribute_append: "attribute e (xs @ ys) = attribute e xs @ attribute (last_epoch e xs) ys"
  by (induction e xs rule: attribute.induct) simp_all

lemma last_epoch_append: "last_epoch e (xs @ ys) = last_epoch (last_epoch e xs) ys"
  by (induction e xs rule: last_epoch.induct) simp_all

text \<open>The change a query makes.\<close>

definition query_entry :: "nat \<Rightarrow> query_times \<Rightarrow> bytes \<Rightarrow> bytes \<Rightarrow> lentry" where
  "query_entry command qt key val =
     (if command = logcmd_put \<and> qt_prev_ts qt \<noteq> 0 \<and> qt_prev_ts qt AND 1 = 0 then E_delta key val (qt_prev_ts qt) (qt_ts qt)
      else E_kv command key val (qt_ts qt))"

text \<open>
  The runs of one log from an empty file: queries are recorded and the logger goes round, in
  any order; the list collects the recorded changes and their epochs.  The epoch of a query
  is read from the global epoch under the lock of the log, so it is not before the epoch of
  the log; the same holds for the epoch that the logger reads.  Epochs do not wrap around.
\<close>

inductive log_reach :: "nat \<Rightarrow> loginfo \<Rightarrow> (u64 \<times> lentry) list \<Rightarrow> bool" for m where
  log_start: "length buf = length xbuf \<Longrightarrow> 32 \<le> length buf \<Longrightarrow> log_reach m (loginfo_init buf xbuf []) []"
| log_record: "log_reach m li qs \<Longrightarrow> log_epoch li \<le> qt_epoch qt \<Longrightarrow> entry_ok m (query_entry command qt key val)
     \<Longrightarrow> record_log command qt key val (li, we) = Some (li', we')
     \<Longrightarrow> log_reach m li' (qs @ [(qt_epoch qt, query_entry command qt key val)])"
| log_round: "log_reach m li qs \<Longrightarrow> log_epoch li \<le> ge \<Longrightarrow> log_reach m (logger_round recovering ge we li) qs"
| log_wait: "log_reach m li qs \<Longrightarrow> log_reach m (li\<lparr>li_waiting := b\<rparr>) qs"

text \<open>The entries \<open>xs\<close> are in the file and the entries \<open>ys\<close> in the buffer.\<close>

definition log_holds :: "nat \<Rightarrow> loginfo \<Rightarrow> (lentry \<times> bytes) list \<Rightarrow> (lentry \<times> bytes) list \<Rightarrow> bool" where
  "log_holds m li xs ys \<longleftrightarrow> length (li_buf li) = length (x_buf li) \<and> 32 \<le> length (li_buf li) \<and> li_pos li \<le> length (li_buf li)
     \<and> list_all (padded m) (xs @ ys) \<and> log_file li = concat (map entry_bytes xs)
     \<and> take (li_pos li) (li_buf li) = concat (map entry_bytes ys)"

definition log_inv :: "nat \<Rightarrow> loginfo \<Rightarrow> (u64 \<times> lentry) list \<Rightarrow> bool" where
  "log_inv m li qs \<longleftrightarrow> (\<exists>xs ys. log_holds m li xs ys \<and> attribute 0 (map fst (xs @ ys)) = qs \<and> last_epoch 0 (map fst (xs @ ys)) = log_epoch li
     \<and> (\<forall>(e, c) \<in> set (attribute (last_epoch 0 (map fst xs)) (map fst ys)). flushed_epoch li \<le> e)
     \<and> flushed_epoch li \<le> log_epoch li \<and> (quiescent_epoch li \<noteq> 0 \<longrightarrow> ys = []))"

lemma entry_store_length: "length (fst (entry_store e)) \<le> snd (entry_store e)"
  by (cases e) (simp_all add: stores logrec_sizes)

lemma put_record_holds:
  assumes "log_holds m li xs ys" "entry_ok m e" "li_pos li + snd (entry_store e) \<le> length (li_buf li)"
  shows "\<exists>pad. log_holds m (put_record (entry_store e) li) xs (ys @ [(e, pad)])"
proof -
  let ?s = "fst (entry_store e)" and ?n = "snd (entry_store e)" and ?p = "li_pos li" and ?b = "li_buf li"
  let ?pad = "take (?n - length ?s) (drop (?p + length ?s) ?b)"
  note len = entry_store_length [of e]
  have "take (?p + ?n) (buf_write ?b ?p ?s) = take ?p ?b @ ?s @ ?pad"
    using assms(3) len by (auto simp: buf_write_def min_def take_drop)
  moreover have "length (buf_write ?b ?p ?s) = length ?b" using assms(3) len by (simp add: buf_write_def)
  moreover have "padded m (e, ?pad)" using assms(2,3) len by (simp add: padded_def entry_bytes_def)
  ultimately show ?thesis using assms(1,3) by (intro exI [of _ ?pad]) (simp add: log_holds_def put_record_def entry_bytes_def)
qed

lemma put_record_fields [simp]:
  "log_epoch (put_record r li) = log_epoch li" "quiescent_epoch (put_record r li) = quiescent_epoch li"
  "wake_epoch (put_record r li) = wake_epoch li" "flushed_epoch (put_record r li) = flushed_epoch li"
  "li_pos (put_record r li) = li_pos li + snd r" "li_waiting (put_record r li) = li_waiting li"
  by (simp_all add: put_record_def)

lemma length_put_record: "li_pos li + length (fst r) \<le> length (li_buf li) \<Longrightarrow> length (li_buf (put_record r li)) = length (li_buf li)"
  by (simp add: put_record_def buf_write_def)

lemma log_holds_update [simp]:
  "log_holds m (li\<lparr>log_epoch := e\<rparr>) = log_holds m li" "log_holds m (li\<lparr>quiescent_epoch := e\<rparr>) = log_holds m li"
  "log_holds m (li\<lparr>wake_epoch := e\<rparr>) = log_holds m li" "log_holds m (li\<lparr>flushed_epoch := e\<rparr>) = log_holds m li"
  "log_holds m (li\<lparr>li_waiting := b\<rparr>) = log_holds m li"
  by (simp_all add: log_holds_def fun_eq_iff)


text \<open>An operation that appends the entries \<open>es\<close>, of at most \<open>n\<close> bytes, and keeps the epochs but the one of the log.\<close>

definition appends :: "nat \<Rightarrow> lentry list \<Rightarrow> nat \<Rightarrow> loginfo \<Rightarrow> loginfo \<Rightarrow> bool" where
  "appends m es n li li' \<longleftrightarrow> (\<forall>xs ys. log_holds m li xs ys \<longrightarrow> li_pos li + n \<le> length (li_buf li)
     \<longrightarrow> (\<exists>zs. log_holds m li' xs (ys @ zs) \<and> map fst zs = es \<and> li_pos li' \<le> li_pos li + n \<and> length (li_buf li') = length (li_buf li)))"

lemma appends_refl: "appends m [] n li li"
  by (auto simp: appends_def)

lemma appends_put:
  assumes "entry_ok m e" "snd (entry_store e) \<le> n"
  shows "appends m [e] n li (put_record (entry_store e) li)"
  unfolding appends_def
proof (intro allI impI)
  fix xs ys
  assume h: "log_holds m li xs ys" "li_pos li + n \<le> length (li_buf li)"
  then obtain pad where "log_holds m (put_record (entry_store e) li) xs (ys @ [(e, pad)])"
    using put_record_holds [OF h(1) assms(1)] assms(2) by fastforce
  then show "\<exists>zs. log_holds m (put_record (entry_store e) li) xs (ys @ zs) \<and> map fst zs = [e]
     \<and> li_pos (put_record (entry_store e) li) \<le> li_pos li + n \<and> length (li_buf (put_record (entry_store e) li)) = length (li_buf li)"
    using assms(2) h(2) entry_store_length [of e] by (intro exI [of _ "[(e, pad)]"]) (simp add: length_put_record)
qed

lemma appends_trans:
  assumes "appends m es n li li1" "appends m es' n' li1 li2"
  shows "appends m (es @ es') (n + n') li li2"
  unfolding appends_def
proof (intro allI impI)
  fix xs ys
  assume h: "log_holds m li xs ys" "li_pos li + (n + n') \<le> length (li_buf li)"
  then obtain zs where z: "log_holds m li1 xs (ys @ zs)" "map fst zs = es" "li_pos li1 \<le> li_pos li + n" "length (li_buf li1) = length (li_buf li)"
    using assms(1) unfolding appends_def by fastforce
  then obtain zs' where "log_holds m li2 xs ((ys @ zs) @ zs')" "map fst zs' = es'" "li_pos li2 \<le> li_pos li1 + n'" "length (li_buf li2) = length (li_buf li1)"
    using assms(2) h(2) unfolding appends_def by fastforce
  then show "\<exists>zs. log_holds m li2 xs (ys @ zs) \<and> map fst zs = es @ es' \<and> li_pos li2 \<le> li_pos li + (n + n') \<and> length (li_buf li2) = length (li_buf li)"
    using z by (intro exI [of _ "zs @ zs'"]) simp
qed

lemma appends_fields [simp]:
  "appends m es n (li\<lparr>log_epoch := a\<rparr>) li' = appends m es n li li'" "appends m es n li (li'\<lparr>log_epoch := a\<rparr>) = appends m es n li li'"
  "appends m es n (li\<lparr>quiescent_epoch := a\<rparr>) li' = appends m es n li li'" "appends m es n li (li'\<lparr>quiescent_epoch := a\<rparr>) = appends m es n li li'"
  "appends m es n (li\<lparr>wake_epoch := a\<rparr>) li' = appends m es n li li'" "appends m es n li (li'\<lparr>wake_epoch := a\<rparr>) = appends m es n li li'"
  "appends m es n (li\<lparr>flushed_epoch := a\<rparr>) li' = appends m es n li li'" "appends m es n li (li'\<lparr>flushed_epoch := a\<rparr>) = appends m es n li li'"
  by (simp_all add: appends_def)

lemma record_epoch_appends:
  "appends m (if qt_epoch qt \<noteq> log_epoch li then [E_epoch (qt_epoch qt)] else []) logrec_epoch_size li (record_epoch qt li)"
  using appends_put [of m "E_epoch (qt_epoch qt)" logrec_epoch_size "li\<lparr>log_epoch := qt_epoch qt\<rparr>"] appends_refl [of m logrec_epoch_size li]
  by (simp add: record_epoch_def store_epoch_def)

lemma record_wake_appends: "\<exists>ws. set ws \<subseteq> {E_wake} \<and> appends m ws logrec_base_size li (record_wake qt we li)"
proof -
  have "appends m [E_wake] logrec_base_size li (put_record (store_base logcmd_wake) (li\<lparr>wake_epoch := w\<rparr>))" for w
    using appends_put [of m E_wake logrec_base_size "li\<lparr>wake_epoch := w\<rparr>"] by (simp add: store_base_def)
  then show ?thesis using appends_refl [of m logrec_base_size li]
    by (auto simp: record_wake_def Let_def intro: exI [of _ "[]"] exI [of _ "[E_wake]"])
qed

lemma record_kv_appends:
  "entry_ok m (query_entry command qt key val)
   \<Longrightarrow> appends m [query_entry command qt key val] (logrec_kvdelta_size + length key + length val) li (record_kv command qt key val li)"
  using appends_put [of m "query_entry command qt key val" "logrec_kvdelta_size + length key + length val" li]
  by (auto simp: record_kv_def query_entry_def stores logrec_sizes split: if_splits)

lemma record_log_appends:
  assumes "record_log command qt key val (li, we) = Some (li', we')" "entry_ok m (query_entry command qt key val)"
  defines "n \<equiv> logrec_epoch_size + (logrec_base_size + (logrec_kvdelta_size + length key + length val))"
  shows "li_pos li + n \<le> length (li_buf li)"
    "\<exists>ws. set ws \<subseteq> {E_wake} \<and> appends m ((if qt_epoch qt \<noteq> log_epoch li then [E_epoch (qt_epoch qt)] else []) @ ws @ [query_entry command qt key val]) n li li'"
    "log_epoch li' = qt_epoch qt" "quiescent_epoch li' = 0"
    "flushed_epoch li' = (if quiescent_epoch li \<noteq> 0 \<and> flushed_epoch li = quiescent_epoch li then qt_epoch qt else flushed_epoch li)"
proof -
  obtain li1 where u: "record_unquiesce qt (record_epoch qt li, we) = (li1, we')"
    and li': "li' = record_kv command qt key val (record_wake qt we' li1)" and room: "\<not> length (li_buf li) - li_pos li < n"
    using assms(1) by (auto simp: record_log_def n_def logrec_sizes split: if_splits prod.splits)
  show "li_pos li + n \<le> length (li_buf li)" using room by (simp add: n_def logrec_sizes)
  have e: "log_epoch (record_epoch qt li) = qt_epoch qt" "quiescent_epoch (record_epoch qt li) = quiescent_epoch li"
    "flushed_epoch (record_epoch qt li) = flushed_epoch li" by (simp_all add: record_epoch_def)
  have "appends m [] 0 (record_epoch qt li) li1" "log_epoch li1 = qt_epoch qt" "quiescent_epoch li1 = 0"
    "flushed_epoch li1 = (if quiescent_epoch li \<noteq> 0 \<and> flushed_epoch li = quiescent_epoch li then qt_epoch qt else flushed_epoch li)"
    using u e appends_refl [of m 0 "record_epoch qt li"] by (auto simp: record_unquiesce_def split: if_splits)
  moreover obtain ws where ws: "set ws \<subseteq> {E_wake}" "appends m ws logrec_base_size li1 (record_wake qt we' li1)" using record_wake_appends by blast
  moreover note appends_trans [OF record_epoch_appends appends_trans [OF calculation(1) appends_trans [OF ws(2) record_kv_appends [OF assms(2)]]]]
  ultimately show "\<exists>ws. set ws \<subseteq> {E_wake} \<and> appends m ((if qt_epoch qt \<noteq> log_epoch li then [E_epoch (qt_epoch qt)] else []) @ ws @ [query_entry command qt key val]) n li li'"
    "log_epoch li' = qt_epoch qt" "quiescent_epoch li' = 0"
    "flushed_epoch li' = (if quiescent_epoch li \<noteq> 0 \<and> flushed_epoch li = quiescent_epoch li then qt_epoch qt else flushed_epoch li)"
    by (auto simp: li' n_def record_kv_def record_wake_def Let_def)
qed


lemma attribute_wakes: "set ws \<subseteq> {E_wake, E_quiesce} \<Longrightarrow> attribute e ws = [] \<and> last_epoch e ws = e"
  by (induction ws) auto

lemma attribute_query: "attribute e [query_entry c qt k v] = [(e, query_entry c qt k v)]" "last_epoch e [query_entry c qt k v] = e"
  by (simp_all add: query_entry_def)

lemma log_inv_record:
  assumes "log_inv m li qs" "log_epoch li \<le> qt_epoch qt" "entry_ok m (query_entry command qt key val)"
    "record_log command qt key val (li, we) = Some (li', we')"
  shows "log_inv m li' (qs @ [(qt_epoch qt, query_entry command qt key val)])"
proof -
  note r = record_log_appends [OF assms(4,3)]
  obtain xs ys where h: "log_holds m li xs ys" and q: "attribute 0 (map fst (xs @ ys)) = qs" and e: "last_epoch 0 (map fst (xs @ ys)) = log_epoch li"
    and fl: "\<forall>(e, c) \<in> set (attribute (last_epoch 0 (map fst xs)) (map fst ys)). flushed_epoch li \<le> e"
    and le: "flushed_epoch li \<le> log_epoch li" and qu: "quiescent_epoch li \<noteq> 0 \<longrightarrow> ys = []"
    using assms(1) unfolding log_inv_def by blast
  let ?c = "query_entry command qt key val" and ?e = "qt_epoch qt"
  obtain ws where ws: "set ws \<subseteq> {E_wake}" and ap: "appends m ((if ?e \<noteq> log_epoch li then [E_epoch ?e] else []) @ ws @ [?c])
      (logrec_epoch_size + (logrec_base_size + (logrec_kvdelta_size + length key + length val))) li li'" using r(2) by blast
  obtain zs where z: "log_holds m li' xs (ys @ zs)" "map fst zs = (if ?e \<noteq> log_epoch li then [E_epoch ?e] else []) @ ws @ [?c]"
    using ap h r(1) unfolding appends_def by blast
  have "attribute x ws = []" "last_epoch x ws = x" for x using attribute_wakes [of ws x] ws by auto
  then have att: "attribute (log_epoch li) (map fst zs) = [(?e, ?c)]" "last_epoch (log_epoch li) (map fst zs) = ?e"
    by (simp_all add: z(2) attribute_append last_epoch_append attribute_query)
  have e': "last_epoch (last_epoch 0 (map fst xs)) (map fst ys) = log_epoch li" using e by (simp add: last_epoch_append)
  have "flushed_epoch li' \<le> ?e" using r(5) le assms(2) by auto
  moreover have "\<forall>(x, c) \<in> set (attribute (last_epoch 0 (map fst xs)) (map fst (ys @ zs))). flushed_epoch li' \<le> x"
    using fl qu r(5) calculation by (auto simp: attribute_append e' att split: if_splits)
  moreover have "attribute 0 (map fst (xs @ ys @ zs)) = qs @ [(?e, ?c)]" "last_epoch 0 (map fst (xs @ ys @ zs)) = ?e"
    using q e' att by (simp_all add: attribute_append last_epoch_append)
  ultimately show ?thesis unfolding log_inv_def using z(1) r(3,4) by (intro exI [of _ xs] exI [of _ "ys @ zs"]) auto
qed

lemma logger_flush_inv:
  assumes "log_holds m li xs ys" "attribute 0 (map fst (xs @ ys)) = qs" "last_epoch 0 (map fst (xs @ ys)) = log_epoch li" "\<not> recovering" "0 < li_pos li"
  shows "log_inv m (logger_flush recovering li) qs"
proof -
  have "log_holds m (logger_flush recovering li) (xs @ ys) []" using assms(1,4,5) by (auto simp: log_holds_def logger_flush_def)
  then show ?thesis unfolding log_inv_def using assms(2-5) by (intro exI [of _ "xs @ ys"] exI [of _ "[]"]) (simp add: logger_flush_def)
qed

lemma logger_quiesce_appends:
  assumes "li_pos li = 0" "quiescent_epoch li = 0" "ge \<noteq> log_epoch li" "ge \<noteq> we" "\<not> li_waiting li"
  shows "\<exists>ws. set ws \<subseteq> {E_wake} \<and> appends m ([E_epoch ge] @ ws @ [E_quiesce]) 32 li (logger_quiesce False ge we li)"
    "log_epoch (logger_quiesce False ge we li) = ge" "0 < li_pos (logger_quiesce False ge we li)"
proof -
  let ?li1 = "put_record (entry_store (E_epoch ge)) (li\<lparr>quiescent_epoch := ge, log_epoch := ge\<rparr>)"
  define ws where "ws = (if ge = wake_epoch li then [E_wake] else [])"
  define li2 where "li2 = (if ge = wake_epoch li then put_record (entry_store E_wake) ?li1 else ?li1)"
  have q: "logger_quiesce False ge we li = put_record (entry_store E_quiesce) li2"
    using assms by (simp add: logger_quiesce_def li2_def Let_def)
  have "appends m [E_epoch ge] 16 li ?li1" using appends_put [of m "E_epoch ge" 16 "li\<lparr>quiescent_epoch := ge, log_epoch := ge\<rparr>"] by (simp add: stores logrec_sizes)
  moreover have "appends m ws 8 ?li1 li2" using appends_put [of m E_wake 8 ?li1] appends_refl [of m 8 ?li1] by (auto simp: ws_def li2_def stores logrec_sizes)
  moreover have "appends m [E_quiesce] 8 li2 (put_record (entry_store E_quiesce) li2)" by (rule appends_put) (simp_all add: stores logrec_sizes)
  ultimately have "appends m ([E_epoch ge] @ ws @ [E_quiesce]) (16 + (8 + 8)) li (put_record (entry_store E_quiesce) li2)" by (intro appends_trans)
  then show "\<exists>ws. set ws \<subseteq> {E_wake} \<and> appends m ([E_epoch ge] @ ws @ [E_quiesce]) 32 li (logger_quiesce False ge we li)"
    using q by (intro exI [of _ ws]) (auto simp: ws_def)
  show "log_epoch (logger_quiesce False ge we li) = ge" "0 < li_pos (logger_quiesce False ge we li)" by (simp_all add: q li2_def stores logrec_sizes)
qed

lemma log_holds_empty: "log_holds m li xs ys \<Longrightarrow> li_pos li = 0 \<Longrightarrow> ys = []"
  using log_format.encode_not_Nil [of m "hd ys"] by (cases ys) (auto simp: log_holds_def)

lemma logger_flush_idle: "recovering \<or> li_pos li = 0 \<Longrightarrow> logger_flush recovering li = li"
  by (auto simp: logger_flush_def)

lemma log_inv_round:
  assumes "log_inv m li qs" "log_epoch li \<le> ge"
  shows "log_inv m (logger_round recovering ge we li) qs"
proof -
  define li1 where "li1 = (if wake_epoch li \<noteq> we then li\<lparr>wake_epoch := we, quiescent_epoch := 0\<rparr> else li)"
  have inv: "log_inv m li1 qs" "log_epoch li1 \<le> ge" using assms by (auto simp: li1_def log_inv_def)
  have round: "logger_round recovering ge we li = logger_flush recovering (logger_quiesce recovering ge we li1)"
    by (simp add: logger_round_def li1_def Let_def)
  obtain xs ys where h: "log_holds m li1 xs ys" and q: "attribute 0 (map fst (xs @ ys)) = qs" and e: "last_epoch 0 (map fst (xs @ ys)) = log_epoch li1"
    using inv(1) unfolding log_inv_def by blast
  show ?thesis
  proof (cases "\<not> recovering \<and> li_pos li1 = 0 \<and> quiescent_epoch li1 = 0 \<and> ge \<noteq> log_epoch li1 \<and> ge \<noteq> we \<and> \<not> li_waiting li1")
    case False
    then have "logger_quiesce recovering ge we li1 = li1" unfolding logger_quiesce_def by (rule if_not_P)
    then show ?thesis using round inv(1) logger_flush_inv [OF h q e] logger_flush_idle [of recovering li1] by (cases "\<not> recovering \<and> 0 < li_pos li1") auto
  next
    case True
    let ?li2 = "logger_quiesce False ge we li1"
    have t: "li_pos li1 = 0" "quiescent_epoch li1 = 0" "ge \<noteq> log_epoch li1" "ge \<noteq> we" "\<not> li_waiting li1" using True by auto
    obtain ws where ws: "set ws \<subseteq> {E_wake}" "appends m ([E_epoch ge] @ ws @ [E_quiesce]) 32 li1 ?li2" using logger_quiesce_appends(1) [OF t] by blast
    note li2 = logger_quiesce_appends(2,3) [OF t]
    have "li_pos li1 + 32 \<le> length (li_buf li1)" using h True by (simp add: log_holds_def)
    then obtain zs where z: "log_holds m ?li2 xs (ys @ zs)" "map fst zs = [E_epoch ge] @ ws @ [E_quiesce]"
      using ws(2) h unfolding appends_def by blast
    have "attribute x ws = []" "last_epoch x ws = x" for x using attribute_wakes [of ws x] ws by auto
    then have att: "attribute x (map fst zs) = []" "last_epoch x (map fst zs) = ge" for x by (simp_all add: z(2) attribute_append last_epoch_append)
    have "attribute 0 (map fst (xs @ ys @ zs)) = qs" "last_epoch 0 (map fst (xs @ ys @ zs)) = log_epoch ?li2"
      using q e att li2(1) by (simp_all add: attribute_append last_epoch_append)
    then show ?thesis using logger_flush_inv [OF z(1), of qs recovering] li2(2) True round by simp
  qed
qed

lemma log_reach_inv: "log_reach m li qs \<Longrightarrow> log_inv m li qs"
proof (induction rule: log_reach.induct)
  case (log_start buf xbuf)
  then show ?case unfolding log_inv_def by (intro exI [of _ "[]"]) (simp add: log_holds_def loginfo_init_def)
next
  case (log_record li qs qt command key val we li' we')
  then show ?case by (intro log_inv_record)
next
  case (log_round li qs ge recovering we)
  then show ?case by (intro log_inv_round)
next
  case (log_wait li qs b)
  then show ?case by (simp add: log_inv_def)
qed





text \<open>
  The comment in \<open>log.hh\<close> gives the invariant that the epoch of the log differs from the epoch
  of its quiescence unless both are zero; the logger sets them to the same epoch.
\<close>

lemma quiescent_log_epoch:
  assumes "li_pos li = 0" "quiescent_epoch li = 0" "wake_epoch li = we" "ge \<noteq> log_epoch li" "ge \<noteq> we" "\<not> li_waiting li"
  shows "quiescent_epoch (logger_round False ge we li) = ge \<and> log_epoch (logger_round False ge we li) = ge"
  using assms by (simp add: logger_round_def logger_quiesce_def logger_flush_def Let_def)

section \<open>A log tried out\<close>

definition demo_qt :: "u64 \<Rightarrow> query_times" where
  "demo_qt e = \<lparr>qt_epoch = e, qt_ts = 2, qt_prev_ts = 0\<rparr>"

definition demo_log1 :: loginfo where
  "demo_log1 = fst (the (record_log logcmd_replace (demo_qt 5) [65] [1] (loginfo_init (replicate 100 0) (replicate 100 0) [], 0)))"

definition demo_log2 :: loginfo where
  "demo_log2 = logger_round False 6 0 demo_log1"

definition demo_log3 :: loginfo where
  "demo_log3 = fst (the (record_log logcmd_replace (demo_qt 7) [66] [2] (demo_log2, 0)))"

definition demo_log :: loginfo where
  "demo_log = logger_round False 8 0 demo_log3"

lemmas log_ops = record_log_def record_epoch_def record_unquiesce_def record_wake_def record_kv_def put_record_def
  logger_round_def logger_quiesce_def logger_flush_def stores logrec_sizes

lemma demo_log1_fields:
  "log_epoch demo_log1 = 5" "li_pos demo_log1 = 42" "li_waiting demo_log1 = False" "wake_epoch demo_log1 = 0" "quiescent_epoch demo_log1 = 0"
  "length (x_buf demo_log1) = 100"
  "record_log logcmd_replace (demo_qt 5) [65] [1] (loginfo_init (replicate 100 0) (replicate 100 0) [], 0) = Some (demo_log1, 0)"
  by (simp_all add: demo_log1_def log_ops loginfo_init_def demo_qt_def logcmds)

lemma demo_log2_fields:
  "log_epoch demo_log2 = 5" "li_pos demo_log2 = 0" "li_waiting demo_log2 = False" "wake_epoch demo_log2 = 0" "quiescent_epoch demo_log2 = 0"
  "length (li_buf demo_log2) = 100"
  by (simp_all add: demo_log2_def demo_log1_fields logger_round_def logger_quiesce_def logger_flush_def)

lemma demo_log3_fields:
  "log_epoch demo_log3 = 7" "li_pos demo_log3 = 42" "li_waiting demo_log3 = False" "wake_epoch demo_log3 = 0" "quiescent_epoch demo_log3 = 0"
  "record_log logcmd_replace (demo_qt 7) [66] [2] (demo_log2, 0) = Some (demo_log3, 0)"
  by (simp_all add: demo_log3_def log_ops demo_log2_fields demo_qt_def logcmds)

lemma demo_log_reach:
  "log_reach 255 demo_log [(5, E_kv logcmd_replace [65] [1] 2), (7, E_kv logcmd_replace [66] [2] 2)]" "flushed_epoch demo_log = 7"
proof -
  have entry: "query_entry logcmd_replace (demo_qt e) k v = E_kv logcmd_replace k v 2" for e k v by (simp add: query_entry_def demo_qt_def logcmds)
  have "log_reach 255 demo_log1 ([] @ [(5, E_kv logcmd_replace [65] [1] 2)])"
    using log_record [OF log_start _ _ demo_log1_fields(7), of 255] by (simp add: loginfo_init_def demo_qt_def entry [unfolded demo_qt_def] logrec_sizes)
  then have "log_reach 255 demo_log2 [(5, E_kv logcmd_replace [65] [1] 2)]" unfolding demo_log2_def by (intro log_round) (simp_all add: demo_log1_fields)
  from log_record [OF this _ _ demo_log3_fields(6)] have "log_reach 255 demo_log3 [(5, E_kv logcmd_replace [65] [1] 2), (7, E_kv logcmd_replace [66] [2] 2)]"
    by (simp add: demo_log2_fields demo_qt_def entry [unfolded demo_qt_def] logrec_sizes)
  then show "log_reach 255 demo_log [(5, E_kv logcmd_replace [65] [1] 2), (7, E_kv logcmd_replace [66] [2] 2)]"
    unfolding demo_log_def by (intro log_round) (simp_all add: demo_log3_fields)
  show "flushed_epoch demo_log = 7" by (simp add: demo_log_def demo_log3_fields logger_round_def logger_quiesce_def logger_flush_def)
qed



end
