(* ===== verification/Spec2Isabelle.thy ===== *)
theory Spec2Isabelle
  imports Incll_Leaf Masstree_Key Ksearch Stringbag Pextlog Ppp Kvthread Tree_Remove Tree_Scan Tree_Split Epoch_Advance Value_Rows
    Msgpack_Stream Log_Records
begin

text \<open>
  A verification library for durable Masstree (InCLL): a key-value store that keeps a
  Masstree in persistent memory and makes it recoverable by logging inside cache lines.

  \<^bold>\<open>The program.\<close>  A table is a trie of B+-trees, one layer for every 8 bytes of the key
  (\<open>masstree.hh\<close>, \<open>masstree_struct.hh\<close>).  Readers descend without locks and check version
  words (\<open>nodeversion.hh\<close>); writers lock one leaf, insert into or remove from a 64-bit
  permutation of its slots (\<open>kpermuter.hh\<close>), and split or delete nodes.  Execution is divided
  into epochs.  The state at the start of the running epoch can always be restored: the
  first change of a leaf in an epoch either fits into the log words that share the cache
  lines with the data it changes (\<open>incll_lv_\<close> and the saved permutation) or copies the node
  into an external log (\<open>incll_pextlog.hh\<close>); free lists of persistent memory use pointers
  that carry their own log (\<open>kvthread_persistent.hh\<close>).  An epoch ends when all threads have
  stopped and the caches are flushed (\<open>incll_gf.hh\<close>).  After a crash the external log is
  undone at once and a leaf is repaired when it is next visited (\<open>lazy_recovery\<close>).  Rows
  (\<open>value_bag.hh\<close> and its variants) hang off the leaves; retired memory waits in per-thread
  limbo lists until no reader can hold it (\<open>kvthread.cc\<close>).

  \<^bold>\<open>Data.\<close>  Machine integers are words of their width.  Records and datatypes keep the
  fields and constructors of the source.  Memory is, as each component needs it, a function
  from addresses to bytes (\<open>Pextlog\<close>), a finite map from addresses to nodes (\<open>Tree_Heap\<close>), or
  a list of bytes for one buffer.  An operation returns \<open>None\<close> where the code would run into
  undefined behaviour, a failed assertion or a loop that does not end.

  \<^bold>\<open>Theories and what they model.\<close>
  \<^item> \<open>Prelude\<close>, \<open>Nibbles\<close>: machine integers, masks, rearranged lists, a word as sixteen digits.
  \<^item> \<open>Kpermuter\<close>: all operations of \<open>kpermuter\<close>, for every width up to 15.  Every permuter
    built by them is a permutation with a size; insertion and removal meet their comments'
    contracts and refine sequences of slots.  The locale \<open>slot_permuter\<close> is what a leaf
    needs of its permutation; it is interpreted for both widths in use.
  \<^item> \<open>Nodeversion\<close>: the 32-bit version word and its concurrent use by \<open>stable\<close>, \<open>lock\<close>, the
    marks and \<open>unlock\<close>, as a step relation over all interleavings: mutual exclusion, what a
    validated reader knows, and where the counters wrap.
  \<^item> \<open>Incll_Lv\<close>, \<open>Nodes\<close>, \<open>Incll_Leaf\<close>: the in-cache-line log word, the leaf and the internode
    with every persistence operation, and the crash states of a leaf.  A crash keeps for every
    cache line a prefix of the stores to it; recovery then shows the state of the epoch start.
  \<^item> \<open>Pextlog\<close>: the external log and the placement of the logs of all threads.
  \<^item> \<open>Ppp\<close>, \<open>Kvthread\<close>: persistent pointers, the pools of persistent memory, and deferred
    freeing with its grace period, again over all interleavings of the threads' operations.
  \<^item> \<open>Global_Flush\<close>, \<open>Epoch_Advance\<close>: the protocol that ends an epoch, one step per semaphore
    operation or shared access, and its invariants.
  \<^item> \<open>String_Slice\<close>, \<open>Masstree_Key\<close>, \<open>Ksearch\<close>, \<open>Stringbag\<close>: slices and keys, searching a node
    (the locale \<open>bound_method\<close> states what a search promises; both searches of the source
    interpret it), and the bag of key suffixes of a leaf.
  \<^item> \<open>Tree_Heap\<close>, \<open>Tree_Find\<close>, \<open>Tree_Insert\<close>, \<open>Tree_Remove\<close>, \<open>Tree_Scan\<close>: the nodes in memory
    and \<open>find_unlocked\<close>, \<open>find_locked\<close>, \<open>find_insert\<close>, layers, splits, removal, collapsing and
    both scans, each as one function with the calls of the source.
  \<^item> \<open>Tree_Map\<close>, \<open>Tree_Update\<close>, \<open>Tree_Put\<close>, \<open>Tree_Split\<close>: what a tree stores, as a map from
    strings to values, and that lookups, stores to a leaf and removals from it refine lookup,
    update and deletion; the split point of a full leaf and what its two halves hold.
  \<^item> \<open>Value_Rows\<close>: rows as bags, strings and arrays of columns, and what their updates do.
  \<^item> \<open>Json_Value\<close>, \<open>Msgpack\<close>, \<open>Msgpack_Stream\<close>: the JSON values of requests and their wire format.
    The locale \<open>wire_format\<close> states that what is written can be read back in front of anything;
    numbers, strings and headers interpret it.  The streaming parser does not depend on how
    its input is cut into pieces and returns every value that was written.
  \<^item> \<open>Log_Records\<close>: the value log, its records, the recording of queries and the rounds of the
    logger.  The locale \<open>record_format\<close> extends \<open>wire_format\<close> by formats whose cut records are
    noticed; the records of the log interpret it.  A log, also a cut one, returns the changes
    that were recorded, and \<open>flushed_epoch\<close> bounds what is in the file.

  \<^bold>\<open>Sequential and concurrent parts.\<close>  The functions on the tree run one operation at a
  time on a quiescent tree: the retry loops of the source are then taken once, and the
  functions return \<open>None\<close> where another thread would have to make progress first.  What
  threads can do to each other is modelled where the code relies on it, for the version word,
  the end of an epoch and deferred freeing, by step relations over all interleavings.

  \<^bold>\<open>Fuel.\<close>  Descents, chains of layers and loops over leaves take fuel.  The refinement
  theorems show that fuel above the height and the number of layers of the tree is enough; no
  theorem assumes that an operation returned.

  \<^bold>\<open>Not modelled.\<close>  The network server and client (\<open>mtd.cc\<close>, \<open>mtclient.cc\<close>, \<open>kvio.cc\<close>) and the test and benchmark
  drivers (\<open>mttest.cc\<close>, \<open>kvtest.hh\<close>, the \<open>ycsb\<close> and \<open>perf\<close> files, the unit tests) are input, output
  and measurement around the calls that are modelled, of which \<open>set_global_epoch\<close> and the
  cursor calls of \<open>test_mocktree.hh\<close> are taken.  \<open>clp.c\<close> parses command lines, \<open>string.cc\<close> and
  \<open>straccum.cc\<close> manage reference-counted buffers; strings are lists of bytes here.
  \<open>incll_extlog.hh\<close>, \<open>incll_copy.hh\<close>, \<open>incll_trav.hh\<close> and \<open>incll_bl.hh\<close> are earlier or
  diagnostic variants that the store does not call on its path.  \<open>masstree_print.hh\<close> and
  \<open>masstree_stats.hh\<close> only report.
\<close>

end
